(* ===== verification/Prelude.thy ===== *)
theory Prelude
  imports Main "HOL-Library.Word" "HOL-Library.Sublist"
begin

text \<open>
  The shared vocabulary of the development: machine integers and byte buffers, byte-string
  literals, Rust's slicing on lists, big-endian integers (\<^verbatim>\<open>to_be_bytes\<close> and \<^verbatim>\<open>from_be_bytes\<close>),
  the interface \<open>fixed_width\<close> of a fixed-size field, the interface \<open>step_invariant\<close> of a
  component with a state invariant, and the collections of simplification rules the component
  theories extend.
\<close>

section \<open>Types\<close>

type_synonym u8 = "8 word"
type_synonym u16 = "16 word"
type_synonym u32 = "32 word"
type_synonym u64 = "64 word"
type_synonym bytes = "u8 list"

abbreviation esc :: u8 where "esc \<equiv> 0x1b"
abbreviation bel :: u8 where "bel \<equiv> 0x07"

named_theorems wire_simps \<open>layout of the wire format\<close>
named_theorems frame_simps \<open>fields an operation leaves alone\<close>

section \<open>Byte-string literals\<close>

text \<open>\<open>bytes_of ''abc''\<close> is Rust's \<^verbatim>\<open>b"abc"\<close>.\<close>

definition bytes_of :: "string \<Rightarrow> bytes" where
  "bytes_of s = map (\<lambda>c. word_of_nat (of_char c)) s"

lemma bytes_of_Nil [simp]: "bytes_of [] = []"
  by (simp add: bytes_of_def)

lemma bytes_of_Cons [simp]: "bytes_of (c # s) = word_of_nat (of_char c) # bytes_of s"
  by (simp add: bytes_of_def)

lemma length_bytes_of [simp]: "length (bytes_of s) = length s"
  by (simp add: bytes_of_def)

section \<open>Slices\<close>

lemma take_append_exact [simp]: "length xs = n \<Longrightarrow> take n (xs @ ys) = xs"
  by simp

lemma drop_append_exact [simp]: "length xs = n \<Longrightarrow> drop n (xs @ ys) = ys"
  by simp

lemma unat_word_of_nat_eq: "n < 2 ^ LENGTH('a::len) \<Longrightarrow> unat (word_of_nat n :: 'a word) = n"
  by (simp add: unat_of_nat)

section \<open>Big-endian integers\<close>

fun nat_to_be :: "nat \<Rightarrow> nat \<Rightarrow> bytes" where
  "nat_to_be 0 k = []"
| "nat_to_be (Suc n) k = nat_to_be n (k div 256) @ [word_of_nat k]"

lemma nat_to_be_numeral [simp]:
  "nat_to_be (numeral n) k = nat_to_be (pred_numeral n) (k div 256) @ [word_of_nat k]"
  by (simp only: numeral_eq_Suc nat_to_be.simps)

definition nat_of_be :: "bytes \<Rightarrow> nat" where
  "nat_of_be bs = foldl (\<lambda>a b. 256 * a + unat b) 0 bs"

lemma length_nat_to_be [simp]: "length (nat_to_be n k) = n"
  by (induction n arbitrary: k) auto

lemma nat_of_be_Nil [simp]: "nat_of_be [] = 0"
  by (simp add: nat_of_be_def)

lemma nat_of_be_snoc [simp]: "nat_of_be (bs @ [b]) = 256 * nat_of_be bs + unat b"
  by (simp add: nat_of_be_def)

lemma nat_of_be_to_be: "nat_of_be (nat_to_be n k) = k mod 256 ^ n"
proof (induction n arbitrary: k)
  case 0
  then show ?case by simp
next
  case (Suc n)
  have "unat (word_of_nat k :: u8) = k mod 256"
    by (simp add: unat_of_nat)
  with Suc show ?case
    by (simp add: mod_mult2_eq)
qed

lemma nat_of_be_bound: "nat_of_be bs < 256 ^ length bs"
proof (induction bs rule: rev_induct)
  case Nil
  then show ?case by simp
next
  case (snoc b bs)
  have "unat b < 256"
    using unsigned_less [of b] by simp
  with snoc show ?case by simp
qed

lemma nat_to_be_of_be: "nat_to_be (length bs) (nat_of_be bs) = bs"
proof (induction bs rule: rev_induct)
  case Nil
  then show ?case by simp
next
  case (snoc b bs)
  have b: "unat b < 256"
    using unsigned_less [of b] by simp
  have z: "(256 :: u8) = 0"
    by simp
  have "(word_of_nat (256 * nat_of_be bs + unat b) :: u8) = b"
    by (simp add: z)
  with snoc b show ?case by simp
qed

definition to_be_bytes :: "'a::len word \<Rightarrow> bytes" where
  "to_be_bytes w = nat_to_be (LENGTH('a) div 8) (unat w)"

definition from_be_bytes :: "bytes \<Rightarrow> 'a::len word" where
  "from_be_bytes bs = word_of_nat (nat_of_be bs)"

lemma length_to_be_bytes: "length (to_be_bytes (w :: 'a::len word)) = LENGTH('a) div 8"
  by (simp add: to_be_bytes_def)

lemma pow256: "8 * k = n \<Longrightarrow> (256 :: nat) ^ k = 2 ^ n"
  by (auto simp: power_mult)

lemma from_be_to_be:
  fixes w :: "'a::len word"
  assumes "8 dvd LENGTH('a)"
  shows "from_be_bytes (to_be_bytes w) = w"
proof -
  have "(256 :: nat) ^ (LENGTH('a) div 8) = 2 ^ LENGTH('a)"
    using assms by (intro pow256) simp
  then have "nat_of_be (to_be_bytes w) = unat w"
    by (simp add: to_be_bytes_def nat_of_be_to_be)
  then show ?thesis
    by (simp add: from_be_bytes_def)
qed

lemma to_be_from_be:
  assumes "8 * length bs = LENGTH('a::len)"
  shows "to_be_bytes (from_be_bytes bs :: 'a word) = bs"
proof -
  have "(256 :: nat) ^ length bs = 2 ^ LENGTH('a)"
    using assms by (rule pow256)
  then have "unat (from_be_bytes bs :: 'a word) = nat_of_be bs"
    using nat_of_be_bound [of bs] by (simp add: from_be_bytes_def unat_of_nat)
  moreover have "LENGTH('a) div 8 = length bs"
    using assms by simp
  ultimately show ?thesis
    by (simp add: to_be_bytes_def nat_to_be_of_be)
qed

section \<open>Interfaces\<close>

text \<open>
  A fixed-width field of a byte format: what a reader of such fields relies on. The three
  integer widths of the wire format are its instances.
\<close>

locale fixed_width =
  fixes enc :: "'v \<Rightarrow> bytes" and dec :: "bytes \<Rightarrow> 'v" and width :: nat
  assumes enc_length: "length (enc v) = width"
    and dec_enc: "dec (enc v) = v"
    and enc_dec: "length bs = width \<Longrightarrow> enc (dec bs) = bs"
begin

lemma dec_take [simp]: "dec (take width (enc v @ rest)) = v"
  by (simp add: enc_length dec_enc)

lemma drop_enc [simp]: "drop width (enc v @ rest) = rest"
  by (simp add: enc_length)

lemma enc_inject: "enc v = enc w \<longleftrightarrow> v = w"
  by (metis dec_enc)

lemma enc_prefix: "width \<le> length bs \<Longrightarrow> enc (dec (take width bs)) @ drop width bs = bs"
  by (simp add: enc_dec)

end

interpretation be16: fixed_width "to_be_bytes :: u16 \<Rightarrow> bytes" from_be_bytes 2
  by unfold_locales (simp_all add: length_to_be_bytes from_be_to_be to_be_from_be)

interpretation be32: fixed_width "to_be_bytes :: u32 \<Rightarrow> bytes" from_be_bytes 4
  by unfold_locales (simp_all add: length_to_be_bytes from_be_to_be to_be_from_be)

interpretation be64: fixed_width "to_be_bytes :: u64 \<Rightarrow> bytes" from_be_bytes 8
  by unfold_locales (simp_all add: length_to_be_bytes from_be_to_be to_be_from_be)

lemmas [wire_simps] =
  be16.enc_length be32.enc_length be64.enc_length be16.dec_enc be32.dec_enc be64.dec_enc

text \<open>
  A component driven by events: an invariant that holds of a state and that every event keeps
  holds after every sequence of events.
\<close>

locale step_invariant =
  fixes step :: "'s \<Rightarrow> 'e \<Rightarrow> 's" and inv :: "'s \<Rightarrow> bool"
  assumes step_inv: "inv s \<Longrightarrow> inv (step s e)"
begin

lemma run_inv: "inv s \<Longrightarrow> inv (foldl step s es)"
  by (induction es arbitrary: s) (simp_all add: step_inv)

end

text \<open>
  A component whose steps may end the process (\<open>None\<close>), and a contract between its state and the
  whole history of events that led to it.
\<close>

definition run_steps :: "('s \<Rightarrow> 'e \<Rightarrow> 's option) \<Rightarrow> 's \<Rightarrow> 'e list \<Rightarrow> 's option" where
  "run_steps step s es = foldl (\<lambda>w e. Option.bind w (\<lambda>s. step s e)) (Some s) es"

lemma run_steps_Nil [simp]: "run_steps step s [] = Some s"
  by (simp add: run_steps_def)

lemma run_steps_snoc: "run_steps step s (es @ [e]) = Option.bind (run_steps step s es) (\<lambda>s. step s e)"
  by (simp add: run_steps_def)

lemma run_steps_append:
  "run_steps step s (es @ fs) = Option.bind (run_steps step s es) (\<lambda>s. run_steps step s fs)"
  by (induction fs rule: rev_induct)
    (simp_all add: run_steps_snoc flip: append_assoc)

lemma run_steps_Cons [simp]:
  "run_steps step s (e # es) = Option.bind (step s e) (\<lambda>s. run_steps step s es)"
  using run_steps_append [of step s "[e]" es] run_steps_snoc [of step s "[]" e] by simp

locale history_invariant =
  fixes step :: "'s \<Rightarrow> 'e \<Rightarrow> 's option" and init :: 's and hinv :: "'e list \<Rightarrow> 's \<Rightarrow> bool"
  assumes hinv_init: "hinv [] init"
    and hinv_step: "hinv h s \<Longrightarrow> step s e = Some s' \<Longrightarrow> hinv (h @ [e]) s'"
begin

lemma run_history: "run_steps step init es = Some s \<Longrightarrow> hinv es s"
  by (induction es arbitrary: s rule: rev_induct)
    (auto simp: run_steps_snoc bind_eq_Some_conv intro: hinv_init hinv_step)

end

text \<open>
  A stateful byte filter consumes a chunk and returns the bytes it lets through and its next state,
  in which it may hold bytes back. The contract: it only ever deletes bytes. Then so does every run
  over a sequence of chunks, with what is still held back accounted for.
\<close>

fun run_filter :: "('s \<Rightarrow> bytes \<Rightarrow> bytes \<times> 's) \<Rightarrow> 's \<Rightarrow> bytes list \<Rightarrow> bytes \<times> 's" where
  "run_filter f s [] = ([], s)"
| "run_filter f s (c # cs) =
     (let (out, s') = f s c; (outs, s'') = run_filter f s' cs in (out @ outs, s''))"

locale byte_filter =
  fixes filt :: "'s \<Rightarrow> bytes \<Rightarrow> bytes \<times> 's" and held :: "'s \<Rightarrow> bytes"
  assumes only_deletes: "filt s d = (out, s') \<Longrightarrow> subseq (out @ held s') (held s @ d)"
begin

lemma run_only_deletes:
  "run_filter filt s cs = (out, s') \<Longrightarrow> subseq (out @ held s') (held s @ concat cs)"
proof (induction cs arbitrary: s out s')
  case Nil
  then show ?case by simp
next
  case (Cons c cs)
  obtain o1 s1 where f: "filt s c = (o1, s1)"
    by (cases "filt s c")
  obtain o2 s2 where r: "run_filter filt s1 cs = (o2, s2)"
    by (cases "run_filter filt s1 cs")
  from Cons.prems f r have o: "out = o1 @ o2" "s' = s2"
    by simp_all
  have "subseq (o1 @ (o2 @ held s2)) (o1 @ (held s1 @ concat cs))"
    by (rule list_emb_append_mono [OF subseq_order.order_refl Cons.IH [OF r]])
  moreover have "subseq ((o1 @ held s1) @ concat cs) ((held s @ c) @ concat cs)"
    by (rule list_emb_append_mono [OF only_deletes [OF f] subseq_order.order_refl])
  ultimately show ?case
    by (simp add: o)
qed

end

end
