(* ===== verification/Rust_Std.thy ===== *)
theory Rust_Std
  imports Prelude
begin

text \<open>
  What the sources use of Rust's standard library: \<^verbatim>\<open>io::Error\<close>, strings as lists of Unicode
  scalar values with their UTF-8 encoding (\<^verbatim>\<open>as_bytes\<close>, \<^verbatim>\<open>encode_utf8\<close>) and the lossy decoder
  (\<^verbatim>\<open>String::from_utf8_lossy\<close>), \<^verbatim>\<open>split_whitespace\<close>, decimal and hexadecimal formatting, the
  unsigned \<^verbatim>\<open>parse\<close>, and saturating subtraction. The lemmas are the round trips the protocol and
  the login line rest on.
\<close>

section \<open>I/O errors\<close>

datatype io_kind =
    UnexpectedEof | InvalidData | WouldBlock | TimedOut | ConnectionRefused | Interrupted
  | BrokenPipe | OtherKind

datatype io_error = IoError (io_kind: io_kind) (io_msg: string)

type_synonym 'a io_result = "io_error + 'a"

section \<open>Strings and UTF-8\<close>

type_synonym rchar = nat
type_synonym rstring = "rchar list"

definition is_scalar :: "rchar \<Rightarrow> bool" where
  "is_scalar c \<longleftrightarrow> c < 0xD800 \<or> 0xE000 \<le> c \<and> c < 0x110000"

definition valid_string :: "rstring \<Rightarrow> bool" where
  "valid_string s \<longleftrightarrow> list_all is_scalar s"

text \<open>An ASCII literal of the sources.\<close>

definition str :: "string \<Rightarrow> rstring" where
  "str s = map of_char s"

definition byte_of :: "nat \<Rightarrow> u8" where
  "byte_of n = word_of_nat n"

definition encode_utf8 :: "rchar \<Rightarrow> bytes" where
  "encode_utf8 c = map byte_of
     (if c < 0x80 then [c]
      else if c < 0x800 then [0xC0 + c div 64, 0x80 + c mod 64]
      else if c < 0x10000 then [0xE0 + c div 4096, 0x80 + c div 64 mod 64, 0x80 + c mod 64]
      else [0xF0 + c div 262144, 0x80 + c div 4096 mod 64, 0x80 + c div 64 mod 64, 0x80 + c mod 64])"

definition as_bytes :: "rstring \<Rightarrow> bytes" where
  "as_bytes s = concat (map encode_utf8 s)"

text \<open>
  One step of the lossy decoder on a non-empty slice: the number of bytes inspected and the
  character they stand for, U+FFFD when they are not well-formed (\<^verbatim>\<open>Utf8Chunks\<close>: a read past the
  end gives 0, which is no continuation byte).
\<close>

definition safe_get :: "bytes \<Rightarrow> nat \<Rightarrow> nat" where
  "safe_get bs i = (if i < length bs then unat (bs ! i) else 0)"

definition is_cont :: "nat \<Rightarrow> bool" where
  "is_cont n \<longleftrightarrow> 0x80 \<le> n \<and> n < 0xC0"

definition second3_ok :: "nat \<Rightarrow> nat \<Rightarrow> bool" where
  "second3_ok b b2 \<longleftrightarrow>
     (if b = 0xE0 then 0xA0 \<le> b2 \<and> b2 < 0xC0 else if b = 0xED then 0x80 \<le> b2 \<and> b2 < 0xA0 else is_cont b2)"

definition second4_ok :: "nat \<Rightarrow> nat \<Rightarrow> bool" where
  "second4_ok b b2 \<longleftrightarrow>
     (if b = 0xF0 then 0x90 \<le> b2 \<and> b2 < 0xC0 else if b = 0xF4 then 0x80 \<le> b2 \<and> b2 < 0x90 else is_cont b2)"

definition lossy_step :: "bytes \<Rightarrow> nat \<times> rchar" where
  "lossy_step bs =
     (let b = safe_get bs 0; b2 = safe_get bs 1; b3 = safe_get bs 2; b4 = safe_get bs 3 in
      if b < 0x80 then (1, b)
      else if 0xC2 \<le> b \<and> b < 0xE0 then
        (if \<not> is_cont b2 then (1, 0xFFFD) else (2, (b - 0xC0) * 64 + (b2 - 0x80)))
      else if 0xE0 \<le> b \<and> b < 0xF0 then
        (if \<not> second3_ok b b2 then (1, 0xFFFD)
         else if \<not> is_cont b3 then (2, 0xFFFD)
         else (3, (b - 0xE0) * 4096 + (b2 - 0x80) * 64 + (b3 - 0x80)))
      else if 0xF0 \<le> b \<and> b < 0xF5 then
        (if \<not> second4_ok b b2 then (1, 0xFFFD)
         else if \<not> is_cont b3 then (2, 0xFFFD)
         else if \<not> is_cont b4 then (3, 0xFFFD)
         else (4, (b - 0xF0) * 262144 + (b2 - 0x80) * 4096 + (b3 - 0x80) * 64 + (b4 - 0x80)))
      else (1, 0xFFFD))"

fun from_utf8_lossy :: "bytes \<Rightarrow> rstring" where
  "from_utf8_lossy [] = []"
| "from_utf8_lossy (b # bs) =
     (let (n, c) = lossy_step (b # bs) in c # from_utf8_lossy (drop (n - 1) bs))"

lemma unat_byte_of [simp]: "n < 256 \<Longrightarrow> unat (byte_of n) = n"
  by (simp add: byte_of_def unat_of_nat)

lemma byte_of_numeral [simp]: "byte_of 0 = 0" "byte_of 1 = 1" "byte_of (numeral n) = numeral n"
  by (simp_all add: byte_of_def)

lemma unat_lt_256 [simp]: "unat (b :: u8) < 256"
  using unsigned_less [of b, where ?'a = nat] by simp

lemma safe_get_Cons_0 [simp]: "safe_get (b # bs) 0 = unat b"
  by (simp add: safe_get_def)

lemma safe_get_Cons_Suc [simp]: "safe_get (b # bs) (Suc i) = safe_get bs i"
  by (simp add: safe_get_def)

lemma safe_get_Cons_numeral [simp]:
  "safe_get (b # bs) 1 = safe_get bs 0" "safe_get (b # bs) 2 = safe_get bs 1"
  "safe_get (b # bs) 3 = safe_get bs 2"
  by (simp_all add: safe_get_def eval_nat_numeral)

lemma lossy_step_encode1: "c < 0x80 \<Longrightarrow> lossy_step (encode_utf8 c @ r) = (1, c)"
  by (simp add: encode_utf8_def lossy_step_def)

lemma lossy_step_encode2:
  assumes "0x80 \<le> c" "c < 0x800"
  shows "lossy_step (encode_utf8 c @ r) = (2, c)"
proof -
  have "2 \<le> c div 64" "c div 64 < 32" "c mod 64 < 64"
    using assms by auto
  with assms show ?thesis
    by (simp add: encode_utf8_def lossy_step_def is_cont_def)
qed

text \<open>The digits of a code point in base 64.\<close>

lemma base64_split3: "(c::nat) = c div 4096 * 4096 + c div 64 mod 64 * 64 + c mod 64"
proof -
  have "c div 4096 = c div 64 div 64"
    by (simp add: div_mult2_eq [symmetric])
  then show ?thesis
    using div_mult_mod_eq [of c 64] div_mult_mod_eq [of "c div 64" 64] by linarith
qed

lemma base64_split4:
  "(c::nat) = c div 262144 * 262144 + c div 4096 mod 64 * 4096 + c div 64 mod 64 * 64 + c mod 64"
proof -
  have "c div 262144 = c div 4096 div 64"
    by (simp add: div_mult2_eq [symmetric])
  then show ?thesis
    using base64_split3 [of c] div_mult_mod_eq [of "c div 4096" 64] by linarith
qed

lemma lossy_step_encode3:
  assumes "0x800 \<le> c" "c < 0x10000" "is_scalar c"
  shows "lossy_step (encode_utf8 c @ r) = (3, c)"
proof -
  define h m l where d: "h = c div 4096" "m = c div 64 mod 64" "l = c mod 64"
  have b: "h < 16" "m < 64" "l < 64"
    using assms(2) by (auto simp: d)
  have c: "c = h * 4096 + m * 64 + l"
    unfolding d by (rule base64_split3)
  have e: "encode_utf8 c = map byte_of [0xE0 + h, 0x80 + m, 0x80 + l]"
    using assms by (simp add: encode_utf8_def d)
  have "second3_ok (0xE0 + h) (0x80 + m)"
    using assms b c unfolding second3_ok_def is_cont_def is_scalar_def by auto
  with b c show ?thesis
    unfolding e by (simp add: lossy_step_def is_cont_def)
qed

lemma lossy_step_encode4:
  assumes "0x10000 \<le> c" "c < 0x110000"
  shows "lossy_step (encode_utf8 c @ r) = (4, c)"
proof -
  define g h m l where d: "g = c div 262144" "h = c div 4096 mod 64" "m = c div 64 mod 64" "l = c mod 64"
  have b: "g < 5" "h < 64" "m < 64" "l < 64"
    using assms(2) by (auto simp: d)
  have c: "c = g * 262144 + h * 4096 + m * 64 + l"
    unfolding d by (rule base64_split4)
  have e: "encode_utf8 c = map byte_of [0xF0 + g, 0x80 + h, 0x80 + m, 0x80 + l]"
    using assms by (simp add: encode_utf8_def d)
  have "second4_ok (0xF0 + g) (0x80 + h)"
    using assms b c unfolding second4_ok_def is_cont_def by auto
  with b c show ?thesis
    unfolding e by (simp add: lossy_step_def is_cont_def)
qed

lemma lossy_step_encode:
  "is_scalar c \<Longrightarrow> lossy_step (encode_utf8 c @ r) = (length (encode_utf8 c), c)"
proof -
  assume c: "is_scalar c"
  consider "c < 0x80" | "0x80 \<le> c" "c < 0x800" | "0x800 \<le> c" "c < 0x10000" | "0x10000 \<le> c" "c < 0x110000"
    using c unfolding is_scalar_def by fastforce
  then show ?thesis
    by cases (simp_all only: lossy_step_encode1 lossy_step_encode2 lossy_step_encode3 [OF _ _ c]
        lossy_step_encode4, simp_all add: encode_utf8_def)
qed

lemma encode_utf8_nonempty [simp]: "encode_utf8 c \<noteq> []"
  by (simp add: encode_utf8_def)

lemma from_utf8_lossy_encode:
  assumes "is_scalar c"
  shows "from_utf8_lossy (encode_utf8 c @ r) = c # from_utf8_lossy r"
proof -
  obtain b bs where e: "encode_utf8 c = b # bs"
    by (cases "encode_utf8 c") auto
  with lossy_step_encode [OF assms, of r] show ?thesis
    by simp
qed

text \<open>Decoding the bytes of a string gives the string back.\<close>

lemma from_utf8_lossy_as_bytes:
  "valid_string s \<Longrightarrow> from_utf8_lossy (as_bytes s) = s"
  by (induction s) (simp_all add: as_bytes_def valid_string_def from_utf8_lossy_encode)

lemma scalar2: "b < 0xE0 \<Longrightarrow> is_cont b2 \<Longrightarrow> is_scalar ((b - 0xC0) * 64 + (b2 - 0x80))"
  unfolding is_scalar_def is_cont_def by (rule disjI1) linarith

lemma scalar3:
  assumes "b < 0xF0" "second3_ok b b2" "is_cont b3"
  shows "is_scalar ((b - 0xE0) * 4096 + (b2 - 0x80) * 64 + (b3 - 0x80))"
proof (cases "b < 0xED")
  case True
  moreover have "b2 < 0xC0" "b3 < 0xC0"
    using assms True by (auto simp: second3_ok_def is_cont_def split: if_splits)
  ultimately have "(b - 0xE0) * 4096 + (b2 - 0x80) * 64 + (b3 - 0x80) < 0xD800"
    by linarith
  then show ?thesis
    unfolding is_scalar_def ..
next
  case False
  then consider "b = 0xED" | "b = 0xEE" | "b = 0xEF"
    using assms(1) by linarith
  then show ?thesis
    using assms by cases (auto simp: is_scalar_def second3_ok_def is_cont_def)
qed

lemma scalar4:
  assumes "0xF0 \<le> b" "b < 0xF5" "second4_ok b b2" "is_cont b3" "is_cont b4"
  shows "is_scalar ((b - 0xF0) * 262144 + (b2 - 0x80) * 4096 + (b3 - 0x80) * 64 + (b4 - 0x80))"
proof -
  consider "b = 0xF0" | "b = 0xF1" | "b = 0xF2" | "b = 0xF3" | "b = 0xF4"
    using assms(1,2) by linarith
  then show ?thesis
    using assms(3-) by cases (auto simp: is_scalar_def second4_ok_def is_cont_def)
qed

lemma lossy_step_scalar: "is_scalar (snd (lossy_step bs))"
proof -
  have "b < 0x80 \<Longrightarrow> is_scalar b" and "is_scalar 0xFFFD" for b
    by (simp_all add: is_scalar_def)
  then show ?thesis
    by (simp add: lossy_step_def Let_def scalar2 scalar3 scalar4)
qed

lemma from_utf8_lossy_valid: "valid_string (from_utf8_lossy bs)"
proof (induction bs rule: from_utf8_lossy.induct)
  case 1
  then show ?case by (simp add: valid_string_def)
next
  case (2 b bs)
  obtain n c where nc: "lossy_step (b # bs) = (n, c)"
    by (cases "lossy_step (b # bs)")
  with 2 lossy_step_scalar [of "b # bs"] show ?case
    by (simp add: valid_string_def)
qed

lemma as_bytes_append [simp]: "as_bytes (s @ t) = as_bytes s @ as_bytes t"
  by (simp add: as_bytes_def)

lemma as_bytes_Nil [simp]: "as_bytes [] = []"
  by (simp add: as_bytes_def)

section \<open>White space\<close>

definition is_whitespace :: "rchar \<Rightarrow> bool" where
  "is_whitespace c \<longleftrightarrow>
     9 \<le> c \<and> c \<le> 13 \<or> c = 32 \<or> c = 0x85 \<or> c = 0xA0 \<or> c = 0x1680 \<or> 0x2000 \<le> c \<and> c \<le> 0x200A
     \<or> c = 0x2028 \<or> c = 0x2029 \<or> c = 0x202F \<or> c = 0x205F \<or> c = 0x3000"

fun split_on :: "(rchar \<Rightarrow> bool) \<Rightarrow> rstring \<Rightarrow> rstring list" where
  "split_on p [] = [[]]"
| "split_on p (c # s) =
     (if p c then [] # split_on p s
      else (case split_on p s of [] \<Rightarrow> [[c]] | w # ws \<Rightarrow> (c # w) # ws))"

definition split_whitespace :: "rstring \<Rightarrow> rstring list" where
  "split_whitespace s = filter (\<lambda>w. w \<noteq> []) (split_on is_whitespace s)"

lemma split_on_word:
  "list_all (\<lambda>c. \<not> p c) w \<Longrightarrow> p c \<Longrightarrow> split_on p (w @ c # s) = w # split_on p s"
  by (induction w) simp_all

lemma split_on_last: "list_all (\<lambda>c. \<not> p c) w \<Longrightarrow> split_on p w = [w]"
  by (induction w) simp_all

text \<open>A non-empty word up to the next blank is the next item of \<open>split_whitespace\<close>.\<close>

lemma split_whitespace_word:
  "w \<noteq> [] \<Longrightarrow> list_all (\<lambda>c. \<not> is_whitespace c) w \<Longrightarrow> is_whitespace c \<Longrightarrow>
   split_whitespace (w @ c # s) = w # split_whitespace s"
  by (simp add: split_whitespace_def split_on_word)

lemma split_whitespace_last:
  "w \<noteq> [] \<Longrightarrow> list_all (\<lambda>c. \<not> is_whitespace c) w \<Longrightarrow> split_whitespace w = [w]"
  by (simp add: split_whitespace_def split_on_last)

lemma split_whitespace_words_nonempty: "[] \<notin> set (split_whitespace s)"
  by (simp add: split_whitespace_def)

section \<open>Numbers as text\<close>

fun digits :: "nat \<Rightarrow> nat \<Rightarrow> nat list" where
  "digits base n =
     (if base < 2 \<or> n < base then [n] else digits base (n div base) @ [n mod base])"

declare digits.simps [simp del]

definition digit_char :: "nat \<Rightarrow> rchar" where
  "digit_char d = (if d < 10 then 48 + d else 87 + d)"

text \<open>The formats \<^verbatim>\<open>{}\<close> and \<^verbatim>\<open>{:0wx}\<close> of an unsigned integer.\<close>

definition fmt_dec :: "nat \<Rightarrow> rstring" where
  "fmt_dec n = map digit_char (digits 10 n)"

definition fmt_hex :: "nat \<Rightarrow> nat \<Rightarrow> rstring" where
  "fmt_hex w n = (let ds = map digit_char (digits 16 n) in replicate (w - length ds) 48 @ ds)"

text \<open>\<^verbatim>\<open>str::parse\<close> for an unsigned type of the given largest value.\<close>

definition is_dec_digit :: "rchar \<Rightarrow> bool" where
  "is_dec_digit c \<longleftrightarrow> 48 \<le> c \<and> c \<le> 57"

definition dec_value :: "rstring \<Rightarrow> nat" where
  "dec_value s = foldl (\<lambda>a c. 10 * a + (c - 48)) 0 s"

definition parse_uint :: "nat \<Rightarrow> rstring \<Rightarrow> nat option" where
  "parse_uint mx s =
     (let ds = (case s of c # (d # ds) \<Rightarrow> if c = 43 then d # ds else s | _ \<Rightarrow> s) in
      if ds = [] \<or> \<not> list_all is_dec_digit ds then None
      else if dec_value ds \<le> mx then Some (dec_value ds) else None)"

lemma digits_nonempty: "digits b n \<noteq> []"
  by (subst digits.simps) simp

lemma digits_less: "2 \<le> b \<Longrightarrow> d \<in> set (digits b n) \<Longrightarrow> d < b"
proof (induction b n rule: digits.induct)
  case (1 b n)
  then show ?case
    by (subst (asm) (2) digits.simps) (auto split: if_splits)
qed

lemma fmt_dec_digits: "list_all is_dec_digit (fmt_dec n)"
proof -
  have "d < 10 \<Longrightarrow> is_dec_digit (digit_char d)" for d
    by (simp add: is_dec_digit_def digit_char_def)
  then show ?thesis
    using digits_less [of 10 _ n] by (simp add: fmt_dec_def list_all_iff)
qed

lemma dec_value_snoc [simp]: "dec_value (s @ [c]) = 10 * dec_value s + (c - 48)"
  by (simp add: dec_value_def)

lemma dec_value_fmt_dec: "dec_value (fmt_dec n) = n"
proof (induction n rule: less_induct)
  case (less n)
  show ?case
  proof (cases "n < 10")
    case True
    then show ?thesis
      by (simp add: fmt_dec_def digits.simps [of 10 n] dec_value_def digit_char_def)
  next
    case False
    then have "fmt_dec n = fmt_dec (n div 10) @ [48 + n mod 10]"
      by (simp add: fmt_dec_def digits.simps [of 10 n] digit_char_def)
    with False less [of "n div 10"] show ?thesis
      by simp
  qed
qed

text \<open>Printing an unsigned number and parsing it gives it back when it fits the type.\<close>

lemma parse_uint_fmt_dec: "n \<le> mx \<Longrightarrow> parse_uint mx (fmt_dec n) = Some n"
proof -
  assume n: "n \<le> mx"
  have ne: "fmt_dec n \<noteq> []"
    by (simp add: fmt_dec_def digits_nonempty)
  have "hd (fmt_dec n) \<noteq> 43"
    using fmt_dec_digits [of n] ne by (cases "fmt_dec n") (auto simp: is_dec_digit_def)
  then have "(case fmt_dec n of c # (d # ds) \<Rightarrow> if c = 43 then d # ds else fmt_dec n | _ \<Rightarrow> fmt_dec n) = fmt_dec n"
    by (auto split: list.splits)
  with ne n fmt_dec_digits [of n] show ?thesis
    by (simp add: parse_uint_def dec_value_fmt_dec)
qed

lemma fmt_dec_word: "fmt_dec n \<noteq> [] \<and> list_all (\<lambda>c. \<not> is_whitespace c) (fmt_dec n)"
  using fmt_dec_digits [of n]
  by (auto simp: fmt_dec_def digits_nonempty list_all_iff is_dec_digit_def is_whitespace_def)

lemma fmt_hex_word: "fmt_hex w n \<noteq> [] \<and> list_all (\<lambda>c. \<not> is_whitespace c) (fmt_hex w n)"
proof -
  have "d < 16 \<Longrightarrow> \<not> is_whitespace (digit_char d)" for d
    by (simp add: digit_char_def is_whitespace_def)
  moreover have "\<not> is_whitespace 48"
    by (simp add: is_whitespace_def)
  ultimately show ?thesis
    using digits_less [of 16 _ n] by (auto simp: fmt_hex_def Let_def digits_nonempty list_all_iff)
qed

lemma length_digits: "2 \<le> b \<Longrightarrow> n < b ^ k \<Longrightarrow> 0 < k \<Longrightarrow> length (digits b n) \<le> k"
proof (induction k arbitrary: n)
  case 0
  then show ?case by simp
next
  case (Suc k)
  show ?case
  proof (cases "n < b")
    case True
    then show ?thesis by (simp add: digits.simps [of b n])
  next
    case False
    then have "n div b < b ^ k"
      using Suc.prems by (simp add: less_mult_imp_div_less mult.commute)
    moreover have "0 < k"
      using False Suc.prems by (cases k) auto
    ultimately have "length (digits b (n div b)) \<le> k"
      using Suc by blast
    with False Suc.prems(1) show ?thesis
      by (simp add: digits.simps [of b n])
  qed
qed

lemma length_fmt_hex: "n < 16 ^ w \<Longrightarrow> 0 < w \<Longrightarrow> length (fmt_hex w n) = w"
  using length_digits [of 16 n w] by (simp add: fmt_hex_def Let_def)

section \<open>Integers\<close>

definition saturating_sub :: "u64 \<Rightarrow> u64 \<Rightarrow> u64" where
  "saturating_sub a b = (if a < b then 0 else a - b)"

lemma unat_saturating_sub: "unat (saturating_sub a b) = unat a - unat b"
  by (simp add: saturating_sub_def unat_sub_if' word_less_nat_alt)

end
