(* ===== verification/Ansi.thy ===== *)
theory Ansi
  imports Rust_Std
begin

text \<open>
  \<^verbatim>\<open>src/ansi.rs\<close>, first half: \<^verbatim>\<open>contains_subslice\<close> and \<^verbatim>\<open>find_safe_split_point\<close>. The split-point search
  is modelled with its indices and loops. The lemmas turn the index loops into recursions on the unread
  bytes: \<open>points\<close>, the points recorded from an index on, and \<open>tokenize\<close>, the pieces between which they
  lie. The pieces are the code's own segmentation of a buffer and no grammar of terminal output: an
  ESC and any byte but an introducer make a piece of two bytes. What the search does to the elements of
  terminal output is specified and proved in \<open>AnsiSplit\<close>.
\<close>

section \<open>Subslices\<close>

definition windows :: "nat \<Rightarrow> 'a list \<Rightarrow> 'a list list" where
  "windows n xs = map (\<lambda>i. take n (drop i xs)) [0..<length xs + 1 - n]"

definition contains_subslice :: "bytes \<Rightarrow> bytes \<Rightarrow> bool" where
  "contains_subslice haystack needle =
     (if needle = [] then True
      else list_ex (\<lambda>window. window = needle) (windows (length needle) haystack))"

lemma contains_subslice_sublist: "contains_subslice h n \<longleftrightarrow> sublist n h"
proof (cases "n = []")
  case True
  then show ?thesis by (simp add: contains_subslice_def)
next
  case False
  have "contains_subslice h n \<longleftrightarrow> (\<exists>i < length h + 1 - length n. take (length n) (drop i h) = n)"
    using False by (force simp: contains_subslice_def windows_def list_ex_iff)
  also have "\<dots> \<longleftrightarrow> sublist n h"
  proof
    assume "\<exists>i < length h + 1 - length n. take (length n) (drop i h) = n"
    then obtain i where "take (length n) (drop i h) = n" by blast
    then have "h = take i h @ n @ drop (length n) (drop i h)"
      by (metis append_take_drop_id)
    then show "sublist n h" by (auto simp: sublist_def)
  next
    assume "sublist n h"
    then obtain p s where "h = p @ n @ s" by (auto simp: sublist_def)
    then have "length p < length h + 1 - length n \<and> take (length n) (drop (length p) h) = n" by simp
    then show "\<exists>i < length h + 1 - length n. take (length n) (drop i h) = n" by blast
  qed
  finally show ?thesis .
qed

section \<open>The split-point search\<close>

definition csi_final :: "u8 \<Rightarrow> bool" where
  "csi_final b \<longleftrightarrow> 0x40 \<le> b \<and> b \<le> 0x7E"

function skip_csi :: "bytes \<Rightarrow> nat \<Rightarrow> nat" where
  "skip_csi buf i =
     (if i < length buf then
        (let b = buf ! i in if csi_final b then i + 1 else skip_csi buf (i + 1))
      else i)"
  by pat_completeness auto
termination
  by (relation "measure (\<lambda>(buf, i). length buf - i)") auto

function skip_osc :: "bytes \<Rightarrow> nat \<Rightarrow> nat" where
  "skip_osc buf i =
     (if i < length buf then
        (if buf ! i = bel then i + 1
         else if buf ! i = esc \<and> i + 1 < length buf \<and> buf ! (i + 1) = 0x5C then i + 2
         else skip_osc buf (i + 1))
      else i)"
  by pat_completeness auto
termination
  by (relation "measure (\<lambda>(buf, i). length buf - i)") auto

declare skip_csi.simps [simp del] skip_osc.simps [simp del]

text \<open>The index after the escape sequence whose first byte is at \<open>i\<close>.\<close>

definition skip_escape :: "bytes \<Rightarrow> nat \<Rightarrow> nat" where
  "skip_escape buf i =
     (let i = i + 1 in
      if i < length buf then
        (if buf ! i = 0x5B then skip_csi buf (i + 1)
         else if buf ! i = 0x5D then skip_osc buf (i + 1)
         else i + 1)
      else i)"

lemma skip_csi_ge: "i \<le> skip_csi buf i"
proof (induction buf i rule: skip_csi.induct)
  case (1 buf i)
  then show ?case
    by (cases "i < length buf"; cases "csi_final (buf ! i)") (simp_all add: skip_csi.simps [of buf i])
qed

lemma skip_osc_ge: "i \<le> skip_osc buf i"
proof (induction buf i rule: skip_osc.induct)
  case (1 buf i)
  then show ?case
    by (subst skip_osc.simps) auto
qed

lemma skip_escape_gt: "i < skip_escape buf i"
  using skip_csi_ge [of "i + 2" buf] skip_osc_ge [of "i + 2" buf] by (simp add: skip_escape_def)

function safe_points_loop :: "bytes \<Rightarrow> nat \<Rightarrow> nat list \<Rightarrow> nat list" where
  "safe_points_loop buf i safe_points =
     (if i < length buf then
        (if buf ! i = esc then
           (let i = skip_escape buf i in safe_points_loop buf i (safe_points @ [i]))
         else
           (let b = buf ! i in
            safe_points_loop buf (i + 1)
              (if b < 0x80 \<or> b \<ge> 0xC0 then safe_points @ [i] else safe_points)))
      else safe_points)"
  by pat_completeness auto
termination
  by (relation "measure (\<lambda>(buf, i, safe_points). length buf - i)")
    (use skip_escape_gt in \<open>auto intro: diff_less_mono2\<close>)

declare safe_points_loop.simps [simp del]

fun best_point :: "nat \<Rightarrow> nat \<Rightarrow> nat list \<Rightarrow> nat" where
  "best_point target best [] = best"
| "best_point target best (pt # pts) = (if pt \<le> target then best_point target pt pts else best)"

definition safe_points :: "bytes \<Rightarrow> nat list" where
  "safe_points buf = safe_points_loop buf 0 [0] @ [length buf]"

definition find_safe_split_point :: "bytes \<Rightarrow> nat \<Rightarrow> nat" where
  "find_safe_split_point buf target =
     (if target \<ge> length buf then length buf
      else if target = 0 then 0
      else best_point target 0 (safe_points buf))"

section \<open>The segmentation of a buffer\<close>

text \<open>
  The length of an OSC or DCS string up to and including its terminator (BEL, or ESC and a
  backslash), and of the parameters of a CSI sequence with its final byte; \<open>None\<close> when the
  terminator has not arrived.
\<close>

fun st_end :: "bytes \<Rightarrow> nat option" where
  "st_end [] = None"
| "st_end (b # bs) =
     (if b = bel then Some 1
      else if b = esc \<and> bs \<noteq> [] \<and> hd bs = 0x5C then Some 2
      else map_option Suc (st_end bs))"

fun csi_end :: "bytes \<Rightarrow> nat option" where
  "csi_end [] = None"
| "csi_end (b # bs) = (if csi_final b then Some 1 else map_option Suc (csi_end bs))"

text \<open>The number of bytes of an escape sequence after its ESC; an unterminated one runs to the end.\<close>

definition esc_len :: "bytes \<Rightarrow> nat" where
  "esc_len bs =
     (case bs of
        [] \<Rightarrow> 0
      | c # r \<Rightarrow>
          if c = 0x5B then 1 + (case csi_end r of Some n \<Rightarrow> n | None \<Rightarrow> length r)
          else if c = 0x5D then 1 + (case st_end r of Some n \<Rightarrow> n | None \<Rightarrow> length r)
          else 1)"

abbreviation cont_byte :: "u8 \<Rightarrow> bool" where
  "cont_byte b \<equiv> 0x80 \<le> b \<and> b < 0xC0"

lemma cont_not_esc: "cont_byte c \<Longrightarrow> c \<noteq> esc"
  by auto

text \<open>
  A piece is what the search skips at once: from an ESC as far as the code takes the sequence to go, or
  another byte with the continuation bytes after it.
\<close>

function tokenize :: "bytes \<Rightarrow> bytes list" where
  "tokenize [] = []"
| "tokenize (b # bs) =
     (if b = esc then (b # take (esc_len bs) bs) # tokenize (drop (esc_len bs) bs)
      else (b # takeWhile cont_byte bs) # tokenize (dropWhile cont_byte bs))"
  by pat_completeness auto
termination
  by (relation "measure length") (auto simp: le_imp_less_Suc length_dropWhile_le)

definition boundary :: "bytes \<Rightarrow> nat \<Rightarrow> bool" where
  "boundary s n \<longleftrightarrow> (\<exists>ts us. tokenize s = ts @ us \<and> n = length (concat ts))"

lemma concat_tokenize: "concat (tokenize s) = s"
  by (induction s rule: tokenize.induct) simp_all

lemma st_end_bounds: "st_end bs = Some n \<Longrightarrow> 0 < n \<and> n \<le> length bs"
  by (induction bs arbitrary: n) (auto split: if_splits simp: neq_Nil_conv)

lemma csi_end_bounds: "csi_end bs = Some n \<Longrightarrow> 0 < n \<and> n \<le> length bs"
  by (induction bs arbitrary: n) (auto split: if_splits)

lemma esc_len_le: "esc_len bs \<le> length bs"
  by (auto simp: esc_len_def dest: st_end_bounds csi_end_bounds split: list.splits option.splits)

lemma boundary_0 [simp]: "boundary s 0"
  unfolding boundary_def by (rule exI [of _ "[]"]) simp

lemma boundary_length [simp]: "boundary s (length s)"
  unfolding boundary_def using concat_tokenize [of s] by (metis append_Nil2)

lemma boundary_cut:
  "boundary s n \<Longrightarrow> \<exists>ts us. tokenize s = ts @ us \<and> take n s = concat ts \<and> drop n s = concat us"
  unfolding boundary_def using concat_tokenize [of s] by (metis append_eq_conv_conj concat_append)

lemma boundary_char:
  assumes "b \<noteq> esc" "boundary bs n" "0 < n \<or> bs = [] \<or> \<not> cont_byte (hd bs)"
  shows "boundary (b # bs) (Suc n)"
proof -
  from assms(2) obtain ts us where l: "tokenize bs = ts @ us" and n: "n = length (concat ts)"
    by (auto simp: boundary_def)
  show ?thesis
  proof (cases "bs \<noteq> [] \<and> cont_byte (hd bs)")
    case True
    then obtain c cs where bs: "bs = c # cs" and c: "cont_byte c" "c \<noteq> esc"
      using cont_not_esc by (cases bs) auto
    with l n True assms(3) obtain ts' where "ts = (c # takeWhile cont_byte cs) # ts'"
      by (cases ts) auto
    with l bs c n assms(1) have "tokenize (b # bs) = ((b # c # takeWhile cont_byte cs) # ts') @ us"
      "Suc n = length (concat ((b # c # takeWhile cont_byte cs) # ts'))"
      by auto
    then show ?thesis unfolding boundary_def by blast
  next
    case False
    then have "takeWhile cont_byte bs = []" "dropWhile cont_byte bs = bs"
      by (cases bs; auto)+
    with l n assms(1) have "tokenize (b # bs) = ([b] # ts) @ us" "Suc n = length (concat ([b] # ts))"
      by auto
    then show ?thesis unfolding boundary_def by blast
  qed
qed

lemma boundary_escape:
  assumes "boundary (drop (esc_len bs) bs) n"
  shows "boundary (esc # bs) (1 + esc_len bs + n)"
proof -
  from assms obtain ts us where "tokenize (drop (esc_len bs) bs) = ts @ us" "n = length (concat ts)"
    by (auto simp: boundary_def)
  then have "tokenize (esc # bs) = ((esc # take (esc_len bs) bs) # ts) @ us"
    "1 + esc_len bs + n = length (concat ((esc # take (esc_len bs) bs) # ts))"
    by (simp_all add: esc_len_le)
  then show ?thesis unfolding boundary_def by blast
qed

section \<open>The search records boundaries of pieces\<close>

text \<open>The points the search records in the rest of a buffer that starts at index \<open>i\<close>.\<close>

function points :: "nat \<Rightarrow> bytes \<Rightarrow> nat list" where
  "points i [] = []"
| "points i (b # bs) =
     (if b = esc then (i + 1 + esc_len bs) # points (i + 1 + esc_len bs) (drop (esc_len bs) bs)
      else (if cont_byte b then [] else [i]) @ points (i + 1) bs)"
  by pat_completeness auto
termination
  by (relation "measure (\<lambda>(i, s). length s)") auto

lemma skip_csi_end:
  "i \<le> length buf \<Longrightarrow>
   skip_csi buf i = i + (case csi_end (drop i buf) of Some n \<Rightarrow> n | None \<Rightarrow> length buf - i)"
proof (induction buf i rule: skip_csi.induct)
  case (1 buf i)
  show ?case
  proof (cases "i < length buf")
    case True
    then have d: "drop i buf = buf ! i # drop (i + 1) buf"
      by (simp add: Cons_nth_drop_Suc)
    show ?thesis
      using 1 True by (auto simp: d skip_csi.simps [of buf i] split: option.splits)
  qed (use 1 in \<open>simp add: skip_csi.simps [of buf "length buf"]\<close>)
qed

lemma skip_osc_end:
  "i \<le> length buf \<Longrightarrow>
   skip_osc buf i = i + (case st_end (drop i buf) of Some n \<Rightarrow> n | None \<Rightarrow> length buf - i)"
proof (induction buf i rule: skip_osc.induct)
  case (1 buf i)
  show ?case
  proof (cases "i < length buf")
    case True
    then have d: "drop i buf = buf ! i # drop (i + 1) buf"
      by (simp add: Cons_nth_drop_Suc)
    show ?thesis
      using 1 True by (auto simp: d skip_osc.simps [of buf i] hd_drop_conv_nth split: option.splits)
  qed (use 1 in \<open>simp add: skip_osc.simps [of buf "length buf"]\<close>)
qed

lemma skip_escape_len:
  assumes "i < length buf"
  shows "skip_escape buf i = i + 1 + esc_len (drop (i + 1) buf)"
proof (cases "i + 1 < length buf")
  case True
  then have d: "drop (Suc i) buf = buf ! Suc i # drop (Suc (Suc i)) buf"
    by (simp add: Cons_nth_drop_Suc)
  show ?thesis
    using True by (auto simp: skip_escape_def esc_len_def d skip_csi_end skip_osc_end split: option.splits)
qed (simp add: skip_escape_def esc_len_def)

lemma safe_points_loop_points:
  "i \<le> length buf \<Longrightarrow> safe_points_loop buf i pts = pts @ points i (drop i buf)"
proof (induction buf i pts rule: safe_points_loop.induct)
  case (1 buf i pts)
  show ?case
  proof (cases "i < length buf")
    case True
    then have d: "drop i buf = buf ! i # drop (i + 1) buf"
      by (simp add: Cons_nth_drop_Suc)
    have "skip_escape buf i \<le> length buf"
      using True esc_len_le [of "drop (i + 1) buf"] by (simp add: skip_escape_len)
    then show ?thesis
      using 1 True
      by (auto simp: d safe_points_loop.simps [of buf i] skip_escape_len Let_def add.commute not_le not_less)
  qed (use 1 in \<open>simp add: safe_points_loop.simps [of buf "length buf"]\<close>)
qed

lemma points_boundary:
  "x \<in> set (points i s) \<Longrightarrow>
   i \<le> x \<and> x \<le> i + length s \<and> boundary s (x - i) \<and> (x = i \<longrightarrow> s \<noteq> [] \<and> \<not> cont_byte (hd s))"
proof (induction i s rule: points.induct)
  case (1 i)
  then show ?case by simp
next
  case (2 i b bs)
  show ?case
  proof (cases "b = esc")
    case True
    note le = esc_len_le [of bs]
    show ?thesis
    proof (cases "x = i + 1 + esc_len bs")
      case x: True
      then show ?thesis
        using True le boundary_escape [of bs 0] by simp
    next
      case False
      with 2 True have *: "i + 1 + esc_len bs \<le> x" "x \<le> i + 1 + length bs"
        "boundary (drop (esc_len bs) bs) (x - (i + 1 + esc_len bs))"
        using le by (auto simp: Let_def)
      then have "1 + esc_len bs + (x - (i + 1 + esc_len bs)) = x - i"
        by simp
      with boundary_escape [OF *(3)] have "boundary (esc # bs) (x - i)"
        by metis
      with * True show ?thesis by simp
    qed
  next
    case False
    show ?thesis
    proof (cases "x = i \<and> \<not> cont_byte b")
      case True
      then show ?thesis by simp
    next
      case F: False
      with 2 False have *: "i + 1 \<le> x" "x \<le> i + 1 + length bs" "boundary bs (x - (i + 1))"
        "x = i + 1 \<longrightarrow> bs \<noteq> [] \<and> \<not> cont_byte (hd bs)"
        by (auto split: if_splits)
      then have "boundary (b # bs) (Suc (x - (i + 1)))"
        using False by (intro boundary_char) auto
      with * show ?thesis by (simp add: Suc_diff_Suc Suc_le_eq)
    qed
  qed
qed

lemma sorted_points: "sorted (points i s)"
proof (induction i s rule: points.induct)
  case (2 i b bs)
  then show ?case
    using points_boundary [of _ "i + 1 + esc_len bs" "drop (esc_len bs) bs"]
      points_boundary [of _ "i + 1" bs]
    by (fastforce split: if_splits)
qed simp

lemma safe_points_eq: "safe_points buf = 0 # points 0 buf @ [length buf]"
  by (simp add: safe_points_def safe_points_loop_points)

lemma safe_points_boundary: "x \<in> set (safe_points buf) \<Longrightarrow> boundary buf x \<and> x \<le> length buf"
  using points_boundary [of x 0 buf] by (auto simp: safe_points_eq)

lemma sorted_safe_points: "sorted (safe_points buf)"
  using points_boundary [of _ 0 buf] by (auto simp: safe_points_eq sorted_append sorted_points)

lemma best_point_spec:
  assumes "sorted (best # pts)" "best \<le> target"
  shows "best_point target best pts \<in> set (best # pts) \<and> best_point target best pts \<le> target \<and>
    (\<forall>x \<in> set (best # pts). x \<le> target \<longrightarrow> x \<le> best_point target best pts)"
  using assms
proof (induction pts arbitrary: best)
  case (Cons pt pts)
  show ?case
  proof (cases "pt \<le> target")
    case True
    then show ?thesis using Cons by fastforce
  next
    case False
    then show ?thesis using Cons.prems by fastforce
  qed
qed simp

lemma best_point_safe_points:
  "best_point target 0 (safe_points buf) \<in> set (safe_points buf) \<and>
   best_point target 0 (safe_points buf) \<le> target \<and>
   (\<forall>x \<in> set (safe_points buf). x \<le> target \<longrightarrow> x \<le> best_point target 0 (safe_points buf))"
  using best_point_spec [of 0 "safe_points buf" target] sorted_safe_points [of buf]
  by (auto simp: safe_points_eq)

lemma find_safe_split_point_spec:
  "find_safe_split_point buf target \<in> set (safe_points buf) \<and>
   find_safe_split_point buf target \<le> target \<and>
   (\<forall>x \<in> set (safe_points buf). x \<le> target \<longrightarrow> x \<le> find_safe_split_point buf target)"
  using best_point_safe_points [of target buf] safe_points_boundary [of _ buf]
  by (auto simp: find_safe_split_point_def safe_points_eq)

section \<open>Tokens of well-formed UTF-8\<close>

lemma byte_of_ge: "128 \<le> n \<Longrightarrow> n < 256 \<Longrightarrow> 0x80 \<le> byte_of n"
  by (simp add: word_le_nat_alt)

lemma byte_of_cont: "128 \<le> n \<Longrightarrow> n < 192 \<Longrightarrow> cont_byte (byte_of n)"
  by (simp add: word_le_nat_alt word_less_nat_alt)

lemma byte_of_lead: "192 \<le> n \<Longrightarrow> n < 256 \<Longrightarrow> \<not> cont_byte (byte_of n) \<and> byte_of n \<noteq> esc"
  by (auto simp: word_less_nat_alt word_unat_eq_iff)

lemma encode_utf8_ascii: "c < 128 \<Longrightarrow> encode_utf8 c = [byte_of c]"
  by (simp add: encode_utf8_def)

text \<open>A character is one byte below 0x80, or a lead byte and continuation bytes.\<close>

lemma encode_utf8_shape:
  assumes "is_scalar c" "128 \<le> c"
  shows "\<exists>b cs. encode_utf8 c = b # cs \<and> \<not> cont_byte b \<and> b \<noteq> esc \<and> 0x80 \<le> b \<and> list_all cont_byte cs"
proof -
  have "c < 0x110000" using assms(1) by (auto simp: is_scalar_def)
  then consider "c < 0x800" | "0x800 \<le> c" "c < 0x10000" | "0x10000 \<le> c" "c div 262144 < 5"
    by fastforce
  then show ?thesis
  proof cases
    case 1
    then have "c div 64 < 32" by auto
    with 1 assms(2) show ?thesis
      using byte_of_lead [of "0xC0 + c div 64"] byte_of_ge [of "0xC0 + c div 64"] byte_of_cont [of "0x80 + c mod 64"]
      by (simp add: encode_utf8_def)
  next
    case 2
    then have "c div 4096 < 16" by auto
    with 2 assms(2) show ?thesis
      using byte_of_lead [of "0xE0 + c div 4096"] byte_of_ge [of "0xE0 + c div 4096"]
        byte_of_cont [of "0x80 + c div 64 mod 64"] byte_of_cont [of "0x80 + c mod 64"]
      by (simp add: encode_utf8_def)
  next
    case 3
    then show ?thesis
      using byte_of_lead [of "0xF0 + c div 262144"] byte_of_ge [of "0xF0 + c div 262144"]
        byte_of_cont [of "0x80 + c div 4096 mod 64"] byte_of_cont [of "0x80 + c div 64 mod 64"]
        byte_of_cont [of "0x80 + c mod 64"]
      by (simp add: encode_utf8_def)
  qed
qed

lemma as_bytes_Cons: "as_bytes (c # s) = encode_utf8 c @ as_bytes s"
  by (simp add: as_bytes_def)

lemma hd_as_bytes:
  assumes "valid_string s" "s \<noteq> []"
  shows "as_bytes s \<noteq> [] \<and> \<not> cont_byte (hd (as_bytes s))"
proof -
  obtain c t where s: "s = c # t" using assms(2) by (cases s) auto
  show ?thesis
  proof (cases "c < 128")
    case True
    then show ?thesis
      by (simp add: s as_bytes_Cons encode_utf8_ascii word_le_nat_alt)
  next
    case False
    then show ?thesis
      using assms(1) encode_utf8_shape [of c] by (auto simp: s as_bytes_Cons valid_string_def)
  qed
qed

text \<open>An ASCII byte in the encoding of a string is a character of it.\<close>

lemma as_bytes_ascii_split:
  "valid_string s \<Longrightarrow> as_bytes s = p @ b # q \<Longrightarrow> b < 0x80 \<Longrightarrow>
   \<exists>s1 s2. s = s1 @ s2 \<and> as_bytes s1 = p @ [b] \<and> as_bytes s2 = q"
proof (induction s arbitrary: p)
  case Nil
  then show ?case by simp
next
  case (Cons c s)
  have v: "valid_string s" "is_scalar c"
    using Cons.prems(1) by (simp_all add: valid_string_def)
  show ?case
  proof (cases "c < 128 \<and> p = []")
    case True
    with Cons.prems show ?thesis
      by (intro exI [of _ "[c]"] exI [of _ s]) (simp add: as_bytes_Cons encode_utf8_ascii)
  next
    case False
    have "\<exists>p'. p = encode_utf8 c @ p'"
    proof (cases "c < 128")
      case True
      with False Cons.prems show ?thesis
        by (cases p) (auto simp: as_bytes_Cons encode_utf8_ascii)
    next
      case F: False
      then obtain l cs where e: "encode_utf8 c = l # cs" "0x80 \<le> l" "list_all cont_byte cs"
        using v encode_utf8_shape [of c] by auto
      then have ge: "\<forall>x \<in> set (encode_utf8 c). 0x80 \<le> x"
        by (auto simp: list_all_iff)
      from Cons.prems(2) have "encode_utf8 c @ as_bytes s = p @ b # q"
        by (simp add: as_bytes_Cons)
      then consider us where "encode_utf8 c = p @ us" "us @ as_bytes s = b # q"
        | us where "encode_utf8 c @ us = p"
        by (auto simp: append_eq_append_conv2)
      then show ?thesis
      proof cases
        case (1 us)
        show ?thesis
        proof (cases us)
          case Nil
          with 1 show ?thesis by auto
        next
          case (Cons x xs)
          with 1 ge Cons.prems(3) show ?thesis by auto
        qed
      qed auto
    qed
    then obtain p' where p: "p = encode_utf8 c @ p'" ..
    with Cons.prems(2) have "as_bytes s = p' @ b # q"
      by (simp add: as_bytes_Cons)
    with Cons.IH v Cons.prems(3) obtain s1 s2 where
      "s = s1 @ s2" "as_bytes s1 = p' @ [b]" "as_bytes s2 = q"
      by blast
    then show ?thesis
      using p by (intro exI [of _ "c # s1"] exI [of _ s2]) (simp add: as_bytes_Cons)
  qed
qed

lemma csi_end_last: "csi_end bs = Some n \<Longrightarrow> \<exists>p b q. bs = p @ b # q \<and> n = length p + 1 \<and> b < 0x80"
proof (induction bs arbitrary: n)
  case (Cons b bs)
  show ?case
  proof (cases "csi_final b")
    case True
    then have "b < 0x80" by (simp add: csi_final_def word_le_nat_alt word_less_nat_alt)
    with True Cons.prems show ?thesis
      by (intro exI [of _ "[]"] exI [of _ b] exI [of _ bs]) simp
  next
    case False
    with Cons.prems obtain m where m: "csi_end bs = Some m" "n = Suc m"
      by auto
    from Cons.IH [OF m(1)] obtain p c q where "bs = p @ c # q" "m = length p + 1" "c < 0x80"
      by blast
    with m show ?thesis
      by (intro exI [of _ "b # p"] exI [of _ c] exI [of _ q]) simp
  qed
qed simp

lemma st_end_last: "st_end bs = Some n \<Longrightarrow> \<exists>p b q. bs = p @ b # q \<and> n = length p + 1 \<and> b < 0x80"
proof (induction bs arbitrary: n)
  case (Cons b bs)
  consider "b = bel" | "b = esc" "bs \<noteq> []" "hd bs = 0x5C" | m where "st_end bs = Some m" "n = Suc m"
    using Cons.prems by (auto split: if_splits)
  then show ?case
  proof cases
    case 1
    moreover from this Cons.prems have "n = length ([] :: bytes) + 1"
      by simp
    moreover have "bel < 0x80"
      by simp
    ultimately show ?thesis by blast
  next
    case 2
    then obtain cs where "bs = 0x5C # cs" by (cases bs) auto
    with 2 Cons.prems show ?thesis
      by (intro exI [of _ "[b]"] exI [of _ "0x5C"] exI [of _ cs]) simp
  next
    case (3 m)
    from Cons.IH [OF 3(1)] obtain p c q where "bs = p @ c # q" "m = length p + 1" "c < 0x80"
      by blast
    with 3 show ?thesis
      by (intro exI [of _ "b # p"] exI [of _ c] exI [of _ q]) simp
  qed
qed simp

text \<open>No ESC is directly followed by a character beyond ASCII.\<close>

fun esc_ascii :: "rstring \<Rightarrow> bool" where
  "esc_ascii (c # d # s) = ((c = 27 \<longrightarrow> d < 128) \<and> esc_ascii (d # s))"
| "esc_ascii _ = True"

lemma esc_ascii_append: "esc_ascii (s @ t) \<Longrightarrow> esc_ascii t"
  by (induction s rule: esc_ascii.induct) (auto split: list.splits elim: esc_ascii.elims)

lemma end_cut:
  assumes "valid_string s"
    and last: "\<And>bs n. f bs = Some n \<Longrightarrow> \<exists>p b q. bs = p @ b # q \<and> n = length p + 1 \<and> b < 0x80"
  shows "\<exists>s1 s2. s = s1 @ s2 \<and>
    (case f (as_bytes s) of Some n \<Rightarrow> n | None \<Rightarrow> length (as_bytes s)) = length (as_bytes s1)"
proof (cases "f (as_bytes s)")
  case None
  then show ?thesis by (intro exI [of _ s] exI [of _ "[]"]) simp
next
  case (Some n)
  from last [OF Some] obtain p b q where *: "as_bytes s = p @ b # q" "n = length p + 1" "b < 0x80"
    by blast
  from as_bytes_ascii_split [OF assms(1) *(1,3)] obtain s1 s2 where "s = s1 @ s2" "as_bytes s1 = p @ [b]"
    by blast
  with Some * show ?thesis by (intro exI [of _ s1] exI [of _ s2]) simp
qed

lemma esc_len_cut:
  assumes "valid_string s" "esc_ascii (27 # s)"
  shows "\<exists>s1 s2. s = s1 @ s2 \<and> esc_len (as_bytes s) = length (as_bytes s1)"
proof (cases s)
  case Nil
  then show ?thesis by (simp add: esc_len_def)
next
  case (Cons d t)
  with assms have t: "valid_string t" and d: "d < 128"
    by (simp_all add: valid_string_def)
  from end_cut [OF t csi_end_last] obtain c1 c2 where c: "t = c1 @ c2"
    "(case csi_end (as_bytes t) of Some n \<Rightarrow> n | None \<Rightarrow> length (as_bytes t)) = length (as_bytes c1)"
    by blast
  from end_cut [OF t st_end_last] obtain o1 o2 where o: "t = o1 @ o2"
    "(case st_end (as_bytes t) of Some n \<Rightarrow> n | None \<Rightarrow> length (as_bytes t)) = length (as_bytes o1)"
    by blast
  have e: "esc_len (as_bytes s) = (if byte_of d = 0x5B then 1 + length (as_bytes c1)
      else if byte_of d = 0x5D then 1 + length (as_bytes o1) else 1)"
    using d c(2) o(2) by (simp add: Cons as_bytes_Cons encode_utf8_ascii esc_len_def)
  consider "byte_of d = 0x5B" | "byte_of d = 0x5D" | "byte_of d \<noteq> 0x5B" "byte_of d \<noteq> 0x5D"
    by blast
  then show ?thesis
  proof cases
    case 1
    with e c(1) d Cons show ?thesis
      by (intro exI [of _ "d # c1"] exI [of _ c2]) (simp add: as_bytes_Cons encode_utf8_ascii)
  next
    case 2
    with e o(1) d Cons show ?thesis
      by (intro exI [of _ "d # o1"] exI [of _ o2]) (simp add: as_bytes_Cons encode_utf8_ascii)
  next
    case 3
    with e d Cons show ?thesis
      by (intro exI [of _ "[d]"] exI [of _ t]) (simp add: as_bytes_Cons encode_utf8_ascii)
  qed
qed

lemma takeWhile_cont:
  assumes "list_all cont_byte cs" "valid_string s"
  shows "takeWhile cont_byte (cs @ as_bytes s) = cs \<and> dropWhile cont_byte (cs @ as_bytes s) = as_bytes s"
proof -
  have "takeWhile cont_byte (as_bytes s) = [] \<and> dropWhile cont_byte (as_bytes s) = as_bytes s"
    using hd_as_bytes [OF assms(2)] by (cases "s = []"; cases "as_bytes s") auto
  moreover have "\<And>b. b \<in> set cs \<Longrightarrow> cont_byte b"
    using assms(1) by (simp add: list_all_iff)
  ultimately show ?thesis by simp
qed

text \<open>Under that condition the tokens of a string's encoding are the encodings of pieces of it.\<close>

lemma tokenize_as_bytes:
  "valid_string s \<Longrightarrow> esc_ascii s \<Longrightarrow> \<exists>ss. concat ss = s \<and> tokenize (as_bytes s) = map as_bytes ss"
proof (induction s rule: length_induct)
  case (1 s)
  show ?case
  proof (cases s)
    case Nil
    then show ?thesis by (intro exI [of _ "[]"]) simp
  next
    case (Cons c t)
    with 1 have v: "valid_string t" "is_scalar c" "esc_ascii t"
      using esc_ascii_append [of "[c]" t] by (simp_all add: valid_string_def)
    show ?thesis
    proof (cases "c = 27")
      case True
      obtain t1 t2 where t: "t = t1 @ t2" "esc_len (as_bytes t) = length (as_bytes t1)"
        using esc_len_cut 1 v True Cons by blast
      with v have "valid_string t2" "esc_ascii t2"
        using esc_ascii_append [of t1 t2] by (simp_all add: valid_string_def)
      moreover have "length t2 < length s"
        using t Cons by simp
      ultimately obtain ss where "concat ss = t2" "tokenize (as_bytes t2) = map as_bytes ss"
        using "1.IH" by blast
      moreover have "tokenize (as_bytes s) = as_bytes (27 # t1) # tokenize (as_bytes t2)"
        using t True Cons by (simp add: as_bytes_Cons encode_utf8_ascii)
      ultimately show ?thesis
        using t True Cons by (intro exI [of _ "(27 # t1) # ss"]) simp
    next
      case False
      obtain b cs where e: "encode_utf8 c = b # cs" "b \<noteq> esc" "list_all cont_byte cs"
      proof (cases "c < 128")
        case True
        then have "byte_of c \<noteq> esc"
          using False by (simp add: word_unat_eq_iff)
        with True that show ?thesis by (simp add: encode_utf8_ascii)
      next
        case F: False
        with v that encode_utf8_shape [of c] show ?thesis by auto
      qed
      from 1 Cons v obtain ss where "concat ss = t" "tokenize (as_bytes t) = map as_bytes ss"
        by auto
      moreover have "tokenize (as_bytes s) = as_bytes [c] # tokenize (as_bytes t)"
        using e takeWhile_cont [OF e(3) v(1)] Cons by (simp add: as_bytes_Cons)
      ultimately show ?thesis
        using Cons by (intro exI [of _ "[c] # ss"]) simp
    qed
  qed
qed

lemma boundary_as_bytes:
  assumes "valid_string s" "esc_ascii s" "boundary (as_bytes s) n"
  shows "\<exists>s1 s2. s = s1 @ s2 \<and> take n (as_bytes s) = as_bytes s1 \<and> drop n (as_bytes s) = as_bytes s2"
proof -
  obtain ss where ss: "concat ss = s" "tokenize (as_bytes s) = map as_bytes ss"
    using tokenize_as_bytes [OF assms(1,2)] by blast
  obtain ts us where tu: "tokenize (as_bytes s) = ts @ us" "take n (as_bytes s) = concat ts"
    "drop n (as_bytes s) = concat us"
    using boundary_cut [OF assms(3)] by blast
  then obtain s1 s2 where "ss = s1 @ s2" "ts = map as_bytes s1" "us = map as_bytes s2"
    using ss(2) by (auto simp: map_eq_append_conv)
  moreover have "concat (map as_bytes x) = as_bytes (concat x)" for x
    by (induction x) simp_all
  ultimately show ?thesis
    using ss(1) tu by (intro exI [of _ "concat s1"] exI [of _ "concat s2"]) auto
qed

section \<open>Properties\<close>

text \<open>
  \<^verbatim>\<open>contains_subslice\<close> decides whether the needle occurs as a contiguous part of the haystack,
  the empty needle included.
\<close>
theorem contains_subslice_iff: "contains_subslice h n \<longleftrightarrow> (\<exists>p s. h = p @ n @ s)"
  by (simp add: contains_subslice_sublist sublist_def)

text \<open>
  C19. On a buffer that is well-formed UTF-8 and in which no ESC is directly followed by a character
  beyond ASCII, both sides of the split are well-formed UTF-8, encoding the two parts of the text.
\<close>
theorem split_point_keeps_utf8:
  assumes "valid_string s" "esc_ascii s"
  shows "\<exists>s1 s2. s = s1 @ s2 \<and> take (find_safe_split_point (as_bytes s) target) (as_bytes s) = as_bytes s1
    \<and> drop (find_safe_split_point (as_bytes s) target) (as_bytes s) = as_bytes s2"
  using assms find_safe_split_point_spec [of "as_bytes s" target] safe_points_boundary
  by (blast intro: boundary_as_bytes)

theorem split_point_keeps_utf8_witness:
  "\<exists>s1 s2. [0x41, 27, 0x5B, 0x6D, 0xE9, 0x42] = s1 @ s2 \<and>
     take (find_safe_split_point (as_bytes [0x41, 27, 0x5B, 0x6D, 0xE9, 0x42]) 5)
       (as_bytes [0x41, 27, 0x5B, 0x6D, 0xE9, 0x42]) = as_bytes s1 \<and>
     drop (find_safe_split_point (as_bytes [0x41, 27, 0x5B, 0x6D, 0xE9, 0x42]) 5)
       (as_bytes [0x41, 27, 0x5B, 0x6D, 0xE9, 0x42]) = as_bytes s2"
  by (rule split_point_keeps_utf8) (simp_all add: valid_string_def is_scalar_def)

lemma points_ascii: "list_all (\<lambda>b. b < 0x80 \<and> b \<noteq> esc) s \<Longrightarrow> points i s = [i..<i + length s]"
proof (induction s arbitrary: i)
  case (Cons b s)
  then have "\<not> 0x80 \<le> b" "b \<noteq> esc"
    by (simp_all add: not_le)
  with Cons show ?case
    by (simp add: upt_conv_Cons del: upt_Suc)
qed simp

text \<open>
  Plain ASCII text without ESC is cut exactly at the target: the whole bandwidth allowance is
  used.
\<close>
theorem split_point_ascii:
  assumes "list_all (\<lambda>b. b < 0x80 \<and> b \<noteq> esc) buf"
  shows "find_safe_split_point buf target = min target (length buf)"
proof -
  have "min target (length buf) \<in> set (safe_points buf)"
    by (auto simp: safe_points_eq points_ascii [OF assms])
  then show ?thesis
    using find_safe_split_point_spec [of buf target] safe_points_boundary [of _ buf]
    by (metis le_antisym min.bounded_iff min.cobounded1)
qed

theorem split_point_ascii_witness: "find_safe_split_point (bytes_of ''hello world'') 5 = 5"
  using split_point_ascii [of "bytes_of ''hello world''" 5] by simp

text \<open>
  A first token longer than the target blocks the buffer: the split point is 0, nothing can be
  sent, however the rest of the buffer looks.
\<close>

lemma blocked_by_first_token:
  assumes "tokenize buf = t # ts" "target < length t"
  shows "find_safe_split_point buf target = 0"
proof -
  have "boundary buf (find_safe_split_point buf target)"
    using find_safe_split_point_spec [of buf target] safe_points_boundary by blast
  then obtain us vs where l: "t # ts = us @ vs" "find_safe_split_point buf target = length (concat us)"
    using assms(1) by (auto simp: boundary_def)
  then show ?thesis
    using assms(2) find_safe_split_point_spec [of buf target] by (cases us) auto
qed

end
