(* ===== verification/Terminal_Stream.thy ===== *)
theory Terminal_Stream
  imports Rust_Std
begin

text \<open>
  What a terminal program writes, as a grammar that owes nothing to the code: UTF-8 characters and the
  escape sequences of ECMA-35 and ECMA-48 with their ranges of bytes. The scanners of \<^verbatim>\<open>src/ansi.rs\<close> are
  specified against streams of these elements.
\<close>

datatype terminator = Bel | St

fun terminator_bytes :: "terminator \<Rightarrow> bytes" where
  "terminator_bytes Bel = [bel]"
| "terminator_bytes St = [esc, 0x5C]"

text \<open>
  A character other than ESC; a CSI sequence with its parameter and intermediate bytes and its final
  byte; an OSC string; a DCS string; an escape sequence of two bytes; and one with intermediate
  bytes, such as the designation of a character set.
\<close>

datatype elem =
    Chr rchar
  | Csi bytes u8
  | Osc bytes terminator
  | Dcs bytes terminator
  | Esc2 u8
  | EscI bytes u8

fun elem_bytes :: "elem \<Rightarrow> bytes" where
  "elem_bytes (Chr c) = encode_utf8 c"
| "elem_bytes (Csi ps f) = esc # 0x5B # ps @ [f]"
| "elem_bytes (Osc body t) = esc # 0x5D # body @ terminator_bytes t"
| "elem_bytes (Dcs body t) = esc # 0x50 # body @ terminator_bytes t"
| "elem_bytes (Esc2 b) = [esc, b]"
| "elem_bytes (EscI is f) = esc # is @ [f]"

text \<open>
  The ranges of the standards. The second byte of a two-byte sequence does not introduce a longer one
  (CSI, OSC, DCS, SOS, PM, APC), and control strings end at the first BEL or ESC.
\<close>

definition string_body :: "bytes \<Rightarrow> bool" where
  "string_body body \<longleftrightarrow> list_all (\<lambda>b. b \<noteq> bel \<and> b \<noteq> esc) body"

fun elem_ok :: "elem \<Rightarrow> bool" where
  "elem_ok (Chr c) \<longleftrightarrow> is_scalar c \<and> c \<noteq> 27"
| "elem_ok (Csi ps f) \<longleftrightarrow> list_all (\<lambda>b. 0x20 \<le> b \<and> b \<le> 0x3F) ps \<and> 0x40 \<le> f \<and> f \<le> 0x7E"
| "elem_ok (Osc body t) \<longleftrightarrow> string_body body"
| "elem_ok (Dcs body t) \<longleftrightarrow> string_body body"
| "elem_ok (Esc2 b) \<longleftrightarrow> 0x30 \<le> b \<and> b \<le> 0x7E \<and> b \<notin> {0x50, 0x58, 0x5B, 0x5D, 0x5E, 0x5F}"
| "elem_ok (EscI is f) \<longleftrightarrow> is \<noteq> [] \<and> list_all (\<lambda>b. 0x20 \<le> b \<and> b \<le> 0x2F) is \<and> 0x30 \<le> f \<and> f \<le> 0x7E"

definition stream_bytes :: "elem list \<Rightarrow> bytes" where
  "stream_bytes es = concat (map elem_bytes es)"

definition stream_ok :: "elem list \<Rightarrow> bool" where
  "stream_ok es \<longleftrightarrow> list_all elem_ok es"

fun is_chr :: "elem \<Rightarrow> bool" where
  "is_chr (Chr c) = True"
| "is_chr _ = False"

lemma stream_bytes_simps [simp]:
  "stream_bytes [] = []" "stream_bytes (e # es) = elem_bytes e @ stream_bytes es"
  "stream_bytes (es @ fs) = stream_bytes es @ stream_bytes fs"
  by (simp_all add: stream_bytes_def)

lemma stream_ok_simps [simp]:
  "stream_ok []" "stream_ok (e # es) \<longleftrightarrow> elem_ok e \<and> stream_ok es" "stream_ok (es @ fs) \<longleftrightarrow> stream_ok es \<and> stream_ok fs"
  by (simp_all add: stream_ok_def)

lemma elem_bytes_nonempty: "elem_bytes e \<noteq> []"
  by (cases e) (simp_all add: encode_utf8_def)

lemma elem_bytes_esc: "\<not> is_chr e \<Longrightarrow> \<exists>b bs. elem_bytes e = esc # b # bs"
proof (cases e)
  case (EscI "is" f)
  then show ?thesis by (cases "is") simp_all
qed simp_all

end
