(* ===== verification/AnsiSplit.thy ===== *)
theory AnsiSplit
  imports Ansi Terminal_Stream
begin

text \<open>
  What \<^verbatim>\<open>find_safe_split_point\<close> does to a stream of terminal elements. The elements it knows are characters,
  CSI sequences, OSC strings and two-byte escape sequences: on streams of these, with an incomplete
  element at the end, it cuts between elements, and exactly at the last cut that fits, give or take one
  character. Device control strings, escape sequences with intermediate bytes and an ESC before a
  character beyond ASCII it does not know, and these it can cut.
\<close>

section \<open>Scanning one element\<close>

fun known :: "elem \<Rightarrow> bool" where
  "known (Dcs body t) = False"
| "known (EscI is f) = False"
| "known _ = True"

definition incomplete :: "bytes \<Rightarrow> bool" where
  "incomplete tail \<longleftrightarrow> (\<exists>e. elem_ok e \<and> known e \<and> strict_prefix tail (elem_bytes e))"

lemma points_cont: "list_all cont_byte cs \<Longrightarrow> points i (cs @ r) = points (i + length cs) r"
proof (induction cs arbitrary: i)
  case (Cons c cs)
  then show ?case using cont_not_esc [of c] by simp
qed simp

lemma chr_shape:
  assumes "elem_ok (Chr c)"
  shows "\<exists>b cs. encode_utf8 c = b # cs \<and> \<not> cont_byte b \<and> b \<noteq> esc \<and> list_all cont_byte cs"
proof (cases "c < 128")
  case True
  then have "byte_of c \<noteq> esc" "\<not> cont_byte (byte_of c)"
    using assms by (simp_all add: word_unat_eq_iff word_le_nat_alt)
  with True show ?thesis by (simp add: encode_utf8_ascii)
next
  case False
  with assms encode_utf8_shape [of c] show ?thesis by auto
qed

lemma param_not_final: "b \<le> (0x3F :: u8) \<Longrightarrow> \<not> csi_final b"
  by (simp add: csi_final_def word_le_nat_alt)

lemma csi_end_params:
  "list_all (\<lambda>b. 0x20 \<le> b \<and> b \<le> 0x3F) ps \<Longrightarrow> csi_end (ps @ r) = map_option ((+) (length ps)) (csi_end r)"
proof (induction ps)
  case Nil
  then show ?case by (cases "csi_end r") simp_all
next
  case (Cons p ps)
  then show ?case using param_not_final [of p] by (simp add: option.map_comp comp_def)
qed

lemma st_end_body: "string_body body \<Longrightarrow> st_end (body @ r) = map_option ((+) (length body)) (st_end r)"
proof (induction body)
  case Nil
  then show ?case by (cases "st_end r") simp_all
next
  case (Cons b body)
  then show ?case by (simp add: string_body_def option.map_comp comp_def)
qed

lemma st_end_terminator: "st_end (terminator_bytes t @ r) = Some (length (terminator_bytes t))"
  by (cases t) simp_all

lemma esc_len_elem:
  assumes "elem_ok e" "known e" "elem_bytes e = esc # u" "\<not> is_chr e"
  shows "esc_len (u @ r) = length u"
  using assms
  by (cases e)
    (auto simp: esc_len_def csi_end_params st_end_body st_end_terminator csi_final_def
      split: list.splits option.splits)

lemma points_elem:
  assumes "elem_ok e" "known e"
  shows "points i (elem_bytes e @ r) =
    (if is_chr e then i else i + length (elem_bytes e)) # points (i + length (elem_bytes e)) r"
proof (cases "is_chr e")
  case True
  then obtain c where c: "e = Chr c" by (cases e) auto
  obtain b cs where "encode_utf8 c = b # cs" "\<not> cont_byte b" "b \<noteq> esc" "list_all cont_byte cs"
    using chr_shape assms(1) c by blast
  with c show ?thesis by (simp add: points_cont)
next
  case False
  then obtain u where u: "elem_bytes e = esc # u" using elem_bytes_esc by blast
  have "esc_len (u @ r) = length u" by (rule esc_len_elem [OF assms u False])
  with False u show ?thesis by simp
qed

lemma csi_end_params_None: "list_all (\<lambda>b. 0x20 \<le> b \<and> b \<le> 0x3F) ps \<Longrightarrow> csi_end ps = None"
  using csi_end_params [of ps "[]"] by simp

lemma st_end_unfinished:
  assumes "string_body body" "strict_prefix v (body @ terminator_bytes t)"
  shows "st_end v = None"
proof -
  have "prefix v body \<or> (\<exists>w. v = body @ w \<and> strict_prefix w (terminator_bytes t))"
    using assms(2) by (auto simp: strict_prefix_def prefix_append)
  then show ?thesis
  proof
    assume "prefix v body"
    then have "string_body v" using assms(1) by (auto simp: prefix_def string_body_def)
    then show ?thesis using st_end_body [of v "[]"] by simp
  next
    assume "\<exists>w. v = body @ w \<and> strict_prefix w (terminator_bytes t)"
    then obtain w where w: "v = body @ w" "strict_prefix w (terminator_bytes t)" by blast
    then have "w = [] \<or> w = [esc]" by (cases t) (auto simp: strict_prefix_def prefix_Cons)
    then have "st_end w = None" by auto
    with w assms(1) show ?thesis by (simp add: st_end_body)
  qed
qed

lemma esc_len_incomplete:
  assumes "elem_ok e" "known e" "strict_prefix (esc # u) (elem_bytes e)"
  shows "esc_len u = length u"
proof (cases e)
  case (Chr c)
  with chr_shape [of c] assms show ?thesis by (auto simp: strict_prefix_def)
next
  case (Csi ps f)
  with assms(3) have "strict_prefix u (0x5B # ps @ [f])" by (auto simp: strict_prefix_def)
  then consider "u = []" | v where "u = 0x5B # v" "prefix v ps"
    by (cases u) (auto simp: strict_prefix_def prefix_append prefix_Cons)
  then show ?thesis
  proof cases
    case 2
    then have "list_all (\<lambda>b. 0x20 \<le> b \<and> b \<le> 0x3F) v"
      using assms(1) Csi by (auto simp: prefix_def)
    then show ?thesis using 2 csi_end_params_None [of v] by (simp add: esc_len_def)
  qed (simp add: esc_len_def)
next
  case (Osc body t)
  with assms(3) have "strict_prefix u (0x5D # body @ terminator_bytes t)" by (auto simp: strict_prefix_def)
  then consider "u = []" | v where "u = 0x5D # v" "strict_prefix v (body @ terminator_bytes t)"
    by (cases u) (auto simp: strict_prefix_def)
  then show ?thesis
  proof cases
    case 2
    then show ?thesis using st_end_unfinished [of body v t] assms(1) Osc by (simp add: esc_len_def)
  qed (simp add: esc_len_def)
next
  case (Esc2 b)
  with assms(3) have "u = []" by (cases u) (auto simp: strict_prefix_def)
  then show ?thesis by (simp add: esc_len_def)
qed (use assms(2) in simp_all)

lemma points_incomplete:
  assumes "incomplete tail" "tail \<noteq> []"
  shows "points i tail = [if hd tail = esc then i + length tail else i]"
proof -
  obtain e where e: "elem_ok e" "known e" "strict_prefix tail (elem_bytes e)"
    using assms(1) by (auto simp: incomplete_def)
  obtain h u where t: "tail = h # u" using assms(2) by (cases tail) auto
  show ?thesis
  proof (cases "h = esc")
    case True
    then show ?thesis using esc_len_incomplete [OF e(1,2), of u] e(3) t by simp
  next
    case False
    have "is_chr e"
    proof (rule ccontr)
      assume "\<not> is_chr e"
      then obtain b bs where "elem_bytes e = esc # b # bs" using elem_bytes_esc by blast
      with e(3) t False show False by (auto simp: strict_prefix_def)
    qed
    then obtain c where c: "e = Chr c" by (cases e) auto
    obtain b cs where b: "encode_utf8 c = b # cs" "\<not> cont_byte b" "list_all cont_byte cs"
      using chr_shape e(1) c by blast
    with e(3) c t have "h = b" "prefix u cs" by (auto simp: strict_prefix_def)
    then have "list_all cont_byte u" using b(3) by (auto simp: prefix_def)
    then show ?thesis
      using points_cont [of u "i + 1" "[]"] \<open>h = b\<close> b(2) False t by simp
  qed
qed

section \<open>The points of a stream\<close>

definition cut_at :: "elem list \<Rightarrow> nat \<Rightarrow> nat" where
  "cut_at es j = length (stream_bytes (take j es))"

text \<open>The cuts the search records: before a character and after an escape sequence.\<close>

definition recorded :: "elem list \<Rightarrow> bytes \<Rightarrow> nat \<Rightarrow> bool" where
  "recorded es tail j \<longleftrightarrow> j \<le> length es \<and>
     (j < length es \<and> is_chr (es ! j) \<or> j = length es \<and> tail \<noteq> [] \<and> hd tail \<noteq> esc \<or>
      0 < j \<and> \<not> is_chr (es ! (j - 1)))"

lemma cut_at_simps [simp]: "cut_at es 0 = 0" "cut_at (e # es) (Suc j) = length (elem_bytes e) + cut_at es j"
  by (simp_all add: cut_at_def)

lemma cut_at_mono: "j \<le> j' \<Longrightarrow> cut_at es j \<le> cut_at es j'"
  by (auto simp: cut_at_def le_iff_add take_add)

lemma recorded_Nil: "recorded [] tail j \<longleftrightarrow> j = 0 \<and> tail \<noteq> [] \<and> hd tail \<noteq> esc"
  by (auto simp: recorded_def)

lemma recorded_0: "recorded (e # es) tail 0 \<longleftrightarrow> is_chr e"
  by (simp add: recorded_def)

lemma recorded_Suc: "recorded (e # es) tail (Suc j) \<longleftrightarrow> recorded es tail j \<or> j = 0 \<and> \<not> is_chr e"
  by (cases j) (auto simp: recorded_def)

lemma ex_nat_split: "(\<exists>j :: nat. P j) \<longleftrightarrow> P 0 \<or> (\<exists>j. P (Suc j))"
  by (metis not0_implies_Suc)

lemma points_stream:
  assumes "stream_ok es" "list_all known es" "incomplete tail" "x < i + length (stream_bytes es @ tail)"
  shows "x \<in> set (points i (stream_bytes es @ tail)) \<longleftrightarrow> (\<exists>j. recorded es tail j \<and> x = i + cut_at es j)"
  using assms
proof (induction es arbitrary: i)
  case Nil
  then show ?case
    by (cases "tail = []") (auto simp: points_incomplete recorded_Nil)
next
  case (Cons e es)
  let ?n = "length (elem_bytes e)"
  have p: "points i (stream_bytes (e # es) @ tail) =
      (if is_chr e then i else i + ?n) # points (i + ?n) (stream_bytes es @ tail)"
    using points_elem [of e i "stream_bytes es @ tail"] Cons.prems by simp
  have ih: "x \<in> set (points (i + ?n) (stream_bytes es @ tail)) \<longleftrightarrow> (\<exists>j. recorded es tail j \<and> x = i + ?n + cut_at es j)"
    by (rule Cons.IH) (use Cons.prems in simp_all)
  show ?case
    unfolding p
    by (subst ex_nat_split) (auto simp: ih recorded_0 recorded_Suc add.assoc split: if_splits)
qed

text \<open>On a stream that does not fit the target, the search returns the last recorded cut that fits.\<close>

lemma split_point_recorded:
  assumes "stream_ok es" "list_all known es" "incomplete tail" "target < length (stream_bytes es @ tail)"
  shows "\<exists>j \<le> length es. (j = 0 \<or> recorded es tail j) \<and> find_safe_split_point (stream_bytes es @ tail) target = cut_at es j \<and>
    cut_at es j \<le> target \<and> (\<forall>j'. recorded es tail j' \<and> cut_at es j' \<le> target \<longrightarrow> cut_at es j' \<le> cut_at es j)"
proof -
  let ?buf = "stream_bytes es @ tail"
  let ?p = "find_safe_split_point ?buf target"
  have sp: "?p \<in> set (safe_points ?buf)" "?p \<le> target" "\<forall>x \<in> set (safe_points ?buf). x \<le> target \<longrightarrow> x \<le> ?p"
    using find_safe_split_point_spec by blast+
  have pts: "x \<in> set (points 0 ?buf) \<longleftrightarrow> (\<exists>j. recorded es tail j \<and> x = cut_at es j)" if "x \<le> target" for x
    using points_stream [OF assms(1-3), of x 0] that assms(4) by simp
  have "?p = 0 \<or> ?p \<in> set (points 0 ?buf)"
    using sp(1,2) assms(4) by (auto simp: safe_points_eq)
  then obtain j where j: "j = 0 \<or> recorded es tail j" "?p = cut_at es j"
    using pts [OF sp(2)] by (metis cut_at_simps(1))
  moreover have "j \<le> length es" using j(1) by (auto simp: recorded_def)
  moreover have "cut_at es j' \<le> ?p" if "recorded es tail j'" "cut_at es j' \<le> target" for j'
    using sp(3) pts [OF that(2)] that by (auto simp: safe_points_eq)
  ultimately show ?thesis using sp(2) by (intro exI [of _ j]) auto
qed

section \<open>The split point\<close>

text \<open>
  C7. The split point never lies inside an element: a stream of characters, CSI sequences, OSC strings
  and two-byte escape sequences, with an incomplete one at its end, that is longer than the target
  is cut between two elements, so that both parts are streams again.
\<close>
theorem split_point_cuts_no_element:
  assumes "stream_ok es" "list_all known es" "incomplete tail" "target < length (stream_bytes es @ tail)"
  shows "\<exists>es1 es2. es = es1 @ es2 \<and>
    take (find_safe_split_point (stream_bytes es @ tail) target) (stream_bytes es @ tail) = stream_bytes es1 \<and>
    drop (find_safe_split_point (stream_bytes es @ tail) target) (stream_bytes es @ tail) = stream_bytes es2 @ tail \<and>
    length (stream_bytes es1) \<le> target"
proof -
  obtain j where j: "find_safe_split_point (stream_bytes es @ tail) target = cut_at es j" "cut_at es j \<le> target"
    using split_point_recorded [OF assms] by blast
  have s: "stream_bytes es = stream_bytes (take j es) @ stream_bytes (drop j es)"
    by (simp flip: stream_bytes_simps(3))
  show ?thesis
    using j by (intro exI [of _ "take j es"] exI [of _ "drop j es"]) (simp add: cut_at_def s)
qed

lemma incomplete_Nil: "incomplete []"
  unfolding incomplete_def by (rule exI [of _ "Chr 65"]) (simp add: is_scalar_def encode_utf8_ascii strict_prefix_def)

lemma incomplete_csi: "incomplete [esc, 0x5B, 0x33]"
  unfolding incomplete_def by (rule exI [of _ "Csi [0x33, 0x31] 0x6D"]) (simp add: strict_prefix_def)

theorem split_point_cuts_no_element_witness:
  "\<exists>es1 es2. [Chr 65, Osc [0x30, 0x3B, 0x61] St, Chr 0xE9] = es1 @ es2 \<and>
     take (find_safe_split_point (stream_bytes [Chr 65, Osc [0x30, 0x3B, 0x61] St, Chr 0xE9] @ [esc, 0x5B, 0x33]) 9)
       (stream_bytes [Chr 65, Osc [0x30, 0x3B, 0x61] St, Chr 0xE9] @ [esc, 0x5B, 0x33]) = stream_bytes es1"
proof -
  have "stream_ok [Chr 65, Osc [0x30, 0x3B, 0x61] St, Chr 0xE9]"
    by (simp add: is_scalar_def string_body_def)
  moreover have "9 < length (stream_bytes [Chr 65, Osc [0x30, 0x3B, 0x61] St, Chr 0xE9] @ [esc, 0x5B, 0x33])"
    by (simp add: encode_utf8_def)
  ultimately show ?thesis
    using split_point_cuts_no_element [of "[Chr 65, Osc [0x30, 0x3B, 0x61] St, Chr 0xE9]" "[esc, 0x5B, 0x33]" 9] incomplete_csi
    by auto
qed

text \<open>The number of whole elements that fit.\<close>

fun fitting :: "elem list \<Rightarrow> nat \<Rightarrow> nat" where
  "fitting [] n = 0"
| "fitting (e # es) n = (if length (elem_bytes e) \<le> n then Suc (fitting es (n - length (elem_bytes e))) else 0)"

lemma fitting_spec:
  "fitting es n \<le> length es \<and> cut_at es (fitting es n) \<le> n \<and> (fitting es n < length es \<longrightarrow> n < cut_at es (Suc (fitting es n)))"
  by (induction es n rule: fitting.induct) auto

lemma cut_at_le_fitting:
  assumes "j \<le> length es" "cut_at es j \<le> n"
  shows "j \<le> fitting es n"
proof (rule ccontr)
  assume "\<not> j \<le> fitting es n"
  then have "Suc (fitting es n) \<le> j" "fitting es n < length es" using assms(1) by simp_all
  then show False using fitting_spec [of es n] cut_at_mono [of "Suc (fitting es n)" j es] assms(2) by simp
qed

text \<open>
  C20. The split point is the best cut between elements up to one character: it is the end of the last
  element that fits the target, except that a character directly before an escape sequence is
  held back with it when the sequence does not fit, because the start of a sequence is not recorded.
\<close>
theorem split_point_is_best_cut:
  assumes "stream_ok es" "list_all known es" "incomplete tail" "target < length (stream_bytes es @ tail)"
  shows "find_safe_split_point (stream_bytes es @ tail) target =
    (let k = fitting es target;
         before_escape = (if k < length es then \<not> is_chr (es ! k) else tail \<noteq> [] \<and> hd tail = esc) in
     length (stream_bytes (take (if 0 < k \<and> is_chr (es ! (k - 1)) \<and> before_escape then k - 1 else k) es)))"
proof -
  define k where "k = fitting es target"
  define held where "held \<longleftrightarrow> 0 < k \<and> is_chr (es ! (k - 1)) \<and>
    (if k < length es then \<not> is_chr (es ! k) else tail \<noteq> [] \<and> hd tail = esc)"
  define m where "m = (if held then k - 1 else k)"
  have k: "k \<le> length es" "cut_at es k \<le> target" using fitting_spec [of es target] by (simp_all add: k_def)
  obtain j where j: "j \<le> length es" "j = 0 \<or> recorded es tail j"
      "find_safe_split_point (stream_bytes es @ tail) target = cut_at es j" "cut_at es j \<le> target"
      "\<And>j'. recorded es tail j' \<Longrightarrow> cut_at es j' \<le> target \<Longrightarrow> cut_at es j' \<le> cut_at es j"
    using split_point_recorded [OF assms] by blast
  have jk: "j \<le> k" using cut_at_le_fitting j(1,4) by (simp add: k_def)
  have tail: "tail \<noteq> []" if "k = length es"
    using that k(2) assms(4) by (auto simp: cut_at_def)
  have m: "m = 0 \<or> recorded es tail m"
  proof (cases held)
    case True
    then show ?thesis using k(1) by (auto simp: m_def held_def recorded_def)
  next
    case False
    then show ?thesis using k(1) tail by (auto simp: m_def held_def recorded_def split: if_splits)
  qed
  have "j \<le> m"
  proof (cases held)
    case True
    then have "\<not> recorded es tail k" "k \<noteq> 0" by (auto simp: held_def recorded_def split: if_splits)
    with j(2) jk have "j \<noteq> k" by auto
    with jk True show ?thesis by (simp add: m_def)
  qed (use jk in \<open>simp add: m_def\<close>)
  moreover have "m \<le> k" by (simp add: m_def)
  moreover have "cut_at es m \<le> cut_at es j"
    using m j(5) [of m] k(2) cut_at_mono [OF \<open>m \<le> k\<close>, of es] by auto
  ultimately have "cut_at es m = cut_at es j" using cut_at_mono [of j m es] by simp
  then have "find_safe_split_point (stream_bytes es @ tail) target = length (stream_bytes (take m es))"
    using j(3) by (simp add: cut_at_def)
  then show ?thesis unfolding m_def held_def k_def Let_def .
qed

theorem split_point_is_best_cut_witness:
  "find_safe_split_point (stream_bytes [Chr 65, Chr 66, Csi [0x31] 0x6D, Chr 67]) 4 = 1"
proof -
  have "stream_ok [Chr 65, Chr 66, Csi [0x31] 0x6D, Chr 67]" by (simp add: is_scalar_def)
  then show ?thesis
    using split_point_is_best_cut [of "[Chr 65, Chr 66, Csi [0x31] 0x6D, Chr 67]" "[]" 4] incomplete_Nil
    by (simp add: encode_utf8_ascii)
qed

section \<open>What it can cut\<close>

text \<open>The point after an ESC and any byte but the introducers of CSI and OSC is recorded.\<close>

lemma split_after_escape:
  assumes "stream_ok es" "list_all known es" "x \<noteq> 0x5B" "x \<noteq> 0x5D" "r \<noteq> []"
  shows "find_safe_split_point (stream_bytes es @ esc # x # r) (length (stream_bytes es) + 2) = length (stream_bytes es) + 2"
proof -
  let ?buf = "stream_bytes es @ esc # x # r"
  let ?n = "length (stream_bytes es) + 2"
  have pts: "i + length (stream_bytes fs) + 2 \<in> set (points i (stream_bytes fs @ esc # x # r))"
    if "stream_ok fs" "list_all known fs" for fs i
    using that
  proof (induction fs arbitrary: i)
    case Nil
    then show ?case using assms(3,4) by (simp add: esc_len_def)
  next
    case (Cons f fs)
    have "i + length (elem_bytes f) + length (stream_bytes fs) + 2 \<in>
        set (points (i + length (elem_bytes f)) (stream_bytes fs @ esc # x # r))"
      by (rule Cons.IH) (use Cons.prems in simp_all)
    then show ?case using Cons.prems by (simp add: points_elem add.assoc)
  qed
  have "?n \<in> set (safe_points ?buf)"
    using pts [OF assms(1,2), of 0] by (simp add: safe_points_eq)
  then have "?n \<le> find_safe_split_point ?buf ?n"
    using find_safe_split_point_spec [of ?buf ?n] by blast
  then show ?thesis
    using find_safe_split_point_spec [of ?buf ?n] by simp
qed

lemma unknown_shape:
  assumes "elem_ok e" "\<not> known e"
  shows "\<exists>x r. elem_bytes e = esc # x # r \<and> r \<noteq> [] \<and> x \<noteq> 0x5B \<and> x \<noteq> 0x5D"
proof (cases e)
  case (Dcs body t)
  then show ?thesis by (cases t) simp_all
next
  case (EscI "is" f)
  then obtain x js where "is = x # js" "x \<le> 0x2F" using assms(1) by (cases "is") auto
  then show ?thesis using EscI by (auto simp: word_le_nat_alt)
qed (use assms(2) in simp_all)

text \<open>
  C34. The search does cut what it does not know, wherever it stands in a stream: with the target two bytes
  behind an ESC, every character beyond ASCII that follows the ESC is cut inside its UTF-8 encoding,
  and every device control string and every escape sequence with intermediate bytes is cut after
  its second byte.
\<close>
theorem split_point_can_cut_element:
  assumes es: "stream_ok es" "list_all known es"
  shows "(is_scalar c \<and> 128 \<le> c \<longrightarrow>
      find_safe_split_point (stream_bytes es @ esc # encode_utf8 c @ rest) (length (stream_bytes es) + 2) =
        length (stream_bytes es) + 2 \<and> 1 < length (encode_utf8 c)) \<and>
    (elem_ok e \<and> \<not> known e \<longrightarrow>
      find_safe_split_point (stream_bytes es @ elem_bytes e @ rest) (length (stream_bytes es) + 2) =
        length (stream_bytes es) + 2 \<and> 2 < length (elem_bytes e))"
proof (intro conjI impI)
  assume c: "is_scalar c \<and> 128 \<le> c"
  then obtain b cs where b: "encode_utf8 c = b # cs" "0x80 \<le> b" using encode_utf8_shape [of c] by blast
  show l: "1 < length (encode_utf8 c)" using c by (simp add: encode_utf8_def)
  then have "cs @ rest \<noteq> []" using b(1) by auto
  moreover have "b \<noteq> 0x5B" "b \<noteq> 0x5D" using b(2) by auto
  ultimately show "find_safe_split_point (stream_bytes es @ esc # encode_utf8 c @ rest) (length (stream_bytes es) + 2) =
      length (stream_bytes es) + 2"
    using split_after_escape [OF es, of b "cs @ rest"] b(1) by simp
next
  assume e: "elem_ok e \<and> \<not> known e"
  obtain x r where x: "elem_bytes e = esc # x # r" "r \<noteq> []" "x \<noteq> 0x5B" "x \<noteq> 0x5D"
    using unknown_shape e by blast
  then show "find_safe_split_point (stream_bytes es @ elem_bytes e @ rest) (length (stream_bytes es) + 2) =
      length (stream_bytes es) + 2" "2 < length (elem_bytes e)"
    using split_after_escape [OF es, of x "r @ rest"] by (simp_all add: neq_Nil_conv)
qed

theorem split_point_can_cut_element_witness:
  "find_safe_split_point (stream_bytes [Chr 65] @ esc # encode_utf8 0xE9 @ [66]) 3 = 3 \<and>
   find_safe_split_point (stream_bytes [Chr 65] @ elem_bytes (EscI [0x28] 0x42) @ [66]) 3 = 3"
  using split_point_can_cut_element [of "[Chr 65]" "0xE9" "[66]" "EscI [0x28] 0x42"]
  by (simp add: is_scalar_def encode_utf8_ascii numeral_3_eq_3)

end
