(* ===== verification/AnsiStrip.thy ===== *)
theory AnsiStrip
  imports AnsiSplit
begin

text \<open>
  \<^verbatim>\<open>src/ansi.rs\<close>, second half: \<^verbatim>\<open>strip_terminal_queries_stateful\<close>. The outer loop index is the
  unread suffix \<open>data[i..]\<close>; the scans for a terminator are \<open>st_end\<close> and \<open>csi_end\<close>. The theorems:
  the filter only deletes, it gives the same answer however the stream is cut into chunks, and it
  removes exactly the queries of a stream of terminal elements; they also record that its output can
  contain a query again.
\<close>

section \<open>Which sequences are queries\<close>

definition starts_with :: "bytes \<Rightarrow> bytes \<Rightarrow> bool" where
  "starts_with sub p \<longleftrightarrow> take (length p) sub = p"

definition ends_with :: "bytes \<Rightarrow> bytes \<Rightarrow> bool" where
  "ends_with sub p \<longleftrightarrow> length p \<le> length sub \<and> drop (length sub - length p) sub = p"

definition is_osc_query :: "bytes \<Rightarrow> bool" where
  "is_osc_query sub \<longleftrightarrow>
     starts_with sub (esc # bytes_of '']10;'') \<or> starts_with sub (esc # bytes_of '']11;'')
     \<or> starts_with sub (esc # bytes_of '']12;'') \<or> starts_with sub (esc # bytes_of '']4;'')
     \<or> 0x3F \<in> set sub"

definition is_dcs_query :: "bytes \<Rightarrow> bool" where
  "is_dcs_query sub \<longleftrightarrow> contains_subslice sub (bytes_of ''$q'') \<or> 0x24 \<in> set sub"

definition is_csi_query :: "bytes \<Rightarrow> bool" where
  "is_csi_query sub \<longleftrightarrow>
     sub \<in> set (map (\<lambda>s. esc # bytes_of s)
       [''[c'', ''[0c'', ''[?c'', ''[>c'', ''[>0c'', ''[>1c'', ''[=c'', ''[=0c'', ''[>q'', ''[q'', ''[6n'', ''[?6n''])
     \<or> starts_with sub (esc # bytes_of ''[?'') \<and> ends_with sub (bytes_of ''c'')
     \<or> starts_with sub (esc # bytes_of ''[?'') \<and> ends_with sub (bytes_of ''n'')"

section \<open>The filter\<close>

text \<open>
  The sequence classes with their terminator scan and query test, in the order of the source;
  \<open>None\<close> for an introducer that starts none of them.
\<close>

definition query_class :: "u8 \<Rightarrow> ((bytes \<Rightarrow> nat option) \<times> (bytes \<Rightarrow> bool)) option" where
  "query_class intro =
     (if intro = 0x5D then Some (st_end, is_osc_query)
      else if intro = 0x50 then Some (st_end, is_dcs_query)
      else if intro = 0x5B then Some (csi_end, is_csi_query)
      else None)"

function strip_loop :: "bytes \<Rightarrow> bytes \<Rightarrow> bytes \<times> bytes" where
  "strip_loop result [] = (result, [])"
| "strip_loop result (b # rest) =
     (if b = esc then
        (case rest of
           [] \<Rightarrow> (result, b # rest)
         | intro # tail \<Rightarrow>
             (case query_class intro of
                None \<Rightarrow> strip_loop (result @ [b]) rest
              | Some (scan, is_query) \<Rightarrow>
                  (case scan tail of
                     None \<Rightarrow> (result, b # rest)
                   | Some n \<Rightarrow>
                       if is_query (b # intro # take n tail) then strip_loop result (drop n tail)
                       else strip_loop (result @ [b]) rest)))
      else strip_loop (result @ [b]) rest)"
  by pat_completeness auto
termination
  by (relation "measure (\<lambda>(result, data). length data)") auto

definition strip_terminal_queries_stateful :: "bytes \<Rightarrow> bytes \<times> bytes" where
  "strip_terminal_queries_stateful data = strip_loop [] data"

text \<open>A caller keeps the unparsed remainder and prepends it to the next chunk.\<close>

definition strip_chunk :: "bytes \<Rightarrow> bytes \<Rightarrow> bytes \<times> bytes" where
  "strip_chunk remaining chunk = strip_terminal_queries_stateful (remaining @ chunk)"

section \<open>Lemmas\<close>

declare strip_loop.simps(2) [simp del]

lemma strip_loop_acc:
  "strip_loop result data = (result @ fst (strip_loop [] data), snd (strip_loop [] data))"
proof (induction "length data" arbitrary: result data rule: less_induct)
  case less
  show ?case
  proof (cases data)
    case Nil
    then show ?thesis by simp
  next
    case (Cons b rest)
    have push: "strip_loop (result @ [b]) rest = (result @ fst (strip_loop [b] rest), snd (strip_loop [b] rest))"
      using less [of rest "result @ [b]"] less [of rest "[b]"] Cons by simp
    have skip: "strip_loop result (drop (Suc n) rest)
        = (result @ fst (strip_loop [] (drop (Suc n) rest)), snd (strip_loop [] (drop (Suc n) rest)))" for n
      using less [of "drop (Suc n) rest" result] Cons by simp
    show ?thesis
      unfolding Cons strip_loop.simps(2)
      using push skip by (auto split: list.splits option.splits prod.splits)
  qed
qed

lemma query_class_bounds:
  "query_class c = Some (scan, q) \<Longrightarrow> scan t = Some n \<Longrightarrow> 0 < n \<and> n \<le> length t"
  by (auto simp: query_class_def split: if_splits dest: st_end_bounds csi_end_bounds)

lemma st_end_append: "st_end a = Some n \<Longrightarrow> st_end (a @ b) = Some n"
  by (induction a arbitrary: n) (auto simp: hd_append split: if_splits)

lemma csi_end_append: "csi_end a = Some n \<Longrightarrow> csi_end (a @ b) = Some n"
  by (induction a arbitrary: n) (auto split: if_splits)

lemma query_class_append:
  "query_class c = Some (scan, q) \<Longrightarrow> scan a = Some n \<Longrightarrow> scan (a @ b) = Some n"
  by (auto simp: query_class_def split: if_splits intro: st_end_append csi_end_append)

lemma strip_loop_push: "strip_loop [b] rest = (b # fst (strip_loop [] rest), snd (strip_loop [] rest))"
  using strip_loop_acc [of "[b]" rest] by simp

text \<open>The three things the loop does with its first byte.\<close>

lemma strip_loop_cases:
  obtains (stop) "strip_loop [] (b # rest) = ([], b # rest)" "b = esc"
      "rest = [] \<or> (\<exists>scan q. query_class (hd rest) = Some (scan, q) \<and> scan (tl rest) = None)"
  | (push) "\<And>z. strip_loop [] ((b # rest) @ z) = (b # fst (strip_loop [] (rest @ z)), snd (strip_loop [] (rest @ z)))"
  | (skip) n where "n \<le> length rest"
      "\<And>z. strip_loop [] ((b # rest) @ z) = strip_loop [] (drop n rest @ z)"
proof (cases "b = esc \<and> rest \<noteq> [] \<and> query_class (hd rest) \<noteq> None")
  case True
  then obtain i t scan q where r: "b = esc" "rest = i # t" "query_class i = Some (scan, q)"
    by (cases rest) auto
  show ?thesis
  proof (cases "scan t")
    case None
    with r show ?thesis by (intro stop) (simp_all add: strip_loop.simps(2))
  next
    case (Some n)
    note n = query_class_bounds [OF r(3) Some] query_class_append [OF r(3) Some]
    show ?thesis
    proof (cases "q (b # i # take n t)")
      case True
      show ?thesis
        by (rule skip [of "Suc n"]) (use r n True in \<open>simp_all add: strip_loop.simps(2)\<close>)
    next
      case False
      show ?thesis
        by (rule push) (use r n False in \<open>simp add: strip_loop.simps(2) [of "[]" esc] strip_loop_push\<close>)
    qed
  qed
next
  case False
  show ?thesis
  proof (cases "b = esc \<and> rest = []")
    case True
    then show ?thesis by (intro stop) (simp_all add: strip_loop.simps(2))
  next
    case F: False
    show ?thesis
    proof (rule push)
      fix z
      show "strip_loop [] ((b # rest) @ z) = (b # fst (strip_loop [] (rest @ z)), snd (strip_loop [] (rest @ z)))"
        using False F strip_loop.simps(2) [of "[]" b "rest @ z"]
        by (cases rest) (auto simp: strip_loop_push split: option.splits)
    qed
  qed
qed

lemma strip_loop_append:
  "strip_loop [] (a @ b) =
     (fst (strip_loop [] a) @ fst (strip_loop [] (snd (strip_loop [] a) @ b)),
      snd (strip_loop [] (snd (strip_loop [] a) @ b)))"
proof (induction "length a" arbitrary: a rule: less_induct)
  case less
  show ?case
  proof (cases a)
    case Nil
    then show ?thesis by simp
  next
    case (Cons c rest)
    show ?thesis
    proof (cases rule: strip_loop_cases [of c rest])
      case stop
      then show ?thesis by (simp add: Cons)
    next
      case push
      show ?thesis
        using push [of b] push [of "[]"] less [of rest] Cons by simp
    next
      case (skip n)
      then show ?thesis
        using skip(2) [of b] skip(2) [of "[]"] less [of "drop n rest"] Cons by simp
    qed
  qed
qed

lemma strip_loop_subseq: "subseq (fst (strip_loop [] d) @ snd (strip_loop [] d)) d"
proof (induction "length d" arbitrary: d rule: less_induct)
  case less
  show ?case
  proof (cases d)
    case (Cons c rest)
    show ?thesis
    proof (cases rule: strip_loop_cases [of c rest])
      case stop
      then show ?thesis by (simp add: Cons)
    next
      case push
      show ?thesis
        using push [of "[]"] less [of rest] Cons by simp
    next
      case (skip n)
      have "subseq (drop n rest) (c # rest)"
        by (metis append_take_drop_id list_emb_Cons list_emb_append2 subseq_order.order_refl)
      moreover have "subseq (fst (strip_loop [] (drop n rest)) @ snd (strip_loop [] (drop n rest))) (drop n rest)"
        using less [of "drop n rest"] Cons by simp
      ultimately show ?thesis
        using skip(2) [of "[]"] Cons by (simp add: subseq_order.trans)
    qed
  qed simp
qed

lemma strip_loop_suffix: "suffix (snd (strip_loop [] d)) d \<and> (snd (strip_loop [] d) = [] \<or> hd (snd (strip_loop [] d)) = esc)"
proof (induction "length d" arbitrary: d rule: less_induct)
  case less
  show ?case
  proof (cases d)
    case (Cons c rest)
    show ?thesis
    proof (cases rule: strip_loop_cases [of c rest])
      case stop
      then show ?thesis by (simp add: Cons)
    next
      case push
      show ?thesis
        using push [of "[]"] less [of rest] Cons by (simp add: suffix_ConsI)
    next
      case (skip n)
      have "suffix (drop n rest) (c # rest)"
        by (simp add: suffix_ConsI suffix_drop)
      moreover have "suffix (snd (strip_loop [] (drop n rest))) (drop n rest) \<and>
          (snd (strip_loop [] (drop n rest)) = [] \<or> hd (snd (strip_loop [] (drop n rest))) = esc)"
        using less [of "drop n rest"] Cons by simp
      ultimately show ?thesis
        using skip(2) [of "[]"] Cons by (auto intro: suffix_order.trans)
    qed
  qed simp
qed

lemma strip_loop_plain: "esc \<notin> set p \<Longrightarrow> strip_loop [] (p @ d) = (p @ fst (strip_loop [] d), snd (strip_loop [] d))"
proof (induction p)
  case (Cons c p)
  then show ?case
    by (simp add: strip_loop.simps(2) strip_loop_push)
qed simp

interpretation strip: byte_filter strip_chunk "\<lambda>remaining. remaining"
proof unfold_locales
  fix s d out s'
  assume "strip_chunk s d = (out, s')"
  then show "subseq (out @ s') (s @ d)"
    using strip_loop_subseq [of "s @ d"] by (simp add: strip_chunk_def strip_terminal_queries_stateful_def)
qed

section \<open>Stripping a stream of terminal elements\<close>

text \<open>
  The queries, by their structure: device attributes (final byte c), device status and cursor position
  (n), the terminal's version (q); the colours of OSC 10, 11, 12 and 4 and every other OSC string with
  a question mark; a DCS string with a dollar sign.
\<close>

fun query :: "elem \<Rightarrow> bool" where
  "query (Csi ps f) \<longleftrightarrow>
     f = 0x63 \<and> (ps \<in> set (map bytes_of ['''', ''0'', ''>'', ''>0'', ''>1'', ''='', ''=0'']) \<or> take 1 ps = bytes_of ''?'') \<or>
     f = 0x6E \<and> (ps = bytes_of ''6'' \<or> take 1 ps = bytes_of ''?'') \<or>
     f = 0x71 \<and> (ps = [] \<or> ps = bytes_of ''>'')"
| "query (Osc body t) \<longleftrightarrow>
     take 3 body \<in> set (map bytes_of [''10;'', ''11;'', ''12;'']) \<or> take 2 body = bytes_of ''4;'' \<or> 0x3F \<in> set body"
| "query (Dcs body t) \<longleftrightarrow> 0x24 \<in> set body"
| "query _ \<longleftrightarrow> False"

definition unfinished :: "bytes \<Rightarrow> bool" where
  "unfinished tail \<longleftrightarrow> tail \<noteq> [] \<and>
     (\<exists>e. elem_ok e \<and> strict_prefix tail (elem_bytes e) \<and>
        (case e of Csi ps f \<Rightarrow> True | Osc body t \<Rightarrow> True | Dcs body t \<Rightarrow> True | _ \<Rightarrow> False))"

lemma is_csi_query_elem: "is_csi_query (esc # 0x5B # ps @ [f]) \<longleftrightarrow> query (Csi ps f)"
proof (cases ps)
  case Nil
  then show ?thesis
    by (auto simp: is_csi_query_def starts_with_def ends_with_def)
next
  case (Cons p ps')
  then show ?thesis
    by (cases ps') (auto simp: is_csi_query_def starts_with_def ends_with_def append_eq_Cons_conv)
qed

lemma starts_with_body:
  assumes "string_body p"
  shows "take (length p) (body @ terminator_bytes t) = p \<longleftrightarrow> take (length p) body = p"
proof (cases "length p \<le> length body")
  case False
  then have b: "\<exists>b \<in> set (take (length p) (body @ terminator_bytes t)). b = bel \<or> b = esc"
    by (cases t; cases "length p - length body") auto
  have "take (length p) (body @ terminator_bytes t) \<noteq> p"
  proof
    assume p: "take (length p) (body @ terminator_bytes t) = p"
    show False using b assms unfolding p by (auto simp: string_body_def list_all_iff)
  qed
  moreover have "take (length p) body \<noteq> p"
    using False arg_cong [of "take (length p) body" p length] by auto
  ultimately show ?thesis by simp
qed simp

lemma is_osc_query_elem:
  "is_osc_query (esc # 0x5D # body @ terminator_bytes t) \<longleftrightarrow> query (Osc body t)"
proof -
  have "0x3F \<in> set (esc # 0x5D # body @ terminator_bytes t) \<longleftrightarrow> 0x3F \<in> set body"
    by (cases t) auto
  moreover have "starts_with (esc # 0x5D # body @ terminator_bytes t) (esc # 0x5D # p) \<longleftrightarrow> take (length p) body = p"
    if "string_body p" for p
    using starts_with_body [OF that] by (simp add: starts_with_def)
  ultimately show ?thesis by (simp add: is_osc_query_def string_body_def flip: numeral_2_eq_2)
qed

lemma is_dcs_query_elem: "is_dcs_query (esc # 0x50 # body @ terminator_bytes t) \<longleftrightarrow> query (Dcs body t)"
proof -
  have "is_dcs_query sub \<longleftrightarrow> 0x24 \<in> set sub" for sub
    by (auto simp: is_dcs_query_def contains_subslice_sublist sublist_def)
  then show ?thesis by (cases t) auto
qed

lemma strip_loop_class:
  assumes "query_class intro = Some (scan, is_query)" "scan (body @ d) = Some (length body)"
  shows "strip_loop [] (esc # intro # body @ d) =
    (if is_query (esc # intro # body) then strip_loop [] d
     else (esc # fst (strip_loop [] (intro # body @ d)), snd (strip_loop [] (intro # body @ d))))"
  using assms by (simp add: strip_loop.simps(2) [of _ esc] strip_loop_push)

lemma strip_loop_other:
  "query_class x = None \<Longrightarrow> strip_loop [] (esc # x # d) = (esc # fst (strip_loop [] (x # d)), snd (strip_loop [] (x # d)))"
  by (simp add: strip_loop.simps(2) [of _ esc] strip_loop_push)

lemma strip_loop_terminator:
  "strip_loop [] (terminator_bytes t @ d) = (terminator_bytes t @ fst (strip_loop [] d), snd (strip_loop [] d))"
  using strip_loop_plain [of "[bel]" d] strip_loop_plain [of "[0x5C]" d]
  by (cases t) (simp_all add: strip_loop_other query_class_def)

lemma strip_loop_string:
  assumes "string_body body" "x \<noteq> esc"
  shows "strip_loop [] (x # body @ terminator_bytes t @ d) =
    (x # body @ terminator_bytes t @ fst (strip_loop [] d), snd (strip_loop [] d))"
  using strip_loop_plain [of "x # body" "terminator_bytes t @ d"] assms
  by (auto simp: strip_loop_terminator string_body_def list_all_iff)

lemma strip_loop_elem:
  assumes "elem_ok e"
  shows "strip_loop [] (elem_bytes e @ d) =
    ((if query e then [] else elem_bytes e) @ fst (strip_loop [] d), snd (strip_loop [] d))"
proof (cases e)
  case (Chr c)
  then have "esc \<notin> set (encode_utf8 c)"
    using chr_shape [of c] assms cont_not_esc by (fastforce simp: list_all_iff)
  then show ?thesis using Chr by (simp add: strip_loop_plain)
next
  case (Csi ps f)
  then have c: "csi_end ((ps @ [f]) @ d) = Some (length (ps @ [f]))"
    using assms by (simp add: csi_end_params csi_final_def)
  have "esc \<notin> set (0x5B # ps @ [f])" using Csi assms by (auto simp: list_all_iff word_le_nat_alt)
  then show ?thesis
    using strip_loop_class [of "0x5B" csi_end is_csi_query "ps @ [f]" d] c Csi
      strip_loop_plain [of "0x5B # ps @ [f]" d] is_csi_query_elem [of ps f]
    by (simp add: query_class_def)
next
  case (Osc body t)
  then have b: "string_body body" using assms by simp
  then show ?thesis
    using strip_loop_class [of "0x5D" st_end is_osc_query "body @ terminator_bytes t" d] Osc
      strip_loop_string [of body "0x5D" t d] is_osc_query_elem [of body t]
    by (simp add: query_class_def st_end_body st_end_terminator)
next
  case (Dcs body t)
  then have b: "string_body body" using assms by simp
  then show ?thesis
    using strip_loop_class [of "0x50" st_end is_dcs_query "body @ terminator_bytes t" d] Dcs
      strip_loop_string [of body "0x50" t d] is_dcs_query_elem [of body t]
    by (simp add: query_class_def st_end_body st_end_terminator)
next
  case (Esc2 b)
  then have "query_class b = None" "esc \<notin> set [b]" using assms by (auto simp: query_class_def)
  then show ?thesis using Esc2 strip_loop_plain [of "[b]" d] by (simp add: strip_loop_other)
next
  case (EscI "is" f)
  then obtain x js where x: "is = x # js" using assms by (cases "is") auto
  have "query_class x = None" "esc \<notin> set (x # js @ [f])"
    using EscI x assms by (auto simp: query_class_def list_all_iff word_le_nat_alt)
  then show ?thesis using EscI x strip_loop_plain [of "x # js @ [f]" d] by (simp add: strip_loop_other)
qed

lemma strip_loop_unfinished:
  assumes "unfinished tail"
  shows "strip_loop [] tail = ([], tail)"
proof -
  obtain e where e: "elem_ok e" "strict_prefix tail (elem_bytes e)"
      "case e of Csi ps f \<Rightarrow> True | Osc body t \<Rightarrow> True | Dcs body t \<Rightarrow> True | _ \<Rightarrow> False"
    using assms by (auto simp: unfinished_def)
  then obtain x r scan q where x: "elem_bytes e = esc # x # r" "query_class x = Some (scan, q)"
      "\<And>v. strict_prefix v r \<Longrightarrow> scan v = None"
  proof (cases e)
    case (Csi ps f)
    then have "csi_end v = None" if "strict_prefix v (ps @ [f])" for v
    proof -
      have "prefix v ps" using that by (auto simp: strict_prefix_def prefix_append prefix_Cons)
      then show ?thesis using csi_end_params_None [of v] Csi e(1) by (auto simp: prefix_def)
    qed
    then show ?thesis using that Csi by (simp add: query_class_def)
  next
    case (Osc body t)
    then show ?thesis using that [of "0x5D" _ st_end] st_end_unfinished [of body _ t] e(1) by (simp add: query_class_def)
  next
    case (Dcs body t)
    then show ?thesis using that [of "0x50" _ st_end] st_end_unfinished [of body _ t] e(1) by (simp add: query_class_def)
  qed simp_all
  have "tail \<noteq> []" using assms by (simp add: unfinished_def)
  with e(2) x(1) consider "tail = [esc]" | v where "tail = esc # x # v" "strict_prefix v r"
    by (cases tail; cases "tl tail") (auto simp: strict_prefix_def)
  then show ?thesis
    by cases (simp_all add: strip_loop.simps(2) x(2,3))
qed

lemma strip_loop_stream:
  assumes "stream_ok es" "tail = [] \<or> unfinished tail"
  shows "strip_loop [] (stream_bytes es @ tail) = (stream_bytes (filter (\<lambda>e. \<not> query e) es), tail)"
  using assms
proof (induction es)
  case Nil
  then show ?case using strip_loop_unfinished by auto
next
  case (Cons e es)
  then show ?case using strip_loop_elem [of e "stream_bytes es @ tail"] by simp
qed

section \<open>Properties\<close>

text \<open>
  C21. Chunking does not matter: stripping a stream in two chunks, with the remainder of the first
  prepended to the second, gives the same clean bytes and the same remainder as stripping it whole.
\<close>
theorem strip_chunking_independent:
  "strip_terminal_queries_stateful (a @ b) =
     (let (clean1, rest1) = strip_terminal_queries_stateful a;
          (clean2, rest2) = strip_terminal_queries_stateful (rest1 @ b)
      in (clean1 @ clean2, rest2))"
  by (simp add: strip_terminal_queries_stateful_def strip_loop_append [of a b] split: prod.splits)

text \<open>
  C22. The filter only deletes: over any sequence of chunks, the bytes let through followed by the
  bytes held back form a subsequence of the bytes received.
\<close>
theorem strip_only_deletes:
  "case run_filter strip_chunk [] chunks of (out, remaining) \<Rightarrow> subseq (out @ remaining) (concat chunks)"
proof -
  obtain out r where "run_filter strip_chunk [] chunks = (out, r)"
    by (cases "run_filter strip_chunk [] chunks")
  with strip.run_only_deletes [OF this] show ?thesis by simp
qed

text \<open>
  C23. The filter removes the queries of a stream of terminal elements and nothing else: characters, escape
  sequences and strings that are no query pass unchanged, every query disappears, and an unfinished
  CSI, OSC or DCS sequence at the end is held back, nothing else is.
\<close>
theorem strip_removes_exactly_queries:
  assumes "stream_ok es" "tail = [] \<or> unfinished tail"
  shows "strip_terminal_queries_stateful (stream_bytes es @ tail) = (stream_bytes (filter (\<lambda>e. \<not> query e) es), tail)"
  using strip_loop_stream [OF assms] by (simp add: strip_terminal_queries_stateful_def)

theorem strip_removes_exactly_queries_witness:
  "strip_terminal_queries_stateful
     (stream_bytes [Chr 0xE9, Csi [0x36] 0x6E, Csi [0x33] 0x6D, Osc (bytes_of ''11;?'') Bel, Dcs (bytes_of ''+p'') St, Esc2 0x37] @ [esc, 0x5B, 0x33])
   = (stream_bytes [Chr 0xE9, Csi [0x33] 0x6D, Dcs (bytes_of ''+p'') St, Esc2 0x37], [esc, 0x5B, 0x33])"
proof -
  have "stream_ok [Chr 0xE9, Csi [0x36] 0x6E, Csi [0x33] 0x6D, Osc (bytes_of ''11;?'') Bel, Dcs (bytes_of ''+p'') St, Esc2 0x37]"
    by (simp add: is_scalar_def string_body_def)
  moreover have "unfinished [esc, 0x5B, 0x33]"
    unfolding unfinished_def
    by (rule conjI, simp, rule exI [of _ "Csi [0x33, 0x31] 0x6D"]) (simp add: strict_prefix_def)
  moreover have "filter (\<lambda>e. \<not> query e)
      [Chr 0xE9, Csi [0x36] 0x6E, Csi [0x33] 0x6D, Osc (bytes_of ''11;?'') Bel, Dcs (bytes_of ''+p'') St, Esc2 0x37] =
      [Chr 0xE9, Csi [0x33] 0x6D, Dcs (bytes_of ''+p'') St, Esc2 0x37]"
    by simp
  ultimately show ?thesis
    using strip_removes_exactly_queries
      [of "[Chr 0xE9, Csi [0x36] 0x6E, Csi [0x33] 0x6D, Osc (bytes_of ''11;?'') Bel, Dcs (bytes_of ''+p'') St, Esc2 0x37]" "[esc, 0x5B, 0x33]"]
    by metis
qed

text \<open>
  What is held back is a suffix of the input that starts with ESC, and an input without ESC is
  passed through whole.
\<close>
theorem strip_remainder:
  "case strip_terminal_queries_stateful data of (clean, remaining) \<Rightarrow>
     suffix remaining data \<and> (remaining = [] \<or> hd remaining = esc) \<and>
     (if esc \<in> set data then True else clean = data \<and> remaining = [])"
  using strip_loop_suffix [of data] strip_loop_plain [of data "[]"]
  by (auto simp: strip_terminal_queries_stateful_def split: prod.splits)

text \<open>
  Stripping once is not enough: a query nested in another sequence leaves a query in the output,
  so the filter is not idempotent. ESC, "[", ESC, "[c", "c" is stripped to ESC, "[c".
\<close>
theorem strip_not_idempotent:
  "strip_terminal_queries_stateful (esc # bytes_of ''['' @ esc # bytes_of ''[cc'') = (esc # bytes_of ''[c'', []) \<and>
   strip_terminal_queries_stateful (esc # bytes_of ''[c'') = ([], [])"
  by (simp add: strip_terminal_queries_stateful_def strip_loop.simps(2) query_class_def csi_final_def
      is_csi_query_def starts_with_def)

end
