(* ===== verification/Protocol.thy ===== *)
theory Protocol
  imports Rust_Std
begin

text \<open>
  The packet format of \<^verbatim>\<open>src/protocol.rs\<close>: the packet type, payload compression, and the tagged
  binary serialisation with its parser. The gzip encoder and decoder (the crate \<^verbatim>\<open>flate2\<close>) are
  parameters: \<open>gz\<close> is \<^verbatim>\<open>GzEncoder::write_all\<close> followed by \<^verbatim>\<open>finish\<close> (\<open>None\<close> when either fails),
  \<open>gunzip\<close> is \<^verbatim>\<open>GzDecoder::read_to_end\<close>. Lengths are cast to \<^verbatim>\<open>u32\<close> and \<^verbatim>\<open>u16\<close> as the source casts
  them, so a payload too long for its length field is mis-serialised here as it is there;
  \<open>wf_packet\<close> is the range in which it is not.
\<close>

section \<open>Packets\<close>

datatype packet =
    ClientInput bytes
  | ClientResize u16 u16
  | Ping u64
  | Pong u64
  | ServerFrame u64 bytes bool
  | ClientHandshake rstring u16 u16

section \<open>Compression\<close>

type_synonym gz_encoder = "bytes \<Rightarrow> bytes option"
type_synonym gz_decoder = "bytes \<Rightarrow> bytes io_result"

definition compress_data :: "gz_encoder \<Rightarrow> bytes \<Rightarrow> bytes \<times> bool" where
  "compress_data gz data =
     (if length data > 128 then
        (case gz data of
           Some compressed \<Rightarrow>
             if length compressed < length data then (compressed, True) else (data, False)
         | None \<Rightarrow> (data, False))
      else (data, False))"

definition decompress_data :: "gz_decoder \<Rightarrow> bytes \<Rightarrow> bool \<Rightarrow> bytes io_result" where
  "decompress_data gunzip data compressed = (if \<not> compressed then Inr data else gunzip data)"

section \<open>Serialisation\<close>

fun serialize :: "packet \<Rightarrow> bytes" where
  "serialize (ClientInput data) =
     1 # to_be_bytes (word_of_nat (length data) :: u32) @ data"
| "serialize (ClientResize rows cols) = 2 # to_be_bytes rows @ to_be_bytes cols"
| "serialize (Ping timestamp) = 3 # to_be_bytes timestamp"
| "serialize (Pong timestamp) = 4 # to_be_bytes timestamp"
| "serialize (ServerFrame seq data compressed) =
     5 # to_be_bytes seq @ (if compressed then 1 else 0)
       # to_be_bytes (word_of_nat (length data) :: u32) @ data"
| "serialize (ClientHandshake session_key rows cols) =
     6 # to_be_bytes (word_of_nat (length (as_bytes session_key)) :: u16) @ as_bytes session_key
       @ to_be_bytes rows @ to_be_bytes cols"

abbreviation eof :: "string \<Rightarrow> packet io_result" where
  "eof m \<equiv> Inl (IoError UnexpectedEof m)"

definition deserialize :: "bytes \<Rightarrow> packet io_result" where
  "deserialize bs =
     (case bs of
        [] \<Rightarrow> eof ''Empty payload for Packet deserialization''
      | tag # src \<Rightarrow>
          if tag = 1 then
            (if length src < 4 then eof ''ClientInput len missing''
             else let len = unat (from_be_bytes (take 4 src) :: u32); src = drop 4 src in
               if length src < len then eof ''ClientInput data missing''
               else Inr (ClientInput (take len src)))
          else if tag = 2 then
            (if length src < 4 then eof ''ClientResize dimensions missing''
             else Inr (ClientResize (from_be_bytes (take 2 src)) (from_be_bytes (take 2 (drop 2 src)))))
          else if tag = 3 then
            (if length src < 8 then eof ''Ping timestamp missing''
             else Inr (Ping (from_be_bytes (take 8 src))))
          else if tag = 4 then
            (if length src < 8 then eof ''Pong timestamp missing''
             else Inr (Pong (from_be_bytes (take 8 src))))
          else if tag = 5 then
            (if length src < 13 then eof ''ServerFrame header missing''
             else let seq = from_be_bytes (take 8 src); compressed = (src ! 8 \<noteq> 0);
                      len = unat (from_be_bytes (take 4 (drop 9 src)) :: u32); src = drop 13 src in
               if length src < len then eof ''ServerFrame data missing''
               else Inr (ServerFrame seq (take len src) compressed))
          else if tag = 6 then
            (if length src < 2 then eof ''ClientHandshake key len missing''
             else let key_len = unat (from_be_bytes (take 2 src) :: u16); src = drop 2 src in
               if length src < key_len + 4 then eof ''ClientHandshake payload truncated''
               else let session_key = from_utf8_lossy (take key_len src); src = drop key_len src in
                 Inr (ClientHandshake session_key (from_be_bytes (take 2 src))
                        (from_be_bytes (take 2 (drop 2 src)))))
          else Inl (IoError InvalidData
                 (''Unknown packet tag: '' @ map char_of (fmt_dec (unat tag)))))"

section \<open>Well-formed packets\<close>

text \<open>
  The packets whose variable part fits its length field. \<open>valid_string\<close> is the invariant of
  Rust's \<^verbatim>\<open>String\<close>.
\<close>

fun wf_packet :: "packet \<Rightarrow> bool" where
  "wf_packet (ClientInput data) = (length data < 2 ^ 32)"
| "wf_packet (ServerFrame seq data compressed) = (length data < 2 ^ 32)"
| "wf_packet (ClientHandshake session_key rows cols) =
     (valid_string session_key \<and> length (as_bytes session_key) < 2 ^ 16)"
| "wf_packet _ = True"

lemma unat_len32 [wire_simps]: "n < 2 ^ 32 \<Longrightarrow> unat (word_of_nat n :: u32) = n"
  by (rule unat_word_of_nat_eq) simp

lemma unat_len16 [wire_simps]: "n < 2 ^ 16 \<Longrightarrow> unat (word_of_nat n :: u16) = n"
  by (rule unat_word_of_nat_eq) simp

lemma deserialize_serialize_append:
  "wf_packet p \<Longrightarrow> deserialize (serialize p @ rest) = Inr p"
  by (cases p) (simp_all add: deserialize_def wire_simps nth_append from_utf8_lossy_as_bytes)

lemma length_serialize_pos [simp]: "serialize p \<noteq> []"
  by (cases p) simp_all

text \<open>
  A byte string is canonical when the flag byte of a frame is 0 or 1 and the key of a handshake is
  well-formed UTF-8, i.e. when the two fields the parser normalises hold what the serialiser writes.
\<close>

definition canonical :: "bytes \<Rightarrow> bool" where
  "canonical bs \<longleftrightarrow>
     (hd bs = 5 \<longrightarrow> bs ! 9 = 0 \<or> bs ! 9 = 1) \<and>
     (hd bs = 6 \<longrightarrow>
        (let key = take (unat (from_be_bytes (take 2 (tl bs)) :: u16)) (drop 2 (tl bs)) in
         as_bytes (from_utf8_lossy key) = key))"

lemma split_at: "n \<le> length bs \<Longrightarrow> \<exists>x y. bs = x @ y \<and> length x = n"
  by (metis append_take_drop_id length_take min.absorb2)

lemma unat_word_len [simp]:
  "(word_of_nat (unat (w :: u32)) :: u32) = w" "(word_of_nat (unat (v :: u16)) :: u16) = v"
  by simp_all

lemma deserialize_split_input:
  assumes "deserialize (1 # src) = Inr p"
  shows "\<exists>rest. 1 # src = serialize p @ rest"
proof -
  obtain l d where src: "src = l @ d" "length l = 4"
    using assms split_at [of 4 src] by (auto simp: deserialize_def split: if_splits)
  then have p: "p = ClientInput (take (unat (from_be_bytes l :: u32)) d)"
    and len: "unat (from_be_bytes l :: u32) \<le> length d"
    using assms by (auto simp: deserialize_def Let_def split: if_splits)
  have "serialize p @ drop (unat (from_be_bytes l :: u32)) d = 1 # src"
    unfolding p using src len by (simp add: be32.enc_dec)
  then show ?thesis by metis
qed

lemma deserialize_split_frame:
  assumes "deserialize (5 # src) = Inr p" "src ! 8 = 0 \<or> src ! 8 = 1"
  shows "\<exists>rest. 5 # src = serialize p @ rest"
proof -
  have "13 \<le> length src"
    using assms by (auto simp: deserialize_def split: if_splits)
  then obtain q s1 where q: "src = q @ s1" "length q = 8"
    using split_at [of 8 src] by auto
  then obtain c s2 where c: "s1 = c # s2"
    using \<open>13 \<le> length src\<close> by (cases s1) auto
  then obtain l d where l: "s2 = l @ d" "length l = 4"
    using q \<open>13 \<le> length src\<close> split_at [of 4 s2] by auto
  from q c l have src: "src = q @ c # l @ d" "length q = 8" "length l = 4"
    by simp_all
  have p: "p = ServerFrame (from_be_bytes q) (take (unat (from_be_bytes l :: u32)) d) (c \<noteq> 0)"
    and len: "unat (from_be_bytes l :: u32) \<le> length d" and c: "c = 0 \<or> c = 1"
    using assms src by (auto simp: deserialize_def Let_def nth_append split: if_splits)
  have "serialize p @ drop (unat (from_be_bytes l :: u32)) d = 5 # src"
    unfolding p using src len c by (auto simp: be32.enc_dec be64.enc_dec)
  then show ?thesis by metis
qed

lemma deserialize_split_handshake:
  assumes "deserialize (6 # src) = Inr p"
    and "as_bytes (from_utf8_lossy (take (unat (from_be_bytes (take 2 src) :: u16)) (drop 2 src)))
      = take (unat (from_be_bytes (take 2 src) :: u16)) (drop 2 src)"
  shows "\<exists>rest. 6 # src = serialize p @ rest"
proof -
  have len2: "2 \<le> length src"
    using assms by (auto simp: deserialize_def split: if_splits)
  then obtain l d where src: "src = l @ d" "length l = 2"
    using split_at by blast
  define n where "n = unat (from_be_bytes l :: u16)"
  have n: "n + 4 \<le> length d"
    using assms(1) src by (auto simp: deserialize_def Let_def n_def split: if_splits)
  then obtain k d1 where k: "d = k @ d1" "length k = n"
    using split_at [of n d] by auto
  then obtain r d2 where r: "d1 = r @ d2" "length r = 2"
    using n split_at [of 2 d1] by auto
  then obtain c e where c: "d2 = c @ e" "length c = 2"
    using n k split_at [of 2 d2] by auto
  from k r c have d: "d = k @ r @ c @ e" "length k = n" "length r = 2" "length c = 2"
    by simp_all
  have p: "p = ClientHandshake (from_utf8_lossy k) (from_be_bytes r) (from_be_bytes c)"
    using assms(1) src d n_def by (auto simp: deserialize_def Let_def split: if_splits)
  have "as_bytes (from_utf8_lossy k) = k"
    using assms(2) src d n_def by simp
  then have "serialize p @ e = 6 # src"
    unfolding p using src d n_def by (simp add: be16.enc_dec)
  then show ?thesis by metis
qed

lemma deserialize_tag_error:
  "deserialize (t # src) = Inl (IoError InvalidData m) \<Longrightarrow> t \<notin> {1, 2, 3, 4, 5, 6}"
  by (auto simp: deserialize_def Let_def split: if_splits)

lemma ascii_as_bytes: "list_all (\<lambda>c. c < 128) s \<Longrightarrow> as_bytes s = map byte_of s"
  by (induction s) (simp_all add: as_bytes_def encode_utf8_def)

lemma ascii_valid: "list_all (\<lambda>c. c < 128) s \<Longrightarrow> valid_string s"
  by (auto simp: valid_string_def is_scalar_def list_all_iff)

lemma list_all_replicate: "P x \<Longrightarrow> list_all P (replicate n x)"
  by (simp add: list_all_iff)

lemma list_all_take: "list_all P xs \<Longrightarrow> list_all P (take n xs)"
  by (auto simp: list_all_iff dest: in_set_takeD)

lemma ascii_lossy:
  assumes "list_all (\<lambda>c. c < 128) s"
  shows "from_utf8_lossy (take n (as_bytes s)) = take n s"
proof -
  have "take n (as_bytes s) = as_bytes (take n s)"
    using assms by (simp add: ascii_as_bytes list_all_take take_map)
  then show ?thesis
    using assms by (simp add: from_utf8_lossy_as_bytes ascii_valid list_all_take)
qed

lemma truncated_input:
  assumes "length d < 2 ^ 32" "k < 4 + length d"
  shows "\<exists>m. deserialize (1 # take k (to_be_bytes (word_of_nat (length d) :: u32) @ d)) = eof m"
  using assms by (cases "k < 4") (auto simp: deserialize_def Let_def wire_simps)

lemma take_header: "length h \<le> k \<Longrightarrow> take k (h @ d) = h @ take (k - length h) d"
  by simp

lemma truncated_frame:
  fixes q :: u64
  defines "h \<equiv> \<lambda>(d :: bytes) c. to_be_bytes q @ (if c then 1 else 0) # to_be_bytes (word_of_nat (length d) :: u32)"
  assumes "length d < 2 ^ 32" "k < length (to_be_bytes q @ (if c then 1 else 0)
    # to_be_bytes (word_of_nat (length d) :: u32) @ d)"
  shows "\<exists>m. deserialize (5 # take k (to_be_bytes q @ (if c then 1 else 0)
    # to_be_bytes (word_of_nat (length d) :: u32) @ d)) = eof m"
proof -
  have h: "length (h d c) = 13"
    by (simp add: h_def wire_simps)
  have "\<exists>m. deserialize (5 # take k (h d c @ d)) = eof m"
  proof (cases "k < 13")
    case True
    then show ?thesis by (simp add: deserialize_def h)
  next
    case False
    then have t: "take k (h d c @ d) = h d c @ take (k - 13) d"
      using h by simp
    have "k - 13 < length d"
      using assms(3) False by (simp add: wire_simps)
    then show ?thesis
      unfolding t using assms(2) h by (simp add: deserialize_def Let_def h_def wire_simps)
  qed
  then show ?thesis
    by (simp add: h_def)
qed

lemma truncated_handshake:
  fixes r c :: u16
  assumes "length key < 2 ^ 16" "k < length (to_be_bytes (word_of_nat (length key) :: u16) @ key
    @ to_be_bytes r @ to_be_bytes c)"
  shows "\<exists>m. deserialize (6 # take k (to_be_bytes (word_of_nat (length key) :: u16) @ key
    @ to_be_bytes r @ to_be_bytes c)) = eof m"
proof (cases "k < 2")
  case True
  then show ?thesis by (simp add: deserialize_def wire_simps)
next
  case False
  let ?t = "take (k - 2) (key @ to_be_bytes r @ to_be_bytes c)"
  have "length ?t < length key + 4"
    using assms(2) False by (simp add: wire_simps)
  moreover have "take k (to_be_bytes (word_of_nat (length key) :: u16) @ key @ to_be_bytes r
      @ to_be_bytes c) = to_be_bytes (word_of_nat (length key) :: u16) @ ?t"
    using False take_header [of "to_be_bytes (word_of_nat (length key) :: u16)" k]
    by (simp only: wire_simps not_less)
  ultimately show ?thesis
    using assms(1) by (simp add: deserialize_def Let_def wire_simps del: length_take take_append)
qed

section \<open>Properties\<close>

text \<open>
  C6. Round trip: a packet whose variable part fits its length field is parsed back from its
  serialisation, whatever follows it in the buffer.
\<close>
theorem packet_roundtrip:
  assumes "wf_packet p"
  shows "deserialize (serialize p @ rest) = Inr p"
  by (rule deserialize_serialize_append [OF assms])

theorem packet_roundtrip_witness:
  "wf_packet (ClientHandshake [0x6B, 0xF8, 0x20AC, 0x1F600] 24 80) \<and>
   deserialize (serialize (ClientHandshake [0x6B, 0xF8, 0x20AC, 0x1F600] 24 80) @ [7])
     = Inr (ClientHandshake [0x6B, 0xF8, 0x20AC, 0x1F600] 24 80)"
proof -
  have "wf_packet (ClientHandshake [0x6B, 0xF8, 0x20AC, 0x1F600] 24 80)"
    by (simp add: valid_string_def is_scalar_def as_bytes_def encode_utf8_def)
  then show ?thesis
    using packet_roundtrip by blast
qed

text \<open>
  C28. A packet cut short is refused: every strict prefix of a serialisation is answered with
  \<^verbatim>\<open>UnexpectedEof\<close>, never with another packet.
\<close>
theorem truncated_packet_refused:
  assumes "wf_packet p" "n < length (serialize p)"
  shows "\<exists>m. deserialize (take n (serialize p)) = Inl (IoError UnexpectedEof m)"
proof (cases n)
  case 0
  then show ?thesis by (simp add: deserialize_def)
next
  case (Suc k)
  show ?thesis
  proof (cases p)
    case (ServerFrame q d c)
    then show ?thesis
      using assms Suc truncated_frame by simp
  next
    case (ClientHandshake s r c)
    then show ?thesis
      using assms Suc truncated_handshake by simp
  qed (use assms Suc truncated_input in \<open>auto simp: deserialize_def wire_simps\<close>)
qed

theorem truncated_packet_refused_witness:
  "wf_packet (ServerFrame 42 (bytes_of ''frame'') True) \<and>
   (\<exists>m. deserialize (take 16 (serialize (ServerFrame 42 (bytes_of ''frame'') True)))
          = Inl (IoError UnexpectedEof m))"
  using truncated_packet_refused [of "ServerFrame 42 (bytes_of ''frame'') True" 16]
  by (simp add: wire_simps)

lemma deserialize_split:
  assumes "deserialize bs = Inr p" "canonical bs"
  shows "\<exists>rest. bs = serialize p @ rest"
proof (cases bs)
  case Nil
  with assms show ?thesis by (simp add: deserialize_def)
next
  case (Cons t src)
  consider "t = 1" | "t = 2" | "t = 3" | "t = 4" | "t = 5" | "t = 6" | "t \<notin> {1, 2, 3, 4, 5, 6}"
    by auto
  then show ?thesis
  proof cases
    case 1
    with assms Cons deserialize_split_input show ?thesis by blast
  next
    case 2
    then have "bs = serialize p @ drop 4 src"
      using assms(1) Cons be16.enc_prefix [of src] be16.enc_prefix [of "drop 2 src"]
      by (auto simp: deserialize_def be16.enc_dec split: if_splits)
    then show ?thesis by blast
  next
    case 3
    then have "bs = serialize p @ drop 8 src"
      using assms(1) Cons be64.enc_prefix [of src] by (auto simp: deserialize_def split: if_splits)
    then show ?thesis by blast
  next
    case 4
    then have "bs = serialize p @ drop 8 src"
      using assms(1) Cons be64.enc_prefix [of src] by (auto simp: deserialize_def split: if_splits)
    then show ?thesis by blast
  next
    case 5
    with assms Cons have "src ! 8 = 0 \<or> src ! 8 = 1"
      by (simp add: canonical_def nth_Cons')
    with 5 assms Cons deserialize_split_frame show ?thesis by blast
  next
    case 6
    with assms Cons show ?thesis
      by (intro deserialize_split_handshake [of src p, folded 6 Cons] )
        (simp_all add: canonical_def Let_def)
  next
    case 7
    with assms Cons show ?thesis by (auto simp: deserialize_def)
  qed
qed

lemma deserialize_wf:
  assumes "deserialize bs = Inr p" "canonical bs"
  shows "wf_packet p"
proof (cases bs)
  case (Cons t src)
  have l32: "unat (w :: u32) < 4294967296" and l16: "unat (v :: u16) < 65536" for w v
    using unsigned_less [of w, where ?'a = nat] unsigned_less [of v, where ?'a = nat] by simp_all
  show ?thesis
    using Cons assms
    by (auto simp: deserialize_def Let_def canonical_def from_utf8_lossy_valid l32 l16 min_less_iff_disj split: if_splits)
qed (use assms in \<open>simp add: deserialize_def\<close>)

lemma canonical_serialize: "wf_packet p \<Longrightarrow> canonical (serialize p @ rest)"
  by (cases p) (simp_all add: canonical_def wire_simps nth_append from_utf8_lossy_as_bytes)

text \<open>
  C12. The parser accepts exactly the serialisations: a byte string parses as a packet and is canonical
  (its flag byte is 0 or 1 and its key well-formed UTF-8) if and only if the packet is well-formed
  and the string is its serialisation, followed by bytes that are not read.
\<close>
theorem deserialize_exactly_serializations:
  "deserialize bs = Inr p \<and> canonical bs \<longleftrightarrow> wf_packet p \<and> (\<exists>rest. bs = serialize p @ rest)"
  using deserialize_split [of bs p] deserialize_wf [of bs p] deserialize_serialize_append [of p]
    canonical_serialize [of p]
  by blast

text \<open>
  Error classes of the parser: \<^verbatim>\<open>InvalidData\<close> is reported exactly for a tag byte outside 1 to 6,
  with the offending tag in the message, and every other refusal is \<^verbatim>\<open>UnexpectedEof\<close>.
\<close>
theorem deserialize_error_kinds:
  assumes "deserialize bs = Inl e"
  shows "if bs \<noteq> [] \<and> hd bs \<notin> {1, 2, 3, 4, 5, 6}
         then e = IoError InvalidData (''Unknown packet tag: '' @ map char_of (fmt_dec (unat (hd bs))))
         else io_kind e = UnexpectedEof"
  using assms by (cases bs) (auto simp: deserialize_def Let_def split: if_splits)

theorem deserialize_error_kinds_witness:
  "deserialize [9] = Inl (IoError InvalidData ''Unknown packet tag: 9'')"
proof -
  have "deserialize [9] = Inl (IoError InvalidData (''Unknown packet tag: '' @ map char_of (fmt_dec (unat (9 :: u8)))))"
    by (simp add: deserialize_def)
  moreover have "char_of (57 :: nat) = CHR ''9''"
    using char_of_char [of "CHR ''9''"] by simp
  ultimately show ?thesis
    using deserialize_error_kinds [of "[9]"] by (simp add: fmt_dec_def digits.simps digit_char_def)
qed

text \<open>
  The \<^verbatim>\<open>u16\<close> cast of the key length is silent: a handshake with an ASCII key of 65536 bytes or
  more is sent with the length modulo 65536, and the peer does not parse it back.
\<close>
theorem long_key_corrupts_handshake:
  assumes "list_all (\<lambda>c. c < 128) k" "2 ^ 16 \<le> length k"
  shows "deserialize (serialize (ClientHandshake k rows cols)) \<noteq> Inr (ClientHandshake k rows cols)"
proof -
  define n where "n = unat (word_of_nat (length k) :: u16)"
  have "n < 2 ^ 16"
    using unsigned_less [of "word_of_nat (length k) :: u16", where ?'a = nat] by (simp add: n_def)
  then have n: "n < length k"
    using assms(2) by simp
  have key: "from_utf8_lossy (take n (as_bytes k)) = take n k"
    by (rule ascii_lossy [OF assms(1)])
  have len: "length (as_bytes k) = length k"
    using assms(1) by (simp add: ascii_as_bytes)
  have "\<exists>a b. deserialize (serialize (ClientHandshake k rows cols)) = Inr (ClientHandshake (take n k) a b)"
    using n by (simp add: deserialize_def Let_def wire_simps n_def [symmetric] len key)
  moreover have "take n k \<noteq> k"
  proof
    assume "take n k = k"
    then have "length (take n k) = length k"
      by simp
    with n show False by simp
  qed
  ultimately show ?thesis
    by (metis packet.inject(6) sum.inject(2))
qed

theorem long_key_corrupts_handshake_witness:
  "deserialize (serialize (ClientHandshake (replicate 65536 97) 24 80))
     \<noteq> Inr (ClientHandshake (replicate 65536 97) 24 80)"
proof (rule long_key_corrupts_handshake)
  show "list_all (\<lambda>c. c < 128) (replicate 65536 (97 :: rchar))"
    by (rule list_all_replicate) simp
  show "2 ^ 16 \<le> length (replicate 65536 (97 :: rchar))"
    unfolding length_replicate by simp
qed

text \<open>
  Compression is transparent: whatever \<^verbatim>\<open>compress_data\<close> decides, decompressing its result with its
  flag gives the data back, provided the gzip decoder inverts the gzip encoder.
\<close>
theorem compress_roundtrip:
  assumes gzip: "\<And>d c. gz d = Some c \<Longrightarrow> gunzip c = Inr d"
  shows "(case compress_data gz data of (payload, compressed) \<Rightarrow>
            decompress_data gunzip payload compressed) = Inr data"
  using gzip by (auto simp: compress_data_def decompress_data_def split: option.splits)

text \<open>
  A stand-in for the gzip crate in closed examples: it packs a run of one byte of length below 65536
  and fails on everything else.
\<close>

definition run_gz :: gz_encoder where
  "run_gz d = (if d \<noteq> [] \<and> length d < 2 ^ 16 \<and> d = replicate (length d) (hd d)
     then Some (hd d # to_be_bytes (word_of_nat (length d) :: u16)) else None)"

definition run_gunzip :: gz_decoder where
  "run_gunzip c = (case c of [] \<Rightarrow> Inl (IoError UnexpectedEof []) | b # l \<Rightarrow>
     Inr (replicate (unat (from_be_bytes l :: u16)) b))"

lemma run_gzip: "run_gz d = Some c \<Longrightarrow> run_gunzip c = Inr d"
  by (auto simp: run_gz_def run_gunzip_def wire_simps split: if_splits)

lemma compress_run:
  assumes "128 < n" "n < 2 ^ 16"
  shows "compress_data run_gz (replicate n b) = (b # to_be_bytes (word_of_nat n :: u16), True)"
proof -
  have "run_gz (replicate n b) = Some (b # to_be_bytes (word_of_nat n :: u16))"
    using assms by (simp add: run_gz_def)
  then show ?thesis
    using assms by (simp add: compress_data_def wire_simps)
qed

theorem compress_roundtrip_witness:
  "compress_data run_gz (replicate 200 65) = (65 # to_be_bytes (200 :: u16), True) \<and>
   decompress_data run_gunzip (65 # to_be_bytes (200 :: u16)) True = Inr (replicate 200 65)"
proof -
  have c: "compress_data run_gz (replicate 200 65) = (65 # to_be_bytes (200 :: u16), True)"
    using compress_run [of 200 65] by (simp only: of_nat_numeral) simp
  show ?thesis
    using compress_roundtrip [of run_gz run_gunzip "replicate 200 65", OF run_gzip]
    unfolding c by (simp only: case_prod_conv simp_thms)
qed

text \<open>
  Compression never grows a payload: what \<^verbatim>\<open>compress_data\<close> returns is at most as long as its
  input, it is flagged only when it is strictly shorter and the input has more than 128 bytes, and
  an unflagged result is the input itself, for any encoder.
\<close>
theorem compress_data_bounds:
  "case compress_data gz data of (payload, compressed) \<Rightarrow>
     length payload \<le> length data \<and>
     (if compressed then 128 < length data \<and> length payload < length data \<and> gz data = Some payload
      else payload = data)"
  by (auto simp: compress_data_def split: option.splits)

lemma compress_length: "length (fst (compress_data gz data)) \<le> length data"
  by (auto simp: compress_data_def split: option.splits)

section \<open>The contents of frames\<close>

text \<open>What a receiver of the frames gets to show.\<close>

fun frame_bytes :: "gz_decoder \<Rightarrow> packet \<Rightarrow> bytes" where
  "frame_bytes gunzip (ServerFrame n data compressed) =
     (case decompress_data gunzip data compressed of Inr bs \<Rightarrow> bs | Inl e \<Rightarrow> [])"
| "frame_bytes gunzip _ = []"

definition screen_bytes :: "gz_decoder \<Rightarrow> packet list \<Rightarrow> bytes" where
  "screen_bytes gunzip ps = concat (map (frame_bytes gunzip) ps)"

end
