(* ===== verification/Codec.thy ===== *)
theory Codec
  imports Protocol
begin

text \<open>
  The length-prefixed framing of \<^verbatim>\<open>src/protocol.rs\<close>: \<open>decode\<close> and \<open>encode\<close> of \<^verbatim>\<open>PacketCodec\<close>. The
  buffer is the \<^verbatim>\<open>BytesMut\<close> the codec is handed; \<open>decode\<close> returns its answer with the buffer it
  leaves. The interface \<open>framing\<close> states what a transport relies on, and \<open>deliver\<close> is every way a
  transport can interleave the arrival of bytes with calls of a decoder; under the interface the
  packets delivered do not depend on how the stream was cut into reads.
\<close>

section \<open>The codec\<close>

definition decode :: "bytes \<Rightarrow> packet option io_result \<times> bytes" where
  "decode src =
     (if length src < 4 then (Inr None, src)
      else let len = unat (from_be_bytes (take 4 src) :: u32) in
        if length src < 4 + len then (Inr None, src)
        else let src = drop 4 src; payload = take len src; src = drop len src in
          (case deserialize payload of Inl e \<Rightarrow> Inl e | Inr p \<Rightarrow> Inr (Some p), src))"

definition encode :: "packet \<Rightarrow> bytes \<Rightarrow> bytes" where
  "encode item dst =
     (let serialized = serialize item in
      dst @ to_be_bytes (word_of_nat (length serialized) :: u32) @ serialized)"

section \<open>The transport interface\<close>

text \<open>
  \<open>deliver dec buf cs ps buf'\<close>: starting from the buffer \<open>buf\<close>, with the chunks \<open>cs\<close> still to
  arrive, a sequence of arrivals and decoder calls hands out the packets \<open>ps\<close>, uses up \<open>cs\<close> and
  ends with the buffer \<open>buf'\<close>.
\<close>

inductive deliver ::
  "(bytes \<Rightarrow> 'p option io_result \<times> bytes) \<Rightarrow> bytes \<Rightarrow> bytes list \<Rightarrow> 'p list \<Rightarrow> bytes \<Rightarrow> bool"
  for dec where
  deliver_done: "deliver dec buf [] [] buf"
| deliver_recv: "deliver dec (buf @ c) cs ps buf' \<Longrightarrow> deliver dec buf (c # cs) ps buf'"
| deliver_item: "dec buf = (Inr (Some p), buf1) \<Longrightarrow> deliver dec buf1 cs ps buf'
    \<Longrightarrow> deliver dec buf cs (p # ps) buf'"

locale framing =
  fixes enc :: "'p \<Rightarrow> bytes" and dec :: "bytes \<Rightarrow> 'p option io_result \<times> bytes" and ok :: "'p \<Rightarrow> bool"
  assumes dec_enc: "ok p \<Longrightarrow> dec (enc p @ rest) = (Inr (Some p), rest)"
    and dec_short: "ok p \<Longrightarrow> strict_prefix bs (enc p) \<Longrightarrow> fst (dec bs) \<noteq> Inr (Some q)"
    and dec_empty: "fst (dec []) \<noteq> Inr (Some q)"
begin

lemma dec_cut_stream:
  assumes "list_all ok qs" "prefix buf (concat (map enc qs))" "dec buf = (Inr (Some p), buf1)"
  shows "\<exists>qs'. qs = p # qs' \<and> buf = enc p @ buf1"
proof (cases qs)
  case Nil
  with assms dec_empty [of p] show ?thesis by simp
next
  case (Cons q qs')
  with assms(1) have q: "ok q" by simp
  have "\<not> strict_prefix buf (enc q)"
    using dec_short [OF q, of buf p] assms(3) by auto
  then obtain r where r: "buf = enc q @ r"
    using assms(2) Cons prefix_same_cases [of buf "concat (map enc qs)" "enc q"]
    by (auto simp: strict_prefix_def elim: prefixE)
  with dec_enc [OF q, of r] assms(3) Cons show ?thesis by simp
qed

text \<open>
  Whatever the schedule, what is delivered from a prefix of the stream of \<open>qs\<close> is a prefix of
  \<open>qs\<close>, and no byte is lost: the bytes not yet delivered are in the buffer.
\<close>

lemma deliver_prefix:
  assumes "deliver dec buf cs ps buf'" "list_all ok qs" "prefix (buf @ concat cs) (concat (map enc qs))"
  shows "prefix ps qs \<and> concat (map enc ps) @ buf' = buf @ concat cs"
  using assms
proof (induction arbitrary: qs rule: deliver.induct)
  case (deliver_done buf)
  then show ?case by simp
next
  case (deliver_recv buf c cs ps buf')
  then show ?case by simp
next
  case (deliver_item buf p buf1 cs ps buf')
  from deliver_item.prems have "prefix buf (concat (map enc qs))"
    by (metis append_prefixD)
  with deliver_item dec_cut_stream obtain qs' where qs: "qs = p # qs'" and buf: "buf = enc p @ buf1"
    by blast
  with deliver_item.prems have "list_all ok qs'" "prefix (buf1 @ concat cs) (concat (map enc qs'))"
    by simp_all
  with deliver_item.IH qs buf show ?case by simp
qed

text \<open>A schedule that stops only when the decoder has nothing more has delivered everything.\<close>

lemma deliver_complete:
  assumes "deliver dec [] cs ps buf'" "list_all ok qs" "concat cs = concat (map enc qs)"
    and idle: "\<And>p. fst (dec buf') \<noteq> Inr (Some p)"
  shows "ps = qs \<and> buf' = []"
proof -
  from deliver_prefix [of "[]" cs ps buf' qs] assms obtain qs' where
    qs: "qs = ps @ qs'" and b: "concat (map enc ps) @ buf' = concat (map enc qs)"
    by (auto simp: prefix_def)
  then have buf': "buf' = concat (map enc qs')" by simp
  show ?thesis
  proof (cases qs')
    case Nil
    with qs buf' show ?thesis by simp
  next
    case (Cons q r)
    with assms(2) qs have "ok q" by simp
    with dec_enc [of q "concat (map enc r)"] idle [of q] buf' Cons show ?thesis by simp
  qed
qed

lemma deliver_all: "deliver dec (buf @ concat cs) [] ps buf' \<Longrightarrow> deliver dec buf cs ps buf'"
  by (induction cs arbitrary: buf) (simp_all add: deliver.deliver_recv)

text \<open>Such a schedule exists for every way of cutting the stream.\<close>

lemma deliver_exists:
  assumes "list_all ok qs" "concat cs = concat (map enc qs)"
  shows "deliver dec [] cs qs []"
proof (rule deliver_all)
  have "deliver dec (concat (map enc qs)) [] qs []"
    using assms(1)
  proof (induction qs)
    case Nil
    then show ?case by (simp add: deliver.deliver_done)
  next
    case (Cons q qs)
    then show ?case by (auto intro: deliver.deliver_item dec_enc)
  qed
  then show "deliver dec ([] @ concat cs) [] qs []"
    by (simp add: assms(2))
qed

end

section \<open>The codec implements the interface\<close>

text \<open>The packets whose whole serialisation fits the frame's length field.\<close>

definition frame_ok :: "packet \<Rightarrow> bool" where
  "frame_ok p \<longleftrightarrow> wf_packet p \<and> length (serialize p) < 2 ^ 32"

lemma encode_append: "encode p dst = dst @ encode p []"
  by (simp add: encode_def Let_def)

lemma length_encode [wire_simps]: "length (encode p dst) = length dst + 4 + length (serialize p)"
  by (simp add: encode_def wire_simps Let_def)

lemma decode_encode:
  assumes "frame_ok p"
  shows "decode (encode p [] @ rest) = (Inr (Some p), rest)"
  using assms deserialize_serialize_append [of p "[]"]
  by (simp add: decode_def encode_def frame_ok_def wire_simps Let_def)

lemma decode_incomplete:
  assumes "frame_ok p" "strict_prefix bs (encode p [])"
  shows "decode bs = (Inr None, bs)"
proof (cases "length bs < 4")
  case True
  then show ?thesis by (simp add: decode_def)
next
  case False
  from assms(2) obtain s where s: "encode p [] = bs @ s" "s \<noteq> []"
    by (auto simp: strict_prefix_def prefix_def)
  then have "take 4 bs = take 4 (encode p [])"
    using False by simp
  also have "\<dots> = to_be_bytes (word_of_nat (length (serialize p)) :: u32)"
    by (simp add: encode_def wire_simps Let_def)
  finally have t: "take 4 bs = to_be_bytes (word_of_nat (length (serialize p)) :: u32)" .
  have "length bs < length (encode p [])"
    using s by simp
  then show ?thesis
    using assms(1) False t by (simp add: decode_def frame_ok_def wire_simps Let_def)
qed

interpretation codec: framing "\<lambda>p. encode p []" decode frame_ok
  by unfold_locales (simp_all add: decode_encode decode_incomplete, simp add: decode_def)

section \<open>Properties\<close>

text \<open>
  C5. Reassembly: however TCP cuts a stream of encoded packets into chunks and whenever the decoder
  is called, the packets handed out are a prefix of those sent, in order, and the undelivered bytes
  are exactly those left in the buffer.
\<close>
theorem reassembly_any_chunking:
  assumes "list_all frame_ok qs" "prefix (concat cs) (concat (map (\<lambda>p. encode p []) qs))"
    and "deliver decode [] cs ps buf'"
  shows "prefix ps qs \<and> concat (map (\<lambda>p. encode p []) ps) @ buf' = concat cs"
  using codec.deliver_prefix [OF assms(3,1)] assms(2) by simp

theorem reassembly_any_chunking_witness:
  "prefix [Ping 9] [Ping 9, Pong 1] \<and> encode (Ping 9) [] @ [0] = concat [[0, 0], [0, 9, 3, 0, 0, 0, 0, 0, 0, 0, 9, 0]]"
proof -
  have e: "encode (Ping 9) [] = [0, 0, 0, 9, 3, 0, 0, 0, 0, 0, 0, 0, 9]"
    by (simp add: encode_def to_be_bytes_def Let_def)
  have d: "decode ([0, 0, 0, 9, 3, 0, 0, 0, 0, 0, 0, 0, 9] @ [0]) = (Inr (Some (Ping 9)), [0])"
    unfolding e [symmetric] by (rule decode_encode) (simp add: frame_ok_def wire_simps)
  have "deliver decode [] [[0, 0], [0, 9, 3, 0, 0, 0, 0, 0, 0, 0, 9, 0]] [Ping 9] [0]"
    using d by (auto intro!: deliver.intros)
  from reassembly_any_chunking [OF _ _ this, of "[Ping 9, Pong 1]"] show ?thesis
    by (simp add: frame_ok_def wire_simps e encode_def to_be_bytes_def Let_def)
qed

text \<open>
  C13. Liveness of reassembly: for every way of cutting the complete stream there is a schedule that
  delivers all packets and empties the buffer, and every schedule that stops only when the decoder
  asks for more bytes is such a schedule.
\<close>
theorem reassembly_delivers_all:
  assumes "list_all frame_ok qs" "concat cs = concat (map (\<lambda>p. encode p []) qs)"
  shows "deliver decode [] cs qs [] \<and>
    (\<forall>ps buf'. deliver decode [] cs ps buf' \<longrightarrow> fst (decode buf') = Inr None \<longrightarrow> ps = qs \<and> buf' = [])"
  using codec.deliver_exists [OF assms] codec.deliver_complete [OF _ assms] by simp

theorem reassembly_delivers_all_witness:
  "deliver decode [] [[0], [0, 0, 9, 4], [0, 0, 0, 0, 0, 0, 0, 7]] [Pong 7] []"
proof -
  have "concat [[0], [0, 0, 9, 4], [0, 0, 0, 0, 0, 0, 0, 7]] = concat (map (\<lambda>p. encode p []) [Pong 7])"
    by (simp add: encode_def to_be_bytes_def Let_def)
  from reassembly_delivers_all [OF _ this] show ?thesis
    by (simp add: frame_ok_def wire_simps)
qed

text \<open>
  The decoder never over-reads: on a buffer that does not hold a whole frame it answers "more
  bytes" and leaves the buffer as it was; otherwise it consumes exactly the four length bytes and
  the payload, also when the payload is refused.
\<close>
theorem decode_consumes_one_frame:
  "decode src =
     (if length src < 4 \<or> length src < 4 + nat_of_be (take 4 src) then (Inr None, src)
      else (map_sum id Some (deserialize (take (nat_of_be (take 4 src)) (drop 4 src))),
            drop (4 + nat_of_be (take 4 src)) src))"
proof -
  have "unat (from_be_bytes (take 4 src) :: u32) = nat_of_be (take 4 src)" if "4 \<le> length src"
  proof -
    have "nat_of_be (take 4 src) < 256 ^ 4"
      using nat_of_be_bound [of "take 4 src"] that by simp
    then show ?thesis
      by (simp add: from_be_bytes_def unat_len32)
  qed
  then show ?thesis
    by (auto simp: decode_def Let_def add.commute split: sum.splits)
qed

end
