(* ===== verification/Vt100.thy ===== *)
theory Vt100
  imports Rust_Std
begin

text \<open>
  The terminal emulator (the crate \<^verbatim>\<open>vt100\<close>) as a parameter: the record of the calls the sources
  make. \<open>vt_process\<close> returns the parser and whether the call panicked on the way, since the sources
  go on using a parser that panicked. \<open>vt_contents_formatted\<close> is \<open>None\<close> when it panics.
  The sources wrap the calls that may panic in \<^verbatim>\<open>catch_unwind\<close>; what that does depends on the panic
  strategy the binary is built with: unwinding (the development profile) or aborting the process
  (\<^verbatim>\<open>panic = "abort"\<close>, the release profile of \<^verbatim>\<open>Cargo.toml\<close>).
\<close>

record 'vt vt100 =
  vt_new :: "u16 \<Rightarrow> u16 \<Rightarrow> nat \<Rightarrow> 'vt"
  vt_process :: "'vt \<Rightarrow> bytes \<Rightarrow> 'vt \<times> bool"
  vt_size :: "'vt \<Rightarrow> u16 \<times> u16"
  vt_cursor_position :: "'vt \<Rightarrow> u16 \<times> u16"
  vt_cell :: "'vt \<Rightarrow> u16 \<Rightarrow> u16 \<Rightarrow> rstring option"
  vt_contents_formatted :: "'vt \<Rightarrow> bytes option"
  vt_hide_cursor :: "'vt \<Rightarrow> bool"

datatype panic_strategy = Unwind | Abort

text \<open>
  Feed the emulator under \<^verbatim>\<open>catch_unwind\<close>, replacing it by a fresh one of the same size after a
  panic; \<open>None\<close> when the process aborts. The predictor and the server's PTY reader share this code.
\<close>

definition process_safely :: "'vt vt100 \<Rightarrow> panic_strategy \<Rightarrow> 'vt \<Rightarrow> bytes \<Rightarrow> 'vt option" where
  "process_safely V ps parser data =
     (let (parser, panicked) = vt_process V parser data in
      if \<not> panicked then Some parser
      else (case ps of
              Abort \<Rightarrow> None
            | Unwind \<Rightarrow> (let (r, c) = vt_size V parser in Some (vt_new V r c 1000))))"

lemma process_safely_unwind: "process_safely V Unwind parser data \<noteq> None"
  by (simp add: process_safely_def split: prod.splits)

lemma process_safely_no_panic:
  "\<not> snd (vt_process V parser data) \<Longrightarrow> process_safely V ps parser data = Some (fst (vt_process V parser data))"
  by (auto simp: process_safely_def split: prod.splits)

section \<open>An emulator for closed examples\<close>

text \<open>
  One unbounded line: printable bytes are appended at the cursor, everything else is ignored, except
  that the byte 0xFF makes the emulator panic.
\<close>

record line_vt =
  ln_rows :: u16
  ln_cols :: u16
  ln_text :: bytes

definition line_vt100 :: "line_vt vt100" where
  "line_vt100 =
     \<lparr>vt_new = \<lambda>r c n. \<lparr>ln_rows = r, ln_cols = c, ln_text = []\<rparr>,
      vt_process = \<lambda>vt d. (vt\<lparr>ln_text := ln_text vt @ filter (\<lambda>b. 32 \<le> b \<and> b \<le> 126) d\<rparr>, 0xFF \<in> set d),
      vt_size = \<lambda>vt. (ln_rows vt, ln_cols vt),
      vt_cursor_position = \<lambda>vt. (0, word_of_nat (length (ln_text vt))),
      vt_cell = \<lambda>vt r c. if r = 0 \<and> unat c < length (ln_text vt) then Some [unat (ln_text vt ! unat c)] else None,
      vt_contents_formatted = \<lambda>vt. Some (ln_text vt),
      vt_hide_cursor = \<lambda>vt. False\<rparr>"

end
