(* ===== verification/Rust_Io.thy ===== *)
theory Rust_Io
  imports Rust_Std
begin

text \<open>
  Byte streams as the sources use them through \<^verbatim>\<open>std::io\<close>. A reader is the list of results its next
  \<^verbatim>\<open>read\<close> calls will have (a chunk, of which a call takes at most as much as it has room for, or an
  error; the end of the list is the end of the stream), a writer collects what it was given and may
  fail after a number of bytes. \<^verbatim>\<open>read_exact\<close> and \<^verbatim>\<open>write_all\<close> follow the standard library's default
  methods: in particular an error of \<^verbatim>\<open>read_exact\<close> other than \<^verbatim>\<open>Interrupted\<close> loses the bytes already
  read.
\<close>

section \<open>Readers\<close>

datatype read_result = Chunk bytes | ReadErr io_error

type_synonym reader = "read_result list"

fun read_exact :: "nat \<Rightarrow> bytes \<Rightarrow> reader \<Rightarrow> bytes io_result \<times> reader" where
  "read_exact 0 acc rd = (Inr acc, rd)"
| "read_exact (Suc n) acc [] = (Inl (IoError UnexpectedEof ''failed to fill whole buffer''), [])"
| "read_exact (Suc n) acc (Chunk c # rd) =
     (if c = [] then (Inl (IoError UnexpectedEof ''failed to fill whole buffer''), rd)
      else if length c \<le> Suc n then read_exact (Suc n - length c) (acc @ c) rd
      else (Inr (acc @ take (Suc n) c), Chunk (drop (Suc n) c) # rd))"
| "read_exact (Suc n) acc (ReadErr e # rd) =
     (if io_kind e = Interrupted then read_exact (Suc n) acc rd else (Inl e, rd))"

text \<open>A reader with only non-empty chunks, and the bytes it will still give.\<close>

fun flows :: "reader \<Rightarrow> bool" where
  "flows [] = True"
| "flows (Chunk c # rd) = (c \<noteq> [] \<and> flows rd)"
| "flows (ReadErr e # rd) = False"

fun pending :: "reader \<Rightarrow> bytes" where
  "pending [] = []"
| "pending (Chunk c # rd) = c @ pending rd"
| "pending (ReadErr e # rd) = pending rd"

lemma read_exact_flows:
  assumes "flows rd" "n \<le> length (pending rd)"
  shows "\<exists>rd'. read_exact n acc rd = (Inr (acc @ take n (pending rd)), rd') \<and> flows rd'
    \<and> pending rd' = drop n (pending rd)"
  using assms
proof (induction n acc rd rule: read_exact.induct)
  case (3 n acc c rd)
  show ?case
  proof (cases "length c \<le> Suc n")
    case True
    with 3 have "\<exists>rd'. read_exact (Suc n - length c) (acc @ c) rd
        = (Inr ((acc @ c) @ take (Suc n - length c) (pending rd)), rd') \<and> flows rd'
        \<and> pending rd' = drop (Suc n - length c) (pending rd)"
      by (intro "3.IH") simp_all
    with 3 True show ?thesis by simp
  qed (use 3 in simp)
qed simp_all

text \<open>A reader that is read beyond its first part.\<close>

lemma read_exact_append:
  assumes "flows rd0"
  shows "read_exact n acc (rd0 @ rd1) =
    (if n \<le> length (pending rd0) then (case read_exact n acc rd0 of (r, rd) \<Rightarrow> (r, rd @ rd1))
     else read_exact (n - length (pending rd0)) (acc @ pending rd0) rd1)"
  using assms
proof (induction n acc rd0 rule: read_exact.induct)
  case (3 n acc c rd)
  show ?case
  proof (cases "length c \<le> Suc n")
    case True
    with 3 have "read_exact (Suc n - length c) (acc @ c) (rd @ rd1) =
      (if Suc n - length c \<le> length (pending rd) then (case read_exact (Suc n - length c) (acc @ c) rd of (r, rd) \<Rightarrow> (r, rd @ rd1))
       else read_exact (Suc n - length c - length (pending rd)) ((acc @ c) @ pending rd) rd1)"
      by (intro "3.IH") simp_all
    with 3 True show ?thesis by auto
  qed (use 3 in simp)
qed simp_all

lemma read_exact_fails:
  assumes "flows rd0" "length (pending rd0) < n" "io_kind e \<noteq> Interrupted"
  shows "read_exact n acc (rd0 @ ReadErr e # rd1) = (Inl e, rd1)"
proof -
  obtain k where "n - length (pending rd0) = Suc k" using assms(2) by (metis Suc_diff_Suc)
  with assms show ?thesis by (simp add: read_exact_append)
qed

section \<open>Writers\<close>

record writer =
  wr_out :: bytes
  wr_left :: "nat option"

definition write_all :: "writer \<Rightarrow> bytes \<Rightarrow> io_error option \<times> writer" where
  "write_all w bs =
     (case wr_left w of
        None \<Rightarrow> (None, w\<lparr>wr_out := wr_out w @ bs\<rparr>)
      | Some n \<Rightarrow>
          if length bs \<le> n
          then (None, w\<lparr>wr_out := wr_out w @ bs, wr_left := Some (n - length bs)\<rparr>)
          else (Some (IoError BrokenPipe ''''), w\<lparr>wr_out := wr_out w @ take n bs, wr_left := Some 0\<rparr>))"

text \<open>\<^verbatim>\<open>flush\<close> fails on a stream whose capacity is used up.\<close>

definition flush :: "writer \<Rightarrow> io_error option \<times> writer" where
  "flush w = (if wr_left w = Some 0 then Some (IoError BrokenPipe '''') else None, w)"

text \<open>A writer that never fails.\<close>

abbreviation sink :: "bytes \<Rightarrow> writer" where
  "sink bs \<equiv> \<lparr>wr_out = bs, wr_left = None\<rparr>"

lemma write_all_sink [simp]: "write_all (sink bs) cs = (None, sink (bs @ cs))"
  by (simp add: write_all_def)

lemma flush_sink [simp]: "flush (sink bs) = (None, sink bs)"
  by (simp add: flush_def)

lemma write_all_extends: "prefix (wr_out w) (wr_out (snd (write_all w bs)))"
  by (simp add: write_all_def split: option.splits)

lemma flush_same [simp]: "snd (flush w) = w"
  by (simp add: flush_def)

end
