(* ===== verification/F64.thy ===== *)
theory F64
  imports Rust_Std "HOL-Library.Log_Nat"
begin

text \<open>
  Rust's \<^verbatim>\<open>f64\<close> as the send task uses it: a finite double is a rational with a 53-bit significand and
  every operation rounds its exact result to nearest, ties to even. The exponent range is not
  bounded: the values of the send task lie between \<open>2 ^ -60\<close> and \<open>2 ^ 110\<close> in magnitude (rates below
  \<open>2 ^ 64\<close>, times of at least one nanosecond and below \<open>2 ^ 40\<close> seconds), far from overflow and from
  the subnormal numbers, and no infinity or NaN arises. The locale \<open>rounding\<close> collects the laws the
  token bucket rests on; \<open>fl\<close> is shown to satisfy them.
\<close>

section \<open>Rounding to 53 bits\<close>

definition expo :: "rat \<Rightarrow> int" where
  "expo x = (let (p, q) = quotient_of \<bar>x\<bar>; k = bitlen p - bitlen q in
     if 2 powi k \<le> \<bar>x\<bar> then k else k - 1)"

definition rne :: "rat \<Rightarrow> int" where
  "rne x = (let f = \<lfloor>x\<rfloor>; r = x - of_int f in
     if r < 1 / 2 then f else if r > 1 / 2 then f + 1 else if even f then f else f + 1)"

definition fl :: "rat \<Rightarrow> rat" where
  "fl x = (if x = 0 then 0 else
     let u = 2 powi (expo x - 52) in of_int (rne (x / u)) * u)"

text \<open>The operations of the sources.\<close>

definition f64_of_int :: "int \<Rightarrow> rat" where
  "f64_of_int n = fl (of_int n)"

definition f64_add :: "rat \<Rightarrow> rat \<Rightarrow> rat" where
  "f64_add x y = fl (x + y)"

definition f64_sub :: "rat \<Rightarrow> rat \<Rightarrow> rat" where
  "f64_sub x y = fl (x - y)"

definition f64_mul :: "rat \<Rightarrow> rat \<Rightarrow> rat" where
  "f64_mul x y = fl (x * y)"

definition f64_div :: "rat \<Rightarrow> rat \<Rightarrow> rat" where
  "f64_div x y = fl (x / y)"

text \<open>The saturating cast \<^verbatim>\<open>as usize\<close>, and \<^verbatim>\<open>Duration::as_secs_f64\<close> of a number of nanoseconds.\<close>

definition as_usize :: "rat \<Rightarrow> nat" where
  "as_usize x = nat (min \<lfloor>x\<rfloor> (2 ^ 64 - 1))"

definition as_secs_f64 :: "int \<Rightarrow> rat" where
  "as_secs_f64 nanos =
     f64_add (f64_of_int (nanos div 1000000000))
       (f64_div (f64_of_int (nanos mod 1000000000)) (f64_of_int 1000000000))"

section \<open>The laws\<close>

locale rounding =
  fixes rnd :: "rat \<Rightarrow> rat"
  assumes rnd_mono: "x \<le> y \<Longrightarrow> rnd x \<le> rnd y"
    and rnd_idem: "rnd (rnd x) = rnd x"
    and rnd_int: "\<bar>n\<bar> \<le> 2 ^ 53 \<Longrightarrow> rnd (of_int n) = of_int n"
    and rnd_err: "\<bar>rnd x - x\<bar> \<le> \<bar>x\<bar> / 2 ^ 53"
begin

lemma rnd_0: "rnd 0 = 0"
  using rnd_int [of 0] by simp

lemma rnd_nonneg: "0 \<le> x \<Longrightarrow> 0 \<le> rnd x"
  using rnd_mono [of 0 x] by (simp add: rnd_0)

lemma rnd_le: "x \<le> y \<Longrightarrow> rnd y = y \<Longrightarrow> rnd x \<le> y"
  using rnd_mono [of x y] by simp

lemma rnd_ge: "y \<le> x \<Longrightarrow> rnd y = y \<Longrightarrow> y \<le> rnd x"
  using rnd_mono [of y x] by simp

lemma rnd_upper: "0 \<le> x \<Longrightarrow> rnd x \<le> x + x / 2 ^ 53"
  using rnd_err [of x] abs_ge_self [of "rnd x - x"] by linarith

lemma rnd_min: "rnd (min (rnd x) (rnd y)) = min (rnd x) (rnd y)"
  by (simp add: min_def rnd_idem)

end

section \<open>The rounding satisfies them\<close>

lemma powi2_pos [simp]: "0 < (2 :: rat) powi k"
  by (rule zero_less_power_int) simp

lemma powi2_nz [simp]: "(2 :: rat) powi k \<noteq> 0"
  using powi2_pos [of k] by linarith

lemma powi2_le_iff: "(2 :: rat) powi j \<le> 2 powi k \<longleftrightarrow> j \<le> k"
  using power_int_strict_increasing [of k j "2 :: rat"] power_int_increasing [of j k "2 :: rat"]
  by (cases "j \<le> k") auto

lemma powi2_less_iff: "(2 :: rat) powi j < 2 powi k \<longleftrightarrow> j < k"
  using powi2_le_iff [of k j] by linarith

lemma bitlen_rat:
  assumes "0 < p"
  shows "2 powi (bitlen p - 1) \<le> (of_int p :: rat)" "(of_int p :: rat) < 2 powi bitlen p"
proof -
  have b: "2 ^ nat (bitlen p - 1) \<le> p" "p < 2 ^ nat (bitlen p)" "0 < bitlen p"
    using bitlen_bounds [OF assms] bitlen_eq_zero_iff [of p] bitlen_nonneg [of p] assms by auto
  have "2 powi (bitlen p - 1) = (of_int (2 ^ nat (bitlen p - 1)) :: rat)"
    using b(3) by (simp add: power_int_def)
  with b(1) show "2 powi (bitlen p - 1) \<le> (of_int p :: rat)"
    by (simp only: of_int_le_iff)
  have "2 powi (bitlen p) = (of_int (2 ^ nat (bitlen p)) :: rat)"
    using b(3) by (simp add: power_int_def)
  with b(2) show "(of_int p :: rat) < 2 powi bitlen p"
    by (simp only: of_int_less_iff)
qed

lemma expo_bounds:
  assumes "x \<noteq> 0"
  shows "2 powi expo x \<le> \<bar>x\<bar>" "\<bar>x\<bar> < 2 powi (expo x + 1)"
proof -
  obtain p q where pq: "quotient_of \<bar>x\<bar> = (p, q)" by (cases "quotient_of \<bar>x\<bar>")
  have q: "0 < q" and x: "\<bar>x\<bar> = of_int p / of_int q"
    using quotient_of_denom_pos [OF pq] quotient_of_div [OF pq] by auto
  have "0 < \<bar>x\<bar>" using assms by simp
  with x q have p: "0 < p" by (simp add: zero_less_divide_iff)
  let ?k = "bitlen p - bitlen q"
  note P = bitlen_rat [OF p] and Q = bitlen_rat [OF q]
  have Q0: "0 < (of_int q :: rat)" using q by simp
  have up: "\<bar>x\<bar> < 2 powi (?k + 1)"
  proof -
    have "(of_int p :: rat) < 2 powi (?k + 1) * 2 powi (bitlen q - 1)"
      using P(2) by (simp flip: power_int_add)
    also have "\<dots> \<le> 2 powi (?k + 1) * of_int q"
      using Q(1) by (intro mult_left_mono) (simp_all add: less_imp_le)
    finally show ?thesis by (simp add: x divide_less_eq q)
  qed
  have lo: "2 powi (?k - 1) \<le> \<bar>x\<bar>"
  proof -
    have "2 powi (?k - 1) * (of_int q :: rat) \<le> 2 powi (?k - 1) * 2 powi bitlen q"
      using Q(2) by (intro mult_left_mono) (simp_all add: less_imp_le)
    also have "\<dots> = 2 powi (bitlen p - 1)"
      by (simp add: algebra_simps flip: power_int_add)
    also have "\<dots> \<le> of_int p" by (rule P(1))
    finally show ?thesis by (simp add: x le_divide_eq q)
  qed
  show "2 powi expo x \<le> \<bar>x\<bar>" "\<bar>x\<bar> < 2 powi (expo x + 1)"
    using up lo by (simp_all add: expo_def pq Let_def)
qed

lemma expo_mono:
  assumes "0 < x" "x \<le> y"
  shows "expo x \<le> expo y"
proof -
  have "2 powi expo x < (2 :: rat) powi (expo y + 1)"
    using expo_bounds [of x] expo_bounds [of y] assms by simp
  then show ?thesis by (simp add: powi2_less_iff)
qed

lemma expo_minus: "expo (- x) = expo x"
  by (simp add: expo_def)

lemma rne_err: "\<bar>of_int (rne x) - x\<bar> \<le> 1 / 2"
  using floor_correct [of x] by (auto simp: rne_def Let_def abs_le_iff)

lemma rne_of_int [simp]: "rne (of_int k) = k"
  by (simp add: rne_def)

lemma rne_mono:
  assumes "x \<le> y"
  shows "rne x \<le> rne y"
proof (cases "\<lfloor>x\<rfloor> = \<lfloor>y\<rfloor>")
  case True
  with assms show ?thesis by (auto simp: rne_def Let_def)
next
  case False
  then have "\<lfloor>x\<rfloor> + 1 \<le> \<lfloor>y\<rfloor>" using floor_mono [OF assms] by linarith
  moreover have "rne x \<le> \<lfloor>x\<rfloor> + 1" "\<lfloor>y\<rfloor> \<le> rne y" by (simp_all add: rne_def Let_def)
  ultimately show ?thesis by linarith
qed

lemma rne_minus: "rne (- x) = - rne x"
proof (cases "x = of_int \<lfloor>x\<rfloor>")
  case True
  then show ?thesis by (metis of_int_minus rne_of_int)
next
  case False
  then have "\<lfloor>- x\<rfloor> = - \<lfloor>x\<rfloor> - 1"
    using floor_correct [of x] by (intro floor_unique) (auto simp: less_le)
  then show ?thesis
    by (auto simp: rne_def Let_def)
qed

lemma fl_minus: "fl (- x) = - fl x"
  by (simp add: fl_def expo_minus rne_minus Let_def)

lemma scaled_bounds:
  assumes "x \<noteq> 0"
  shows "2 ^ 52 \<le> \<bar>x / 2 powi (expo x - 52)\<bar>" "\<bar>x / 2 powi (expo x - 52)\<bar> < 2 ^ 53"
proof -
  have "2 powi expo x = (2 :: rat) ^ 52 * 2 powi (expo x - 52)"
    using power_int_add [of "2 :: rat" 52 "expo x - 52"] by simp
  moreover have "2 powi (expo x + 1) = (2 :: rat) ^ 53 * 2 powi (expo x - 52)"
    using power_int_add [of "2 :: rat" 53 "expo x - 52"] by (simp add: add.commute)
  ultimately show "2 ^ 52 \<le> \<bar>x / 2 powi (expo x - 52)\<bar>" "\<bar>x / 2 powi (expo x - 52)\<bar> < 2 ^ 53"
    using expo_bounds [OF assms] by (simp_all add: abs_divide le_divide_eq divide_less_eq)
qed

lemma fl_pos_bounds:
  assumes "0 < x"
  shows "2 powi expo x \<le> fl x" "fl x \<le> 2 powi (expo x + 1)"
proof -
  let ?u = "(2 :: rat) powi (expo x - 52)"
  have s: "2 ^ 52 \<le> x / ?u" "x / ?u \<le> 2 ^ 53"
    using scaled_bounds [of x] assms by simp_all
  have "rne (of_int (2 ^ 52)) \<le> rne (x / ?u)" "rne (x / ?u) \<le> rne (of_int (2 ^ 53))"
    using s by (intro rne_mono; simp)+
  then have "2 ^ 52 \<le> rne (x / ?u)" "rne (x / ?u) \<le> 2 ^ 53"
    by (simp_all only: rne_of_int)
  then have "of_int (2 ^ 52) \<le> (of_int (rne (x / ?u)) :: rat)" "of_int (rne (x / ?u)) \<le> (of_int (2 ^ 53) :: rat)"
    by (simp_all only: of_int_le_iff)
  then have "2 ^ 52 * ?u \<le> fl x" "fl x \<le> 2 ^ 53 * ?u"
    using assms by (simp_all add: fl_def Let_def)
  moreover have "2 powi expo x = (2 :: rat) ^ 52 * ?u" "2 powi (expo x + 1) = (2 :: rat) ^ 53 * ?u"
    using power_int_add [of "2 :: rat" 52 "expo x - 52"] power_int_add [of "2 :: rat" 53 "expo x - 52"]
    by (simp_all add: add.commute)
  ultimately show "2 powi expo x \<le> fl x" "fl x \<le> 2 powi (expo x + 1)" by simp_all
qed

lemma fl_mono_pos:
  assumes "0 < x" "x \<le> y"
  shows "fl x \<le> fl y"
proof (cases "expo x = expo y")
  case True
  let ?u = "(2 :: rat) powi (expo x - 52)"
  have "rne (x / ?u) \<le> rne (y / ?u)"
    using assms by (intro rne_mono divide_right_mono) (simp_all add: less_imp_le)
  then show ?thesis
    using assms True by (simp add: fl_def Let_def)
next
  case False
  with expo_mono [OF assms] have "expo x + 1 \<le> expo y" by simp
  then have "2 powi (expo x + 1) \<le> (2 :: rat) powi expo y" by (simp add: powi2_le_iff)
  then show ?thesis
    using fl_pos_bounds [of x] fl_pos_bounds [of y] assms by linarith
qed

lemma fl_pos: "0 < x \<Longrightarrow> 0 < fl x"
  using fl_pos_bounds(1) [of x] powi2_pos [of "expo x"] by linarith

lemma fl_mono:
  assumes "x \<le> y"
  shows "fl x \<le> fl y"
proof -
  have 0: "fl 0 = 0" by (simp add: fl_def)
  consider "0 < x" | "y < 0" | "x \<le> 0" "0 \<le> y" by linarith
  then show ?thesis
  proof cases
    case 2
    with assms fl_mono_pos [of "- y" "- x"] show ?thesis by (simp add: fl_minus)
  next
    case 3
    then have "fl x \<le> 0" "0 \<le> fl y"
      using fl_pos [of "- x"] fl_pos [of y] 0 by (auto simp: fl_minus le_less)
    then show ?thesis by simp
  qed (use assms fl_mono_pos in auto)
qed

lemma fl_exact:
  assumes "\<bar>m\<bar> \<le> 2 ^ 53"
  shows "fl (of_int m * 2 powi k) = of_int m * 2 powi k"
proof (cases "m = 0")
  case False
  let ?x = "of_int m * 2 powi k :: rat"
  let ?e = "expo ?x"
  have x0: "?x \<noteq> 0" using False by simp
  have "\<exists>j. ?x / 2 powi (?e - 52) = of_int j"
  proof (cases "?e - 52 \<le> k")
    case True
    then obtain n where n: "k = ?e - 52 + int n" by (metis zle_iff_zadd)
    have "?x / 2 powi (?e - 52) = of_int m * 2 powi (k - (?e - 52))"
      by (simp add: power_int_diff)
    also have "k - (?e - 52) = int n"
      using n by linarith
    also have "of_int m * 2 powi int n = (of_int (m * 2 ^ n) :: rat)"
      by simp
    finally show ?thesis by blast
  next
    case F: False
    have m: "\<bar>of_int m :: rat\<bar> \<le> 2 ^ 53"
      using assms by (metis of_int_abs of_int_le_iff of_int_numeral of_int_power)
    have p: "2 powi (53 + k) = (2 :: rat) ^ 53 * 2 powi k"
      using power_int_add [of "2 :: rat" 53 k] by simp
    have "2 powi ?e \<le> (2 :: rat) powi (53 + k)"
    proof -
      have "2 powi ?e \<le> \<bar>of_int m\<bar> * (2 :: rat) powi k"
        using expo_bounds(1) [OF x0] by (simp add: abs_mult)
      also have "\<dots> \<le> 2 ^ 53 * 2 powi k"
        using m by (intro mult_right_mono) (simp_all add: less_imp_le)
      finally show ?thesis by (simp only: p)
    qed
    then have e: "?e = 53 + k" using F by (simp add: powi2_le_iff)
    with expo_bounds(1) [OF x0] p have "2 ^ 53 \<le> \<bar>of_int m :: rat\<bar>"
      by (simp add: abs_mult)
    then have "\<bar>m\<bar> = 2 ^ 53"
      using m by (metis antisym of_int_abs of_int_eq_iff of_int_numeral of_int_power)
    then obtain s :: int where s: "m = s * 2 ^ 52 * 2"
      by (metis abs_if dvd_def dvd_minus_iff mult.commute mult.left_commute power_Suc numeral_eq_Suc dvd_refl
          pred_numeral_simps(3) eval_nat_numeral(3))
    have "?x / 2 powi (?e - 52) = of_int m * 2 powi (k - (?e - 52))"
      by (simp add: power_int_diff)
    also have "k - (?e - 52) = - 1"
      unfolding e by simp
    also have "of_int m * 2 powi (- 1) = (of_int (s * 2 ^ 52) :: rat)"
      by (simp add: s)
    finally show ?thesis by blast
  qed
  then obtain j where "?x / 2 powi (?e - 52) = of_int j" by blast
  moreover from this have "?x = of_int j * 2 powi (?e - 52)" by (simp add: field_simps)
  ultimately show ?thesis
    using x0 by (simp add: fl_def Let_def)
qed (simp add: fl_def)

lemma fl_idem: "fl (fl x) = fl x"
proof (cases "x = 0")
  case False
  let ?y = "x / 2 powi (expo x - 52)"
  have "- (2 ^ 53) \<le> ?y" "?y \<le> 2 ^ 53"
    using scaled_bounds [OF False] by (simp_all add: abs_less_iff)
  then have "rne (of_int (- (2 ^ 53))) \<le> rne ?y" "rne ?y \<le> rne (of_int (2 ^ 53))"
    by (intro rne_mono; simp)+
  then have "\<bar>rne ?y\<bar> \<le> 2 ^ 53" by (simp only: rne_of_int abs_le_iff minus_le_iff)
  then have "fl (of_int (rne ?y) * 2 powi (expo x - 52)) = of_int (rne ?y) * 2 powi (expo x - 52)"
    by (rule fl_exact)
  then show ?thesis
    using False by (simp add: fl_def [of x] Let_def)
qed (simp add: fl_def)

lemma fl_err: "\<bar>fl x - x\<bar> \<le> \<bar>x\<bar> / 2 ^ 53"
proof (cases "x = 0")
  case False
  let ?u = "2 powi (expo x - 52) :: rat"
  have "fl x - x = (of_int (rne (x / ?u)) - x / ?u) * ?u"
    using False by (simp add: fl_def Let_def algebra_simps)
  then have "\<bar>fl x - x\<bar> = \<bar>of_int (rne (x / ?u)) - x / ?u\<bar> * ?u"
    by (simp add: abs_mult)
  also have "\<dots> \<le> 1 / 2 * ?u"
    using rne_err [of "x / ?u"] by (intro mult_right_mono) (simp_all add: less_imp_le)
  also have "\<dots> = 2 powi expo x / 2 ^ 53"
    using power_int_add [of "2 :: rat" 52 "expo x - 52"] by simp
  also have "\<dots> \<le> \<bar>x\<bar> / 2 ^ 53"
    using expo_bounds(1) [OF False] by (intro divide_right_mono) simp_all
  finally show ?thesis .
qed (simp add: fl_def)

interpretation f64: rounding fl
proof unfold_locales
  fix n :: int
  assume "\<bar>n\<bar> \<le> 2 ^ 53"
  then show "fl (of_int n) = of_int n"
    using fl_exact [of n 0] by simp
qed (rule fl_mono fl_idem fl_err; assumption?)+

text \<open>Elapsed times: rounding makes \<^verbatim>\<open>as_secs_f64\<close> at most three parts in \<open>2 ^ 53\<close> too long.\<close>

lemma as_secs_f64_nonneg: "0 \<le> nanos \<Longrightarrow> 0 \<le> as_secs_f64 nanos"
  unfolding as_secs_f64_def f64_add_def f64_div_def f64_of_int_def
  by (intro f64.rnd_nonneg add_nonneg_nonneg divide_nonneg_nonneg) simp_all

end
