(* ===== verification/Server.thy ===== *)
theory Server
  imports Ansi Codec Vt100 Rust_Io F64
begin

text \<open>
  One client session of the server, \<^verbatim>\<open>handle_client\<close> of \<^verbatim>\<open>src/server.rs\<close>. The threads and tasks of the
  session (the PTY reader, the send task with its token bucket, the packet loop) share the session
  state under a mutex; each event below is one critical section of one of them, with the effects
  that follow it before the task yields, and a session is a sequence of events in any order. What
  the environment decides is in the events: the bytes read from the PTY, the clock, the packets
  received and whether a send succeeds. The emulator and gzip are parameters. No thread panics while
  it holds the lock (the emulator's panics are caught inside or end the process), so the lock is
  never poisoned.
\<close>

section \<open>State\<close>

record telemetry =
  pty_bytes_in :: u64
  net_bytes_out :: u64
  bytes_dropped :: u64
  frames_sent :: u64
  frames_skipped :: u64
  rtt_ms :: u64

definition telemetry_default :: telemetry where
  "telemetry_default = \<lparr>pty_bytes_in = 0, net_bytes_out = 0, bytes_dropped = 0, frames_sent = 0,
     frames_skipped = 0, rtt_ms = 0\<rparr>"

record 'vt server_session_state =
  screen_parser :: 'vt
  pty_buffer :: bytes

definition new_session_state :: "'vt vt100 \<Rightarrow> u16 \<Rightarrow> u16 \<Rightarrow> 'vt server_session_state" where
  "new_session_state V rows cols = \<lparr>screen_parser = vt_new V rows cols 1000, pty_buffer = []\<rparr>"

text \<open>The local variables of the send task; \<open>last_tick\<close> in nanoseconds.\<close>

record send_task =
  tokens :: rat
  seq :: u64
  last_tick :: int
  pending_atomic_refresh :: bool

text \<open>
  Where the send task is: before the check of \<open>pty_closed\<close>, waiting for the timer, or finished. A task
  that has been given a period of which no timer can be made is, until it first runs, before the creation of
  that timer.
\<close>

datatype send_phase = TimerRefused | AtTop | AwaitTick | Finished

record 'vt session =
  state :: "'vt server_session_state"
  telemetry :: telemetry
  pty_closed :: bool
  send :: send_task
  phase :: send_phase
  wire :: "packet list"
  pty_input :: writer
  pty_sizes :: "(u16 \<times> u16) list"
  loop_left :: bool

section \<open>The PTY reader thread\<close>

text \<open>One turn of the loop; \<open>None\<close>: the emulator's panic aborts the process.\<close>

definition pty_reader_step ::
  "'vt vt100 \<Rightarrow> panic_strategy \<Rightarrow> 'vt session \<Rightarrow> read_result \<Rightarrow> 'vt session option" where
  "pty_reader_step V ps s r =
     (if pty_closed s then Some s
      else case r of
        ReadErr e \<Rightarrow> Some (s\<lparr>pty_closed := True\<rparr>)
      | Chunk chunk \<Rightarrow>
          if chunk = [] then Some (s\<lparr>pty_closed := True\<rparr>)
          else
            (let s = s\<lparr>telemetry := (telemetry s)\<lparr>pty_bytes_in := pty_bytes_in (telemetry s) + word_of_nat (length chunk)\<rparr>\<rparr> in
             (case process_safely V ps (screen_parser (state s)) chunk of
                None \<Rightarrow> None
              | Some vt \<Rightarrow>
                  Some (s\<lparr>state := \<lparr>screen_parser = vt, pty_buffer = pty_buffer (state s) @ chunk\<rparr>\<rparr>))))"

section \<open>The send task\<close>

definition max_bytes_per_sec :: "u64 \<Rightarrow> rat" where
  "max_bytes_per_sec max_kbps = f64_of_int (uint (max_kbps * 1024))"

definition burst_capacity :: "u64 \<Rightarrow> rat" where
  "burst_capacity max_kbps = max (f64_mul (max_bytes_per_sec max_kbps) (1 / 2)) 2048"

definition send_task_start :: "u64 \<Rightarrow> int \<Rightarrow> send_task" where
  "send_task_start max_kbps now =
     \<lparr>tokens = burst_capacity max_kbps, seq = 0, last_tick = now, pending_atomic_refresh = False\<rparr>"

definition max_pty_buffer_cap :: nat where
  "max_pty_buffer_cap = 16384"

text \<open>The screen as one frame; \<open>None\<close> when the emulator panics. Rows and columns wrap at 16 bits.\<close>

definition generate_atomic_screen_frame :: "'vt vt100 \<Rightarrow> 'vt \<Rightarrow> bytes option" where
  "generate_atomic_screen_frame V parser =
     (case vt_contents_formatted V parser of
        None \<Rightarrow> None
      | Some contents \<Rightarrow>
          (let (row, col) = vt_cursor_position V parser in
           Some ((esc # bytes_of ''[H'' @ esc # bytes_of ''[2J'') @ contents
             @ (esc # bytes_of ''['' @ as_bytes (fmt_dec (unat (row + 1))) @ bytes_of '';''
                  @ as_bytes (fmt_dec (unat (col + 1))) @ bytes_of ''H'')
             @ (if vt_hide_cursor V parser then esc # bytes_of ''[?25l'' else esc # bytes_of ''[?25h''))))"

text \<open>
  The task's first run when the timer refuses its period: the panic aborts the process, or tokio catches
  it and the task has ended.
\<close>

definition timer_panic :: "panic_strategy \<Rightarrow> 'vt session \<Rightarrow> 'vt session option" where
  "timer_panic ps s = (case ps of Abort \<Rightarrow> None | Unwind \<Rightarrow> Some (s\<lparr>phase := Finished\<rparr>))"

text \<open>The top of the loop: once the PTY has closed, everything buffered goes out in one last frame.\<close>

definition send_top :: "gz_encoder \<Rightarrow> bool \<Rightarrow> 'vt session \<Rightarrow> 'vt session" where
  "send_top gz ok s =
     (if pty_closed s then
        (let remaining_bytes = pty_buffer (state s);
             s = s\<lparr>state := (state s)\<lparr>pty_buffer := []\<rparr>, phase := Finished\<rparr> in
         if remaining_bytes \<noteq> [] then
           (let s = s\<lparr>send := (send s)\<lparr>seq := seq (send s) + 1\<rparr>\<rparr>;
                (payload, compressed) = compress_data gz remaining_bytes;
                packet = ServerFrame (seq (send s)) payload compressed in
            if ok then s\<lparr>wire := wire s @ [packet]\<rparr> else s)
         else s)
      else s\<lparr>phase := AwaitTick\<rparr>)"

definition refill :: "u64 \<Rightarrow> int \<Rightarrow> send_task \<Rightarrow> send_task" where
  "refill max_kbps now t =
     (let elapsed_secs = as_secs_f64 (max 0 (now - last_tick t)) in
      t\<lparr>last_tick := now,
        tokens := min (f64_add (tokens t) (f64_mul (max_bytes_per_sec max_kbps) elapsed_secs))
                      (burst_capacity max_kbps)\<rparr>)"

definition skip_frame :: "telemetry \<Rightarrow> telemetry" where
  "skip_frame t = t\<lparr>frames_skipped := frames_skipped t + 1\<rparr>"

text \<open>Overflow of the buffer: forget it, count it, and ask for a refresh.\<close>

definition drop_overflow :: "'vt session \<Rightarrow> 'vt session" where
  "drop_overflow s =
     (if length (pty_buffer (state s)) > max_pty_buffer_cap then
        s\<lparr>state := (state s)\<lparr>pty_buffer := []\<rparr>,
          telemetry := (telemetry s)\<lparr>bytes_dropped := bytes_dropped (telemetry s)
             + word_of_nat (length (pty_buffer (state s)))\<rparr>,
          send := (send s)\<lparr>pending_atomic_refresh := True\<rparr>\<rparr>
      else s)"

text \<open>What a tick sends, if anything; the outer \<open>None\<close>: a panic aborts the process.\<close>

definition raw_data_opt ::
  "'vt vt100 \<Rightarrow> panic_strategy \<Rightarrow> 'vt session \<Rightarrow> (bytes option \<times> 'vt session) option" where
  "raw_data_opt V ps s =
     (let s = drop_overflow s in
      if tokens (send s) \<le> 0 then Some (None, s\<lparr>telemetry := skip_frame (telemetry s)\<rparr>)
      else if pending_atomic_refresh (send s) then
        (let s = s\<lparr>state := (state s)\<lparr>pty_buffer := []\<rparr>, send := (send s)\<lparr>pending_atomic_refresh := False\<rparr>\<rparr> in
         case generate_atomic_screen_frame V (screen_parser (state s)) of
           Some atomic_frame \<Rightarrow> Some (Some atomic_frame, s)
         | None \<Rightarrow>
             (case ps of
                Abort \<Rightarrow> None
              | Unwind \<Rightarrow> Some (None, s\<lparr>telemetry := skip_frame (telemetry s)\<rparr>)))
      else if pty_buffer (state s) = [] then Some (None, s)
      else
        (let raw_buf = pty_buffer (state s);
             split_point = find_safe_split_point raw_buf (as_usize (tokens (send s))) in
         if split_point > 0 then
           Some (Some (take split_point raw_buf),
                 s\<lparr>state := (state s)\<lparr>pty_buffer := drop split_point raw_buf\<rparr>\<rparr>)
         else Some (None, s\<lparr>telemetry := skip_frame (telemetry s)\<rparr>)))"

text \<open>Sending it: the bucket pays for the payload, not for the header.\<close>

definition send_frame :: "gz_encoder \<Rightarrow> bool \<Rightarrow> bytes \<Rightarrow> 'vt session \<Rightarrow> 'vt session" where
  "send_frame gz ok raw_data s =
     (let s = s\<lparr>send := (send s)\<lparr>seq := seq (send s) + 1\<rparr>\<rparr>;
          (payload, compressed) = compress_data gz raw_data;
          packet = ServerFrame (seq (send s)) payload compressed in
      if ok then
        s\<lparr>wire := wire s @ [packet], phase := AtTop,
          send := (send s)\<lparr>tokens := f64_sub (tokens (send s)) (f64_of_int (int (length payload)))\<rparr>,
          telemetry := (telemetry s)\<lparr>net_bytes_out := net_bytes_out (telemetry s) + word_of_nat (length payload),
             frames_sent := frames_sent (telemetry s) + 1\<rparr>\<rparr>
      else s\<lparr>phase := Finished\<rparr>)"

definition send_tick ::
  "'vt vt100 \<Rightarrow> gz_encoder \<Rightarrow> panic_strategy \<Rightarrow> u64 \<Rightarrow> int \<Rightarrow> bool \<Rightarrow> 'vt session \<Rightarrow> 'vt session option" where
  "send_tick V gz ps max_kbps now ok s =
     (let s = s\<lparr>send := refill max_kbps now (send s)\<rparr> in
      case raw_data_opt V ps s of
        None \<Rightarrow> None
      | Some (None, s) \<Rightarrow> Some (s\<lparr>phase := AtTop\<rparr>)
      | Some (Some raw_data, s) \<Rightarrow> Some (send_frame gz ok raw_data s))"

section \<open>The packet loop\<close>

definition resize_session :: "'vt vt100 \<Rightarrow> u16 \<Rightarrow> u16 \<Rightarrow> 'vt session \<Rightarrow> 'vt session" where
  "resize_session V rows cols s =
     (let rows = max rows 1; cols = max cols 1 in
      s\<lparr>pty_sizes := pty_sizes s @ [(rows, cols)],
        state := (state s)\<lparr>screen_parser := vt_new V rows cols 1000\<rparr>\<rparr>)"

definition handle_packet ::
  "'vt vt100 \<Rightarrow> rstring \<Rightarrow> u64 \<Rightarrow> packet io_result \<Rightarrow> 'vt session \<Rightarrow> 'vt session" where
  "handle_packet V expected_key now_ms packet_result s =
     (case packet_result of
        Inr (ClientHandshake session_key rows cols) \<Rightarrow>
          if session_key \<noteq> [] \<and> session_key \<noteq> expected_key then s\<lparr>loop_left := True\<rparr>
          else resize_session V rows cols s
      | Inr (ClientInput data) \<Rightarrow>
          s\<lparr>pty_input := snd (flush (snd (write_all (pty_input s) data)))\<rparr>
      | Inr (ClientResize rows cols) \<Rightarrow> resize_session V rows cols s
      | Inr (Ping timestamp) \<Rightarrow>
          s\<lparr>telemetry := (telemetry s)\<lparr>rtt_ms := saturating_sub now_ms timestamp\<rparr>\<rparr>
      | Inr _ \<Rightarrow> s
      | Inl e \<Rightarrow> s\<lparr>loop_left := True\<rparr>)"

section \<open>The session\<close>

text \<open>The clock is monotonic: a tick comes some number of nanoseconds after the previous one.\<close>

datatype event =
    PtyRead read_result
  | SendTop bool
  | Tick u64 bool
  | Received u64 "packet io_result"
  | Disconnected

text \<open>The session ends when the send task or the packet loop does.\<close>

definition session_over :: "'vt session \<Rightarrow> bool" where
  "session_over s \<longleftrightarrow> phase s = Finished \<or> loop_left s"

definition session_start :: "'vt vt100 \<Rightarrow> u64 \<Rightarrow> int \<Rightarrow> writer \<Rightarrow> 'vt session" where
  "session_start V max_kbps now pty =
     \<lparr>state = new_session_state V 24 80, telemetry = telemetry_default, pty_closed = False,
      send = send_task_start max_kbps now, phase = AtTop, wire = [], pty_input = pty,
      pty_sizes = [(24, 80)], loop_left = False\<rparr>"

text \<open>The send task of a session is spawned; whether its timer can be made shows when it first runs.\<close>

definition spawn_send_task :: "bool \<Rightarrow> 'vt session \<Rightarrow> 'vt session" where
  "spawn_send_task timer_ok s = s\<lparr>phase := if timer_ok then AtTop else TimerRefused\<rparr>"

text \<open>
  A task that is not ready for an event lets it pass. The PTY reader is a thread of its own and
  outlives the session. When the packet loop ends, the handle of the send task is dropped, which detaches
  the task: it goes on until the runtime is shut down. When the send task ends, the packet loop is dropped.
\<close>

definition session_step ::
  "'vt vt100 \<Rightarrow> gz_encoder \<Rightarrow> panic_strategy \<Rightarrow> u64 \<Rightarrow> rstring \<Rightarrow> 'vt session \<Rightarrow> event \<Rightarrow> 'vt session option" where
  "session_step V gz ps max_kbps expected_key s ev =
     (case ev of
        PtyRead r \<Rightarrow> pty_reader_step V ps s r
      | SendTop ok \<Rightarrow>
          if phase s = TimerRefused then timer_panic ps s
          else if phase s = AtTop then Some (send_top gz ok s) else Some s
      | Tick elapsed ok \<Rightarrow>
          if phase s = AwaitTick
          then send_tick V gz ps max_kbps (last_tick (send s) + uint elapsed) ok s else Some s
      | Received now_ms r \<Rightarrow>
          if session_over s then Some s else Some (handle_packet V expected_key now_ms r s)
      | Disconnected \<Rightarrow> if session_over s then Some s else Some (s\<lparr>loop_left := True\<rparr>))"

definition session_run ::
  "'vt vt100 \<Rightarrow> gz_encoder \<Rightarrow> panic_strategy \<Rightarrow> u64 \<Rightarrow> rstring \<Rightarrow> 'vt session \<Rightarrow> event list \<Rightarrow> 'vt session option" where
  "session_run V gz ps max_kbps expected_key s evs =
     run_steps (session_step V gz ps max_kbps expected_key) s evs"

end
