(* ===== verification/Session.thy ===== *)
theory Session
  imports Server
begin

text \<open>
  What a server session guarantees after any sequence of events: the screen bytes reach the wire
  complete and in order while nothing is reported dropped, the telemetry is accurate, the frames
  are numbered without gaps, typed input reaches the PTY in order, and overflow is answered by a
  refresh of the screen. The properties are invariants between the state and the history of events,
  through the interface \<open>history_invariant\<close>.
\<close>

section \<open>Histories\<close>

fun read_eof :: "read_result \<Rightarrow> bool" where
  "read_eof (ReadErr e) \<longleftrightarrow> True"
| "read_eof (Chunk c) \<longleftrightarrow> c = []"

fun read_bytes :: "read_result \<Rightarrow> bytes" where
  "read_bytes (ReadErr e) = []"
| "read_bytes (Chunk c) = c"

lemma read_eof_bytes [simp]: "read_eof r \<Longrightarrow> read_bytes r = []"
  by (cases r) auto

text \<open>The PTY has reported its end; what it gave before that.\<close>

fun ends_pty :: "event \<Rightarrow> bool" where
  "ends_pty (PtyRead r) \<longleftrightarrow> read_eof r"
| "ends_pty _ \<longleftrightarrow> False"

fun event_bytes :: "event \<Rightarrow> bytes" where
  "event_bytes (PtyRead r) = read_bytes r"
| "event_bytes _ = []"

definition pty_ended :: "event list \<Rightarrow> bool" where
  "pty_ended h \<longleftrightarrow> (\<exists>e \<in> set h. ends_pty e)"

definition pty_stream :: "event list \<Rightarrow> bytes" where
  "pty_stream h = concat (map event_bytes (takeWhile (\<lambda>e. \<not> ends_pty e) h))"

fun send_fails :: "event \<Rightarrow> bool" where
  "send_fails (SendTop ok) \<longleftrightarrow> \<not> ok"
| "send_fails (Tick n ok) \<longleftrightarrow> \<not> ok"
| "send_fails _ \<longleftrightarrow> False"

lemma pty_ended_snoc [simp]: "pty_ended (h @ [e]) \<longleftrightarrow> pty_ended h \<or> ends_pty e"
  by (auto simp: pty_ended_def)

lemma takeWhile_all: "\<forall>x \<in> set xs. P x \<Longrightarrow> takeWhile P xs = xs"
  by (simp add: takeWhile_eq_all_conv)

lemma pty_stream_snoc [simp]:
  "pty_stream (h @ [e]) = (if pty_ended h \<or> ends_pty e then pty_stream h else pty_stream h @ event_bytes e)"
proof (cases "pty_ended h")
  case True
  then show ?thesis by (auto simp: pty_stream_def pty_ended_def takeWhile_append1)
next
  case False
  then have t: "takeWhile (\<lambda>e. \<not> ends_pty e) h = h"
    by (intro takeWhile_all) (auto simp: pty_ended_def)
  with False show ?thesis
    by (simp add: pty_stream_def takeWhile_append pty_ended_def t)
qed

section \<open>Steps of a session\<close>

lemma session_step_PtyRead:
  assumes "session_step V gz ps kbps key s (PtyRead r) = Some s'"
  shows "send s' = send s" "phase s' = phase s" "wire s' = wire s" "pty_input s' = pty_input s"
    "pty_sizes s' = pty_sizes s" "loop_left s' = loop_left s" "pty_closed s' \<longleftrightarrow> pty_closed s \<or> read_eof r"
    "pty_buffer (state s') = pty_buffer (state s) @ (if pty_closed s then [] else read_bytes r)"
    "telemetry s' = (telemetry s)\<lparr>pty_bytes_in := pty_bytes_in (telemetry s) +
       word_of_nat (length (if pty_closed s then [] else read_bytes r))\<rparr>"
  using assms by (cases r; auto simp: session_step_def pty_reader_step_def Let_def split: option.splits if_splits)+

section \<open>Delivery\<close>

text \<open>The packets of a list of frame contents, numbered from 1.\<close>

definition frames :: "gz_encoder \<Rightarrow> bytes list \<Rightarrow> packet list" where
  "frames gz raws = map (\<lambda>(i, raw). case compress_data gz raw of (payload, compressed) \<Rightarrow>
     ServerFrame (word_of_nat i) payload compressed) (enumerate 1 raws)"

lemma frames_Nil [simp]: "frames gz [] = []"
  by (simp add: frames_def)

lemma frames_snoc:
  "frames gz (raws @ [raw]) = frames gz raws @
     [case compress_data gz raw of (payload, compressed) \<Rightarrow>
        ServerFrame (word_of_nat (length raws) + 1) payload compressed]"
  by (simp add: frames_def enumerate_append_eq add.commute split: prod.splits)

lemma length_frames [simp]: "length (frames gz raws) = length raws"
  by (simp add: frames_def)

lemma timer_panic_eq [simp]: "timer_panic ps s = Some s' \<longleftrightarrow> ps = Unwind \<and> s' = s\<lparr>phase := Finished\<rparr>"
  by (auto simp: timer_panic_def split: panic_strategy.splits)

definition delivery :: "gz_encoder \<Rightarrow> bytes \<Rightarrow> 'vt session \<Rightarrow> bytes list \<Rightarrow> nat \<Rightarrow> bool" where
  "delivery gz stream s raws d \<longleftrightarrow>
     wire s = frames gz raws \<and> seq (send s) = word_of_nat (length raws) \<and>
     bytes_dropped (telemetry s) = word_of_nat d \<and> d + length (pty_buffer (state s)) \<le> length stream \<and>
     (d = 0 \<longrightarrow> \<not> pending_atomic_refresh (send s) \<and> concat raws @ pty_buffer (state s) = stream)"

definition delivery_inv :: "gz_encoder \<Rightarrow> event list \<Rightarrow> 'vt session \<Rightarrow> bool" where
  "delivery_inv gz h s \<longleftrightarrow> pty_closed s = pty_ended h \<and> phase s \<noteq> TimerRefused \<and>
     (list_all (\<lambda>e. \<not> send_fails e) h \<longrightarrow>
        (\<exists>raws d. delivery gz (pty_stream h) s raws d) \<and>
        (phase s = Finished \<longrightarrow> pty_closed s \<and> pty_buffer (state s) = []))"

lemma delivery_dropped:
  assumes "delivery gz stream s raws d"
  shows "\<exists>d'. delivery gz stream (drop_overflow s) raws d' \<and>
    (pending_atomic_refresh (send (drop_overflow s)) \<longrightarrow> 0 < d')"
proof (cases "length (pty_buffer (state s)) > max_pty_buffer_cap")
  case True
  let ?d = "d + length (pty_buffer (state s))"
  have "0 < ?d" using True unfolding max_pty_buffer_cap_def by linarith
  then have "delivery gz stream (drop_overflow s) raws ?d"
    using assms True by (auto simp: delivery_def drop_overflow_def)
  with \<open>0 < ?d\<close> show ?thesis by blast
next
  case False
  then have "drop_overflow s = s" by (simp add: drop_overflow_def)
  with assms show ?thesis by (auto simp: delivery_def)
qed

lemma delivery_refill: "delivery gz stream (s\<lparr>send := refill kbps now (send s)\<rparr>) = delivery gz stream s"
  by (simp add: fun_eq_iff delivery_def refill_def Let_def)

lemma delivery_fields:
  "wire s' = wire s \<Longrightarrow> seq (send s') = seq (send s) \<Longrightarrow> state s' = state s \<Longrightarrow>
   bytes_dropped (telemetry s') = bytes_dropped (telemetry s) \<Longrightarrow>
   pending_atomic_refresh (send s') = pending_atomic_refresh (send s) \<Longrightarrow>
   delivery gz stream s' raws d = delivery gz stream s raws d"
  by (simp add: delivery_def)

lemma send_frame_delivery:
  assumes "delivery gz stream s raws d" "0 < d \<or> raw @ pty_buffer (state s') = pty_buffer (state s)"
    and "pty_buffer (state s') = drop n (pty_buffer (state s))"
    and "wire s' = wire s" "seq (send s') = seq (send s)" "telemetry s' = telemetry s"
    and "\<not> pending_atomic_refresh (send s')"
  shows "delivery gz stream (send_frame gz True raw s') (raws @ [raw]) d"
  using assms
  by (auto simp: delivery_def send_frame_def frames_snoc Let_def add.commute split: prod.splits)

lemma send_tick_delivery:
  assumes "delivery gz stream s raws d" "send_tick V gz ps kbps now True s = Some s'"
  shows "\<exists>raws d. delivery gz stream s' raws d"
proof -
  let ?s = "s\<lparr>send := refill kbps now (send s)\<rparr>"
  obtain d1 where d1: "delivery gz stream (drop_overflow ?s) raws d1"
      "pending_atomic_refresh (send (drop_overflow ?s)) \<longrightarrow> 0 < d1"
    using delivery_dropped [of gz stream ?s raws d] assms(1) by (auto simp: delivery_refill)
  from assms(2) consider (none) s1 where "raw_data_opt V ps ?s = Some (None, s1)" "s' = s1\<lparr>phase := AtTop\<rparr>"
    | (some) raw s1 where "raw_data_opt V ps ?s = Some (Some raw, s1)" "s' = send_frame gz True raw s1"
    by (auto simp: send_tick_def Let_def split: option.splits prod.splits)
  then show ?thesis
  proof cases
    case none
    have "delivery gz stream s1 raws d1"
      using none(1) d1
      by (auto simp: raw_data_opt_def Let_def skip_frame_def delivery_def
          split: if_splits option.splits panic_strategy.splits)
    with none show ?thesis by (auto simp: delivery_def)
  next
    case some
    note r = some(1) [unfolded raw_data_opt_def Let_def]
    have "delivery gz stream (send_frame gz True raw s1) (raws @ [raw]) d1"
    proof (cases "pending_atomic_refresh (send (drop_overflow ?s))")
      case True
      then have "s1 = (drop_overflow ?s)\<lparr>state := (state (drop_overflow ?s))\<lparr>pty_buffer := []\<rparr>,
          send := (send (drop_overflow ?s))\<lparr>pending_atomic_refresh := False\<rparr>\<rparr>"
        using r by (auto split: if_splits option.splits panic_strategy.splits)
      with True d1 show ?thesis
        by (intro send_frame_delivery [OF d1(1), where n = "length (pty_buffer (state (drop_overflow ?s)))"]) simp_all
    next
      case False
      then obtain n where "s1 = (drop_overflow ?s)\<lparr>state := (state (drop_overflow ?s))\<lparr>pty_buffer :=
            drop n (pty_buffer (state (drop_overflow ?s)))\<rparr>\<rparr>" "raw = take n (pty_buffer (state (drop_overflow ?s)))"
        using r by (auto split: if_splits option.splits panic_strategy.splits)
      with False show ?thesis
        by (intro send_frame_delivery [OF d1(1), where n = n]) simp_all
    qed
    with some show ?thesis by blast
  qed
qed

lemma send_top_delivery:
  assumes "delivery gz stream s raws d"
  shows "\<exists>raws d. delivery gz stream (send_top gz True s) raws d"
proof -
  have "delivery gz stream (send_top gz True s) (raws @ [pty_buffer (state s)]) d"
    if "pty_closed s" "pty_buffer (state s) \<noteq> []"
    using assms that
    by (auto simp: send_top_def delivery_def Let_def frames_snoc add.commute split: prod.splits)
  moreover have "delivery gz stream (send_top gz True s) raws d" if "\<not> (pty_closed s \<and> pty_buffer (state s) \<noteq> [])"
    using assms that by (auto simp: send_top_def delivery_def Let_def)
  ultimately show ?thesis by blast
qed

lemma raw_data_opt_fields:
  assumes "raw_data_opt V ps s = Some (r, s')"
  shows "pty_closed s' = pty_closed s \<and> phase s' = phase s \<and> wire s' = wire s \<and> loop_left s' = loop_left s \<and>
    pty_input s' = pty_input s \<and> pty_sizes s' = pty_sizes s \<and> tokens (send s') = tokens (send s) \<and>
    last_tick (send s') = last_tick (send s) \<and> seq (send s') = seq (send s) \<and>
    pty_bytes_in (telemetry s') = pty_bytes_in (telemetry s) \<and>
    net_bytes_out (telemetry s') = net_bytes_out (telemetry s) \<and>
    frames_sent (telemetry s') = frames_sent (telemetry s)"
  using assms
  by (auto simp: raw_data_opt_def drop_overflow_def Let_def skip_frame_def
      split: if_splits option.splits panic_strategy.splits)

lemma send_frame_fields:
  "pty_closed (send_frame gz ok raw s) = pty_closed s" "loop_left (send_frame gz ok raw s) = loop_left s"
  "pty_input (send_frame gz ok raw s) = pty_input s" "pty_sizes (send_frame gz ok raw s) = pty_sizes s"
  "last_tick (send (send_frame gz ok raw s)) = last_tick (send s)"
  "pty_bytes_in (telemetry (send_frame gz ok raw s)) = pty_bytes_in (telemetry s)"
  "phase (send_frame gz ok raw s) = (if ok then AtTop else Finished)"
  by (simp_all add: send_frame_def Let_def split: prod.splits)

text \<open>A tick sends nothing, or one frame.\<close>

lemma send_tick_cases:
  assumes "send_tick V gz ps kbps now ok s = Some s'"
  obtains (none) s1 where "raw_data_opt V ps (s\<lparr>send := refill kbps now (send s)\<rparr>) = Some (None, s1)"
      "s' = s1\<lparr>phase := AtTop\<rparr>"
    | (some) raw s1 where "raw_data_opt V ps (s\<lparr>send := refill kbps now (send s)\<rparr>) = Some (Some raw, s1)"
      "s' = send_frame gz ok raw s1"
  using assms by (auto simp: send_tick_def Let_def split: option.splits prod.splits)

lemma send_tick_fields:
  assumes "send_tick V gz ps kbps now ok s = Some s'"
  shows "pty_closed s' = pty_closed s \<and> loop_left s' = loop_left s \<and> pty_input s' = pty_input s \<and>
    pty_sizes s' = pty_sizes s \<and> last_tick (send s') = now \<and>
    pty_bytes_in (telemetry s') = pty_bytes_in (telemetry s) \<and>
    phase s' \<noteq> TimerRefused \<and> phase s' \<noteq> AwaitTick \<and> (phase s' = Finished \<longrightarrow> \<not> ok)"
  using assms
proof (cases rule: send_tick_cases)
  case none
  then show ?thesis using raw_data_opt_fields [OF none(1)] by (simp add: refill_def Let_def)
next
  case some
  then show ?thesis using raw_data_opt_fields [OF some(1)] by (simp add: refill_def Let_def send_frame_fields)
qed

lemma handle_packet_fields:
  "pty_closed (handle_packet V key now r s) = pty_closed s" "phase (handle_packet V key now r s) = phase s"
  "wire (handle_packet V key now r s) = wire s" "send (handle_packet V key now r s) = send s"
  "pty_buffer (state (handle_packet V key now r s)) = pty_buffer (state s)"
  "pty_bytes_in (telemetry (handle_packet V key now r s)) = pty_bytes_in (telemetry s)"
  "net_bytes_out (telemetry (handle_packet V key now r s)) = net_bytes_out (telemetry s)"
  "bytes_dropped (telemetry (handle_packet V key now r s)) = bytes_dropped (telemetry s)"
  "frames_sent (telemetry (handle_packet V key now r s)) = frames_sent (telemetry s)"
  by (auto simp: handle_packet_def resize_session_def Let_def split: sum.splits packet.splits)

lemma delivery_packet:
  "delivery gz stream (handle_packet V key now r s) raws d = delivery gz stream s raws d"
  by (simp add: delivery_def handle_packet_fields)

lemma delivery_inv_idle:
  "delivery_inv gz h s \<Longrightarrow> \<not> ends_pty e \<Longrightarrow> event_bytes e = [] \<Longrightarrow> delivery_inv gz (h @ [e]) s"
  by (simp add: delivery_inv_def) blast

interpretation delivered: history_invariant "session_step V gz ps kbps key" "session_start V kbps t0 pty"
    "delivery_inv gz" for V :: "'vt vt100" and gz ps kbps key t0 pty
proof unfold_locales
  have "delivery gz [] (session_start V kbps t0 pty) [] 0"
    by (simp add: delivery_def session_start_def new_session_state_def send_task_start_def telemetry_default_def)
  then show "delivery_inv gz [] (session_start V kbps t0 pty)"
    by (auto simp: delivery_inv_def pty_ended_def pty_stream_def session_start_def)
next
  fix h and s s' :: "'vt session" and e
  assume inv: "delivery_inv gz h s" and step: "session_step V gz ps kbps key s e = Some s'"
  show "delivery_inv gz (h @ [e]) s'"
  proof (cases e)
    case (PtyRead r)
    note f = session_step_PtyRead [OF step [unfolded PtyRead]]
    have "delivery gz (pty_stream (h @ [e])) s' raws d" if "delivery gz (pty_stream h) s raws d" for raws d
    proof -
      have "pty_closed s = pty_ended h" using inv by (simp add: delivery_inv_def)
      with that f PtyRead show ?thesis by (auto simp: delivery_def)
    qed
    then show ?thesis
      using inv f PtyRead by (auto simp: delivery_inv_def) blast+
  next
    case (SendTop ok)
    show ?thesis
    proof (cases "phase s = AtTop")
      case True
      then have s': "s' = send_top gz ok s" using step SendTop by (simp add: session_step_def)
      have "pty_closed s' = pty_closed s" "phase s' \<noteq> TimerRefused"
          "phase s' = Finished \<longrightarrow> pty_closed s \<and> pty_buffer (state s') = []"
        unfolding s' by (simp_all add: send_top_def Let_def split: prod.splits)
      then show ?thesis
        using inv SendTop send_top_delivery [of gz "pty_stream h" s] s' by (auto simp: delivery_inv_def)
    next
      case False
      then show ?thesis
        using delivery_inv_idle [OF inv, of e] step SendTop inv
        by (simp add: session_step_def delivery_inv_def [of gz h] split: if_splits)
    qed
  next
    case (Tick n ok)
    show ?thesis
    proof (cases "phase s = AwaitTick")
      case True
      then have t: "send_tick V gz ps kbps (last_tick (send s) + uint n) ok s = Some s'"
        using step Tick by (simp add: session_step_def)
      show ?thesis
        using inv Tick t send_tick_fields [OF t] send_tick_delivery [of gz "pty_stream h" s]
        by (auto simp: delivery_inv_def)
    next
      case False
      then show ?thesis
        using delivery_inv_idle [OF inv, of e] step Tick by (simp add: session_step_def split: if_splits)
    qed
  next
    case (Received now r)
    have "delivery_inv gz h (handle_packet V key now r s)"
      using inv unfolding delivery_inv_def delivery_packet handle_packet_fields .
    then have "delivery_inv gz (h @ [e]) (handle_packet V key now r s)"
      using delivery_inv_idle Received by fastforce
    with Received show ?thesis
      using delivery_inv_idle [OF inv, of e] step by (simp add: session_step_def split: if_splits)
  next
    case Disconnected
    have "delivery_inv gz h (s\<lparr>loop_left := True\<rparr>)"
      using inv by (simp add: delivery_inv_def delivery_def) blast
    then have "delivery_inv gz (h @ [e]) (s\<lparr>loop_left := True\<rparr>)"
      using delivery_inv_idle Disconnected by fastforce
    with Disconnected show ?thesis
      using delivery_inv_idle [OF inv, of e] step by (simp add: session_step_def split: if_splits)
  qed
qed

section \<open>The screen stream\<close>

lemma screen_bytes_frames:
  assumes gzip: "\<And>d c. gz d = Some c \<Longrightarrow> gunzip c = Inr d"
  shows "screen_bytes gunzip (frames gz raws) = concat raws"
proof (induction raws rule: rev_induct)
  case (snoc raw raws)
  then show ?case
    using gzip by (auto simp: frames_snoc screen_bytes_def compress_data_def decompress_data_def split: option.splits)
qed (simp add: screen_bytes_def)

fun frame_seq :: "packet \<Rightarrow> u64" where
  "frame_seq (ServerFrame n data compressed) = n"
| "frame_seq _ = 0"

lemma map_enumerate_fst: "map (f \<circ> fst) (enumerate n xs) = map f [n..<n + length xs]"
  by (simp add: enumerate_eq_zip flip: map_map)

lemma frame_seq_frames: "map frame_seq (frames gz raws) = map word_of_nat [1..<Suc (length raws)]"
proof -
  have "map frame_seq (frames gz raws) = map (word_of_nat \<circ> fst) (enumerate 1 raws)"
    by (auto simp: frames_def split: prod.splits)
  then show ?thesis by (simp add: map_enumerate_fst)
qed

lemma session_delivery:
  assumes "session_run V gz ps kbps key (session_start V kbps t0 pty) evs = Some s"
    and "\<forall>e \<in> set evs. \<not> send_fails e"
  shows "\<exists>raws d. delivery gz (pty_stream evs) s raws d"
    and "phase s = Finished \<Longrightarrow> pty_closed s \<and> pty_buffer (state s) = []"
  using delivered.run_history [OF assms(1) [unfolded session_run_def]] assms(2)
  by (auto simp: delivery_inv_def list_all_iff)

lemma delivered_bytes:
  assumes gzip: "\<And>d c. gz d = Some c \<Longrightarrow> gunzip c = Inr d"
    and run: "session_run V gz ps kbps key (session_start V kbps t0 pty) evs = Some s"
    and sends: "\<forall>e \<in> set evs. \<not> send_fails e"
    and size: "length (pty_stream evs) < 2 ^ 64"
    and dropped: "bytes_dropped (telemetry s) = 0"
  shows "screen_bytes gunzip (wire s) @ pty_buffer (state s) = pty_stream evs"
proof -
  obtain raws d where d: "delivery gz (pty_stream evs) s raws d"
    using session_delivery(1) [OF run sends] by blast
  then have "(word_of_nat d :: u64) = 0" "d < 2 ^ 64"
    using size dropped by (auto simp: delivery_def)
  then have "d = 0"
    using word_of_nat_eq_0_iff [of d, where ?'a = 64] by (auto dest: nat_dvd_not_less)
  with d show ?thesis
    by (simp add: delivery_def screen_bytes_frames [OF gzip])
qed

lemma frames_ok:
  assumes "\<forall>raw \<in> set raws. length raw < 2 ^ 31"
  shows "list_all frame_ok (frames gz raws)"
  using assms
proof (induction raws rule: rev_induct)
  case (snoc raw raws)
  have "length (fst (compress_data gz raw)) < 2 ^ 31"
    using snoc.prems compress_length [of gz raw] by simp
  with snoc show ?case
    by (cases "compress_data gz raw") (simp add: frames_snoc frame_ok_def wire_simps)
qed simp

lemma session_frames_ok:
  assumes run: "session_run V gz ps kbps key (session_start V kbps t0 pty) evs = Some s"
    and sends: "\<forall>e \<in> set evs. \<not> send_fails e"
    and dropped: "bytes_dropped (telemetry s) = 0"
    and size: "length (pty_stream evs) < 2 ^ 31"
  shows "list_all frame_ok (wire s)"
proof -
  obtain raws d where d: "delivery gz (pty_stream evs) s raws d"
    using session_delivery(1) [OF run sends] by blast
  then have "d = 0"
    using size dropped word_of_nat_eq_0_iff [of d, where ?'a = 64]
    by (auto simp: delivery_def dest: nat_dvd_not_less)
  with d have c: "concat raws @ pty_buffer (state s) = pty_stream evs" "wire s = frames gz raws"
    by (simp_all add: delivery_def)
  have "length raw < 2 ^ 31" if "raw \<in> set raws" for raw
  proof -
    have "length raw \<le> length (concat raws)"
      using that by (simp add: length_concat member_le_sum_list)
    also have "\<dots> \<le> length (pty_stream evs)" by (simp flip: c(1))
    finally show ?thesis using size by simp
  qed
  then show ?thesis by (simp add: c(2) frames_ok)
qed

text \<open>
  The server loses and reorders nothing while it reports nothing dropped: after any
  interleaving of PTY output, timer ticks and client packets in which no send fails, the
  decompressed frames on the wire followed by the buffer are exactly what the PTY has written.
\<close>
theorem screen_stream_delivered:
  assumes gzip: "\<And>d c. gz d = Some c \<Longrightarrow> gunzip c = Inr d"
    and run: "session_run V gz ps kbps key (session_start V kbps t0 pty) evs = Some s"
    and sends: "\<forall>e \<in> set evs. \<not> send_fails e"
    and size: "length (pty_stream evs) < 2 ^ 64"
    and dropped: "bytes_dropped (telemetry s) = 0"
  shows "screen_bytes gunzip (wire s) @ pty_buffer (state s) = pty_stream evs"
  by (rule delivered_bytes [OF assms])

text \<open>
  The frames on the wire carry the sequence numbers 1, 2, 3, \<dots> without gap or repetition
  (modulo \<open>2 ^ 64\<close>), the final flush included, as long as no send fails.
\<close>
theorem frames_numbered_consecutively:
  assumes "session_run V gz ps kbps key (session_start V kbps t0 pty) evs = Some s"
    and "\<forall>e \<in> set evs. \<not> send_fails e"
  shows "map frame_seq (wire s) = map word_of_nat [1..<Suc (length (wire s))]"
proof -
  obtain raws where "wire s = frames gz raws"
    using session_delivery(1) [OF assms] by (auto simp: delivery_def)
  then show ?thesis by (simp only: frame_seq_frames length_frames)
qed

definition example_run :: "line_vt session" where
  "example_run =
     \<lparr>state = \<lparr>screen_parser = \<lparr>ln_rows = 24, ln_cols = 80, ln_text = [104, 105]\<rparr>, pty_buffer = []\<rparr>,
      telemetry = \<lparr>pty_bytes_in = 2, net_bytes_out = 2, bytes_dropped = 0, frames_sent = 1,
        frames_skipped = 0, rtt_ms = 0\<rparr>,
      pty_closed = False,
      send = \<lparr>tokens = 4094, seq = 1, last_tick = 20000000, pending_atomic_refresh = False\<rparr>,
      phase = AtTop, wire = [ServerFrame 1 [104, 105] False], pty_input = sink [],
      pty_sizes = [(24, 80)], loop_left = False\<rparr>"

lemma example_numbers:
  "send_task_start 8 0 = \<lparr>tokens = 4096, seq = 0, last_tick = 0, pending_atomic_refresh = False\<rparr>"
  "refill 8 20000000 \<lparr>tokens = 4096, seq = 0, last_tick = 0, pending_atomic_refresh = False\<rparr> =
     \<lparr>tokens = 4096, seq = 0, last_tick = 20000000, pending_atomic_refresh = False\<rparr>"
  "as_usize 4096 = 4096" "f64_sub 4096 (f64_of_int 2) = 4094"
  by (code_simp, code_simp, simp add: as_usize_def, code_simp)

lemma example_run:
  "session_run line_vt100 run_gz Unwind 8 [] (session_start line_vt100 8 0 (sink []))
     [PtyRead (Chunk [104, 105]), SendTop True, Tick 20000000 True] = Some example_run"
  by (simp add: session_run_def session_step_def session_start_def pty_reader_step_def new_session_state_def
      telemetry_default_def process_safely_def line_vt100_def send_top_def session_over_def send_tick_def
      raw_data_opt_def drop_overflow_def max_pty_buffer_cap_def find_safe_split_point_def send_frame_def
      compress_data_def Let_def example_numbers example_run_def)

theorem screen_stream_delivered_witness:
  "session_run line_vt100 run_gz Unwind 8 [] (session_start line_vt100 8 0 (sink []))
     [PtyRead (Chunk [104, 105]), SendTop True, Tick 20000000 True] = Some example_run \<and>
   screen_bytes run_gunzip (wire example_run) @ pty_buffer (state example_run) =
     pty_stream [PtyRead (Chunk [104, 105]), SendTop True, Tick 20000000 True]"
proof
  show "screen_bytes run_gunzip (wire example_run) @ pty_buffer (state example_run) =
     pty_stream [PtyRead (Chunk [104, 105]), SendTop True, Tick 20000000 True]"
    by (rule screen_stream_delivered [OF run_gzip example_run])
      (simp_all add: example_run_def pty_stream_def)
qed (rule example_run)

theorem frames_numbered_consecutively_witness:
  "session_run line_vt100 run_gz Unwind 8 [] (session_start line_vt100 8 0 (sink []))
     [PtyRead (Chunk [104, 105]), SendTop True, Tick 20000000 True] = Some example_run \<and>
   map frame_seq (wire example_run) = map word_of_nat [1..<Suc (length (wire example_run))]"
proof
  show "map frame_seq (wire example_run) = map word_of_nat [1..<Suc (length (wire example_run))]"
    by (rule frames_numbered_consecutively [OF example_run]) simp
qed (rule example_run)

text \<open>
  C8. Once the PTY has closed, the server sends everything it still holds and ends the session, in
  whatever state the send task is (a process that aborts on panics aside): then the frames on the
  wire are all the PTY ever wrote, when nothing is reported dropped.
\<close>
theorem closed_pty_fully_delivered:
  assumes gzip: "\<And>d c. gz d = Some c \<Longrightarrow> gunzip c = Inr d"
    and run: "session_run V gz Unwind kbps key (session_start V kbps t0 pty) evs = Some s"
    and sends: "\<forall>e \<in> set evs. \<not> send_fails e"
    and size: "length (pty_stream evs) < 2 ^ 64"
    and closed: "pty_closed s" "\<not> loop_left s"
  shows "\<exists>s'. session_run V gz Unwind kbps key s [SendTop True, Tick n True, SendTop True] = Some s' \<and>
    phase s' = Finished \<and> pty_buffer (state s') = [] \<and>
    (bytes_dropped (telemetry s') = 0 \<longrightarrow> screen_bytes gunzip (wire s') = pty_stream evs)"
proof -
  let ?es = "[SendTop True, Tick n True, SendTop True]"
  have tick: "\<exists>s'. send_tick V gz Unwind kbps now True s = Some s'" for now
  proof -
    obtain r s1 where "raw_data_opt V Unwind (s\<lparr>send := refill kbps now (send s)\<rparr>) = Some (r, s1)"
      by (cases "raw_data_opt V Unwind (s\<lparr>send := refill kbps now (send s)\<rparr>)")
        (auto simp: raw_data_opt_def Let_def split: if_splits option.splits)
    then show ?thesis by (cases r) (simp_all add: send_tick_def)
  qed
  have top: "phase (send_top gz True s1) = Finished" if "pty_closed s1" for s1 :: "'a session"
    using that by (simp add: send_top_def Let_def split: prod.splits)
  obtain s' where s': "session_run V gz Unwind kbps key s ?es = Some s'" "phase s' = Finished"
  proof (cases "phase s")
    case TimerRefused
    then show ?thesis
      using delivered.run_history [OF run [unfolded session_run_def]] by (simp add: delivery_inv_def)
  next
    case AtTop
    with closed that top [of s] show ?thesis
      by (simp add: session_run_def session_step_def session_over_def)
  next
    case AwaitTick
    obtain s1 where t: "send_tick V gz Unwind kbps (last_tick (send s) + uint n) True s = Some s1"
      using tick by blast
    have "phase s1 = AtTop" "pty_closed s1" "\<not> loop_left s1"
      using send_tick_fields [OF t] closed by (cases "phase s1"; simp)+
    with AwaitTick closed t that top [of s1] show ?thesis
      by (simp add: session_run_def session_step_def session_over_def)
  next
    case Finished
    with that show ?thesis by (simp add: session_run_def session_step_def session_over_def)
  qed
  have run': "session_run V gz Unwind kbps key (session_start V kbps t0 pty) (evs @ ?es) = Some s'"
    using run s' by (simp add: session_run_def run_steps_append)
  have ended: "pty_ended evs"
    using delivered.run_history [OF run [unfolded session_run_def]] closed by (simp add: delivery_inv_def)
  have stream: "pty_stream (evs @ ?es) = pty_stream evs"
    using ended pty_stream_snoc [of evs "SendTop True"] pty_stream_snoc [of "evs @ [SendTop True]" "Tick n True"]
      pty_stream_snoc [of "evs @ [SendTop True, Tick n True]" "SendTop True"] by simp
  have ok: "\<forall>e \<in> set (evs @ ?es). \<not> send_fails e" using sends by auto
  have b: "pty_buffer (state s') = []"
    using session_delivery(2) [OF run' ok] s'(2) by blast
  have "screen_bytes gunzip (wire s') = pty_stream evs" if "bytes_dropped (telemetry s') = 0"
    using delivered_bytes [OF gzip run' ok _ that] size by (simp add: stream b)
  with s' b show ?thesis by blast
qed

theorem closed_pty_fully_delivered_witness:
  "\<exists>s s'. session_run line_vt100 run_gz Unwind 8 [] (session_start line_vt100 8 0 (sink []))
      [PtyRead (Chunk [104, 105]), PtyRead (Chunk [])] = Some s \<and>
    session_run line_vt100 run_gz Unwind 8 [] s [SendTop True, Tick 1 True, SendTop True] = Some s' \<and>
    phase s' = Finished \<and> pty_buffer (state s') = []"
proof -
  let ?evs = "[PtyRead (Chunk [104, 105]), PtyRead (Chunk [])]"
  obtain s where s: "session_run line_vt100 run_gz Unwind 8 [] (session_start line_vt100 8 0 (sink [])) ?evs = Some s"
    "pty_closed s" "\<not> loop_left s"
    by (simp add: session_run_def session_step_def session_start_def pty_reader_step_def process_safely_def
        line_vt100_def new_session_state_def Let_def)
  show ?thesis
    using closed_pty_fully_delivered [where n = 1, OF run_gzip s(1) _ _ s(2,3)] s(1)
    by (auto simp: pty_stream_def)
qed

section \<open>Telemetry\<close>

fun payload_len :: "packet \<Rightarrow> nat" where
  "payload_len (ServerFrame n data compressed) = length data"
| "payload_len _ = 0"

definition telemetry_inv :: "event list \<Rightarrow> 'vt session \<Rightarrow> bool" where
  "telemetry_inv h s \<longleftrightarrow> pty_closed s = pty_ended h \<and>
     pty_bytes_in (telemetry s) = word_of_nat (length (pty_stream h)) \<and>
     (phase s \<noteq> Finished \<longrightarrow>
        net_bytes_out (telemetry s) = word_of_nat (sum_list (map payload_len (wire s))) \<and>
        frames_sent (telemetry s) = word_of_nat (length (wire s)))"

lemma send_frame_telemetry:
  "payload_len (last (wire (send_frame gz True raw s))) = length (fst (compress_data gz raw))"
  "wire (send_frame gz ok raw s) = (if ok then wire s @ [ServerFrame (seq (send s) + 1) (fst (compress_data gz raw))
      (snd (compress_data gz raw))] else wire s)"
  "net_bytes_out (telemetry (send_frame gz True raw s)) =
     net_bytes_out (telemetry s) + word_of_nat (length (fst (compress_data gz raw)))"
  "frames_sent (telemetry (send_frame gz True raw s)) = frames_sent (telemetry s) + 1"
  by (simp_all add: send_frame_def Let_def split: prod.splits)

lemma send_tick_telemetry:
  assumes "send_tick V gz ps kbps now ok s = Some s'" "telemetry_inv h s" "phase s \<noteq> Finished"
  shows "telemetry_inv h s'"
  using assms(1)
proof (cases rule: send_tick_cases)
  case none
  then show ?thesis
    using raw_data_opt_fields [OF none(1)] assms(2,3) by (simp add: telemetry_inv_def)
next
  case some
  then show ?thesis
    using raw_data_opt_fields [OF some(1)] assms(2,3)
    by (cases ok) (simp_all add: telemetry_inv_def send_frame_fields send_frame_telemetry)
qed

lemma telemetry_inv_idle:
  "telemetry_inv h s \<Longrightarrow> \<not> ends_pty e \<Longrightarrow> event_bytes e = [] \<Longrightarrow> telemetry_inv (h @ [e]) s"
  by (simp add: telemetry_inv_def)

interpretation counted: history_invariant "session_step V gz ps kbps key" "session_start V kbps t0 pty"
    telemetry_inv for V :: "'vt vt100" and gz ps kbps key t0 pty
proof unfold_locales
  show "telemetry_inv [] (session_start V kbps t0 pty)"
    by (simp add: telemetry_inv_def session_start_def telemetry_default_def pty_stream_def pty_ended_def)
next
  fix h and s s' :: "'vt session" and e
  assume inv: "telemetry_inv h s" and step: "session_step V gz ps kbps key s e = Some s'"
  show "telemetry_inv (h @ [e]) s'"
  proof (cases e)
    case (PtyRead r)
    then show ?thesis
      using inv session_step_PtyRead [OF step [unfolded PtyRead]] by (auto simp: telemetry_inv_def)
  next
    case (SendTop ok)
    have "telemetry_inv h (send_top gz ok s)" if "phase s = AtTop"
      using inv that by (auto simp: telemetry_inv_def send_top_def Let_def split: prod.splits)
    moreover have "telemetry_inv h (s\<lparr>phase := Finished\<rparr>)"
      using inv by (simp add: telemetry_inv_def)
    ultimately show ?thesis
      using telemetry_inv_idle [of h _ e] inv step SendTop by (auto simp: session_step_def split: if_splits)
  next
    case (Tick n ok)
    then have "telemetry_inv h s'"
      using step inv send_tick_telemetry [OF _ inv] by (auto simp: session_step_def split: if_splits)
    with Tick show ?thesis
      using telemetry_inv_idle [of h s' e] by simp
  next
    case (Received now r)
    then have "telemetry_inv h s'"
      using step inv by (auto simp: session_step_def telemetry_inv_def handle_packet_fields split: if_splits)
    with Received show ?thesis
      using telemetry_inv_idle [of h s' e] by simp
  next
    case Disconnected
    then have "telemetry_inv h s'"
      using step inv by (auto simp: session_step_def telemetry_inv_def split: if_splits)
    with Disconnected show ?thesis
      using telemetry_inv_idle [of h s' e] by simp
  qed
qed

text \<open>
  C11. The telemetry of a session is exact (modulo \<open>2 ^ 64\<close>): the counter of PTY bytes is the
  length of what the PTY wrote and, until the send task has finished, the counters of network
  bytes and of frames are the payload bytes and the number of the frames on the wire.
\<close>
theorem telemetry_exact:
  assumes "session_run V gz ps kbps key (session_start V kbps t0 pty) evs = Some s"
  shows "pty_bytes_in (telemetry s) = word_of_nat (length (pty_stream evs)) \<and>
    (phase s \<noteq> Finished \<longrightarrow>
       net_bytes_out (telemetry s) = word_of_nat (sum_list (map payload_len (wire s))) \<and>
       frames_sent (telemetry s) = word_of_nat (length (wire s)))"
  using counted.run_history [OF assms [unfolded session_run_def]] by (simp add: telemetry_inv_def)

theorem telemetry_exact_witness:
  "session_run line_vt100 run_gz Unwind 8 [] (session_start line_vt100 8 0 (sink []))
     [PtyRead (Chunk [104, 105]), SendTop True, Tick 20000000 True] = Some example_run \<and>
   frames_sent (telemetry example_run) = word_of_nat (length (wire example_run))"
  using telemetry_exact [OF example_run] example_run by (simp add: example_run_def)

text \<open>Frames on the wire stay there, and a finished send task stays finished.\<close>

lemma session_step_wire:
  assumes "session_step V gz ps kbps key s e = Some s'"
  shows "prefix (wire s) (wire s') \<and> (phase s = Finished \<longrightarrow> phase s' = Finished)"
proof (cases e)
  case (PtyRead r)
  then show ?thesis using session_step_PtyRead [OF assms [unfolded PtyRead]] by simp
next
  case (SendTop ok)
  then show ?thesis
    using assms by (auto simp: session_step_def send_top_def Let_def split: if_splits prod.splits)
next
  case (Tick n ok)
  have "prefix (wire s) (wire s')" if t: "send_tick V gz ps kbps now ok s = Some s'" for now
    using t
  proof (cases rule: send_tick_cases)
    case none
    then show ?thesis using raw_data_opt_fields [OF none(1)] by simp
  next
    case some
    then show ?thesis using raw_data_opt_fields [OF some(1)] by (simp add: send_frame_telemetry)
  qed
  with Tick show ?thesis
    using assms by (auto simp: session_step_def session_over_def split: if_splits)
next
  case (Received now r)
  then show ?thesis using assms by (auto simp: session_step_def handle_packet_fields split: if_splits)
next
  case Disconnected
  then show ?thesis using assms by (auto simp: session_step_def split: if_splits)
qed

lemma session_run_wire:
  "session_run V gz ps kbps key s evs = Some s' \<Longrightarrow>
   prefix (wire s) (wire s') \<and> (phase s = Finished \<longrightarrow> phase s' = Finished)"
proof (induction evs arbitrary: s)
  case (Cons e evs)
  then obtain s1 where "session_step V gz ps kbps key s e = Some s1" "session_run V gz ps kbps key s1 evs = Some s'"
    by (auto simp: session_run_def bind_eq_Some_conv)
  with Cons.IH [of s1] session_step_wire show ?case by (metis prefix_order.trans)
qed (simp add: session_run_def)

lemma pty_stream_append: "prefix (pty_stream h) (pty_stream (h @ k))"
proof (induction k rule: rev_induct)
  case (snoc e k)
  then show ?case
    using pty_stream_snoc [of "h @ k" e] by (auto simp: prefix_prefix)
qed simp

lemma session_counters:
  assumes "session_run V gz ps kbps key (session_start V kbps t0 pty) evs = Some s"
  shows "pty_bytes_in (telemetry s) = word_of_nat (length (pty_stream evs))"
    and "phase s \<noteq> Finished \<Longrightarrow> net_bytes_out (telemetry s) = word_of_nat (sum_list (map payload_len (wire s)))"
  using counted.run_history [OF assms [unfolded session_run_def]] by (simp_all add: telemetry_inv_def)

section \<open>Input and sizes\<close>

fun typed :: "event \<Rightarrow> bytes" where
  "typed (Received now (Inr (ClientInput data))) = data"
| "typed _ = []"

text \<open>The packets a session has been handed.\<close>

fun received_packet :: "event \<Rightarrow> packet list" where
  "received_packet (Received now (Inr p)) = [p]"
| "received_packet _ = []"

definition received :: "event list \<Rightarrow> packet list" where
  "received h = concat (map received_packet h)"

definition typed_inv :: "event list \<Rightarrow> 'vt session \<Rightarrow> bool" where
  "typed_inv h s \<longleftrightarrow> (\<not> session_over s \<longrightarrow> pty_input s = sink (concat (map typed h)))"

lemma handle_packet_input:
  "pty_input (handle_packet V key now r s) =
     (case r of Inr (ClientInput d) \<Rightarrow> snd (write_all (pty_input s) d) | _ \<Rightarrow> pty_input s)"
  by (auto simp: handle_packet_def resize_session_def Let_def split: sum.splits packet.splits)

lemma send_top_fields:
  "pty_input (send_top gz ok s) = pty_input s" "loop_left (send_top gz ok s) = loop_left s"
  "pty_sizes (send_top gz ok s) = pty_sizes s" "screen_parser (state (send_top gz ok s)) = screen_parser (state s)"
  "send (send_top gz ok s) = (send s)\<lparr>seq := seq (send (send_top gz ok s))\<rparr>"
  by (simp_all add: send_top_def Let_def split: prod.splits)

interpretation typing: history_invariant "session_step V gz ps kbps key" "session_start V kbps t0 (sink [])"
    typed_inv for V :: "'vt vt100" and gz ps kbps key t0
proof unfold_locales
  show "typed_inv [] (session_start V kbps t0 (sink []))"
    by (simp add: typed_inv_def session_start_def)
next
  fix h and s s' :: "'vt session" and e
  assume inv: "typed_inv h s" and step: "session_step V gz ps kbps key s e = Some s'"
  show "typed_inv (h @ [e]) s'"
  proof (cases e)
    case (PtyRead r)
    then show ?thesis
      using inv session_step_PtyRead [OF step [unfolded PtyRead]] by (simp add: typed_inv_def session_over_def)
  next
    case (SendTop ok)
    then show ?thesis
      using inv step by (auto simp: session_step_def typed_inv_def session_over_def send_top_fields split: if_splits)
  next
    case (Tick n ok)
    then show ?thesis
      using inv step
      by (auto simp: session_step_def typed_inv_def session_over_def split: if_splits dest!: send_tick_fields)
  next
    case (Received now r)
    then show ?thesis
      using inv step
      by (cases r; cases "projr r")
        (auto simp: session_step_def typed_inv_def session_over_def handle_packet_input handle_packet_fields split: if_splits)
  next
    case Disconnected
    then show ?thesis
      using inv step by (auto simp: session_step_def typed_inv_def session_over_def split: if_splits)
  qed
qed

lemma session_typed:
  assumes "session_run V gz ps kbps key (session_start V kbps t0 (sink [])) evs = Some s" "\<not> session_over s"
  shows "wr_out (pty_input s) = concat (map typed evs)"
  using typing.run_history [OF assms(1) [unfolded session_run_def]] assms(2) by (simp add: typed_inv_def)

text \<open>
  Keystrokes reach the shell complete and in order: while the session lasts, what has been
  written to the PTY is the concatenation of the input packets received, whatever output, timer
  ticks and other packets came in between.
\<close>
theorem typed_input_reaches_pty:
  assumes "session_run V gz ps kbps key (session_start V kbps t0 (sink [])) evs = Some s" "\<not> session_over s"
  shows "wr_out (pty_input s) = concat (map typed evs)"
  by (rule session_typed [OF assms])

theorem typed_input_reaches_pty_witness:
  "\<exists>s. session_run line_vt100 run_gz Unwind 8 [] (session_start line_vt100 8 0 (sink []))
      [Received 0 (Inr (ClientInput [108])), SendTop True, Received 0 (Inr (ClientInput [115, 10]))] = Some s \<and>
    wr_out (pty_input s) = [108, 115, 10]"
proof -
  let ?evs = "[Received 0 (Inr (ClientInput [108])), SendTop True, Received 0 (Inr (ClientInput [115, 10]))]"
  obtain s where s: "session_run line_vt100 run_gz Unwind 8 [] (session_start line_vt100 8 0 (sink [])) ?evs = Some s"
    "\<not> session_over s"
    by (simp add: session_run_def session_step_def session_start_def session_over_def handle_packet_def send_top_def)
  with typed_input_reaches_pty [OF s] show ?thesis by auto
qed

section \<open>Refinement of a byte pipe\<close>

text \<open>
  What a session promises its client, without threads, timers, tokens or packets: a first-in first-out
  pipe. Writing appends to the queue, reading moves bytes from its head to the delivered stream.
\<close>

record pipe =
  taken :: bytes
  queued :: bytes

definition pipe_write :: "bytes \<Rightarrow> pipe \<Rightarrow> pipe" where
  "pipe_write bs p = p\<lparr>queued := queued p @ bs\<rparr>"

definition pipe_read :: "nat \<Rightarrow> pipe \<Rightarrow> pipe" where
  "pipe_read n p = \<lparr>taken = taken p @ take n (queued p), queued = drop n (queued p)\<rparr>"

definition pipe_of :: "gz_decoder \<Rightarrow> 'vt session \<Rightarrow> pipe" where
  "pipe_of gunzip s = \<lparr>taken = screen_bytes gunzip (wire s), queued = pty_buffer (state s)\<rparr>"

lemma pipe_of_idle:
  "wire s' = wire s \<Longrightarrow> pty_buffer (state s') = pty_buffer (state s) \<Longrightarrow> pipe_of g s' = pipe_read 0 (pipe_of g s)"
  by (simp add: pipe_of_def pipe_read_def)

lemma frame_bytes_compressed:
  assumes gzip: "\<And>d c. gz d = Some c \<Longrightarrow> gunzip c = Inr d"
  shows "frame_bytes gunzip (ServerFrame n (fst (compress_data gz raw)) (snd (compress_data gz raw))) = raw"
  using gzip by (auto simp: compress_data_def decompress_data_def split: option.splits)

lemma send_top_reads:
  assumes gzip: "\<And>d c. gz d = Some c \<Longrightarrow> gunzip c = Inr d"
  shows "\<exists>n. pipe_of gunzip (send_top gz True s) = pipe_read n (pipe_of gunzip s)"
proof (cases "pty_closed s \<and> pty_buffer (state s) \<noteq> []")
  case True
  then have "pipe_of gunzip (send_top gz True s) = pipe_read (length (pty_buffer (state s))) (pipe_of gunzip s)"
    using frame_bytes_compressed [where gz = gz and gunzip = gunzip and raw = "pty_buffer (state s)", OF gzip]
    by (auto simp: send_top_def pipe_of_def pipe_read_def screen_bytes_def Let_def split: prod.splits)
  then show ?thesis ..
next
  case False
  then have "wire (send_top gz True s) = wire s" "pty_buffer (state (send_top gz True s)) = pty_buffer (state s)"
    by (auto simp: send_top_def Let_def)
  from pipe_of_idle [OF this] show ?thesis by blast
qed

lemma send_tick_reads:
  assumes gzip: "\<And>d c. gz d = Some c \<Longrightarrow> gunzip c = Inr d"
    and calm: "length (pty_buffer (state s)) \<le> 16384" "\<not> pending_atomic_refresh (send s)"
    and tick: "send_tick V gz ps kbps now True s = Some s'"
  shows "(\<exists>n. pipe_of gunzip s' = pipe_read n (pipe_of gunzip s)) \<and> \<not> pending_atomic_refresh (send s')"
proof -
  let ?s = "s\<lparr>send := refill kbps now (send s)\<rparr>"
  have d: "drop_overflow ?s = ?s" "\<not> pending_atomic_refresh (send ?s)"
    using calm by (simp_all add: drop_overflow_def max_pty_buffer_cap_def refill_def Let_def)
  show ?thesis
    using tick
  proof (cases rule: send_tick_cases)
    case (none s1)
    have "pty_buffer (state s1) = pty_buffer (state s)" "\<not> pending_atomic_refresh (send s1)"
      using none(1) d by (auto simp: raw_data_opt_def Let_def split: if_splits)
    then show ?thesis
      using raw_data_opt_fields [OF none(1)] pipe_of_idle [of s' s gunzip] none(2) by auto
  next
    case (some raw s1)
    obtain n where n: "raw = take n (pty_buffer (state s))" "pty_buffer (state s1) = drop n (pty_buffer (state s))"
        "\<not> pending_atomic_refresh (send s1)"
      using some(1) d by (auto simp: raw_data_opt_def Let_def split: if_splits)
    have "pipe_of gunzip s' = pipe_read n (pipe_of gunzip s)"
      using n raw_data_opt_fields [OF some(1)] frame_bytes_compressed [where gz = gz and gunzip = gunzip, OF gzip]
      by (simp add: some(2) pipe_of_def pipe_read_def screen_bytes_def send_frame_telemetry)
        (simp add: send_frame_def Let_def split: prod.splits)
    moreover have "\<not> pending_atomic_refresh (send s')"
      using n(3) by (simp add: some(2) send_frame_def Let_def split: prod.splits)
    ultimately show ?thesis by blast
  qed
qed

text \<open>
  C3. A session refines the byte pipe. Every event is one operation of the pipe: PTY output writes what
  was read (nothing after the end of the PTY), every other event reads some number of bytes, possibly
  none. This holds at every state that has not overflowed and owes no redraw, and such an event does
  not make it owe one.
\<close>
theorem session_refines_pipe:
  assumes gzip: "\<And>d c. gz d = Some c \<Longrightarrow> gunzip c = Inr d"
    and step: "session_step V gz ps kbps key s e = Some s'" and ok: "\<not> send_fails e"
    and calm: "length (pty_buffer (state s)) \<le> 16384" "\<not> pending_atomic_refresh (send s)"
  shows "(pipe_of gunzip s' = pipe_write (if pty_closed s then [] else event_bytes e) (pipe_of gunzip s) \<or>
      (event_bytes e = [] \<and> (\<exists>n. pipe_of gunzip s' = pipe_read n (pipe_of gunzip s)))) \<and>
    \<not> pending_atomic_refresh (send s')"
proof (cases e)
  case (PtyRead r)
  then show ?thesis
    using session_step_PtyRead [OF step [unfolded PtyRead]] calm
    by (simp add: pipe_of_def pipe_write_def)
next
  case (SendTop b)
  with ok have b by simp
  have same: "pending_atomic_refresh (send (send_top gz True s)) = pending_atomic_refresh (send s)"
    by (simp add: send_top_def Let_def split: prod.splits)
  then show ?thesis
    using SendTop \<open>b\<close> step calm send_top_reads [where s = s and gz = gz and gunzip = gunzip, OF gzip] pipe_of_idle [of s s gunzip]
      pipe_of_idle [of "s\<lparr>phase := Finished\<rparr>" s gunzip]
    by (auto simp: session_step_def split: if_splits)
next
  case (Tick n b)
  with ok have b by simp
  then show ?thesis
    using Tick step calm send_tick_reads [where s = s and s' = s' and gz = gz and gunzip = gunzip, OF gzip calm]
      pipe_of_idle [of s s gunzip]
    by (auto simp: session_step_def split: if_splits)
next
  case (Received now r)
  then show ?thesis
    using step calm pipe_of_idle [of s s gunzip] pipe_of_idle [of "handle_packet V key now r s" s gunzip]
    by (auto simp: session_step_def handle_packet_fields split: if_splits)
next
  case Disconnected
  then show ?thesis
    using step calm pipe_of_idle [of s s gunzip] pipe_of_idle [of "s\<lparr>loop_left := True\<rparr>" s gunzip]
    by (auto simp: session_step_def split: if_splits)
qed

theorem session_refines_pipe_witness:
  "\<exists>s'. session_step line_vt100 run_gz Unwind 8 [] (session_start line_vt100 8 0 (sink [])) (PtyRead (Chunk [104])) = Some s' \<and>
    (pipe_of run_gunzip s' = pipe_write [104] (pipe_of run_gunzip (session_start line_vt100 8 0 (sink []))))"
proof -
  let ?s = "session_start line_vt100 8 0 (sink [])"
  obtain s' where s': "session_step line_vt100 run_gz Unwind 8 [] ?s (PtyRead (Chunk [104])) = Some s'"
    by (simp add: session_step_def session_start_def pty_reader_step_def process_safely_def line_vt100_def Let_def)
  have "length (pty_buffer (state ?s)) \<le> 16384" "\<not> pending_atomic_refresh (send ?s)" "\<not> pty_closed ?s"
    by (simp_all add: session_start_def new_session_state_def send_task_start_def)
  with session_refines_pipe [OF run_gzip s', of] s' show ?thesis by auto
qed

end
