(* ===== verification/Bandwidth.thy ===== *)
theory Bandwidth
  imports Session
begin

text \<open>
  The token bucket of the send task, in the arithmetic of doubles: the bucket never exceeds its
  capacity, frames cut from the buffer never overdraw it, and over any session the bytes put on the
  wire are bounded by the capacity, the rate times the elapsed time, one overdrawing redraw, the frame
  headers (which the bucket does not pay for) and an explicit rounding error.
\<close>

section \<open>Arithmetic\<close>

text \<open>The relative error of one rounding.\<close>

definition ulp :: rat where
  "ulp = 1 / 2 ^ 53"

lemma ulp_pos: "0 \<le> ulp"
  by (simp add: ulp_def)

lemma rounded: "x / 2 ^ 53 = ulp * x"
  by (simp add: ulp_def)

lemma fl_upper: "0 \<le> x \<Longrightarrow> fl x \<le> x * (1 + ulp)"
  using f64.rnd_upper [of x, unfolded rounded] by (simp add: algebra_simps)

lemma fl_upper_mono: "0 \<le> x \<Longrightarrow> x \<le> y \<Longrightarrow> fl x \<le> y * (1 + ulp)"
  using fl_upper [of y] f64.rnd_mono [of x y] by linarith

lemma as_secs_f64_upper:
  assumes "0 \<le> nanos"
  shows "as_secs_f64 nanos \<le> of_int nanos / 10 ^ 9 * (1 + ulp) ^ 3"
proof -
  let ?s = "of_int (nanos div 1000000000) :: rat" and ?n = "of_int (nanos mod 1000000000) :: rat"
  have n: "fl ?n = ?n" "fl (1000000000 :: rat) = 1000000000"
    using f64.rnd_int [of "nanos mod 1000000000"] f64.rnd_int [of 1000000000] by (simp_all add: abs_le_iff)
  have s0: "0 \<le> ?s" "0 \<le> ?n" using assms by (simp_all add: pos_imp_zdiv_nonneg_iff)
  have "of_int nanos = ?s * 1000000000 + ?n"
    using arg_cong [OF div_mult_mod_eq [of nanos 1000000000], of "of_int :: int \<Rightarrow> rat"]
    by (simp only: of_int_add of_int_mult of_int_numeral)
  then have total: "?s + ?n / 10 ^ 9 = of_int nanos / 10 ^ 9"
    by (simp add: field_simps)
  have "fl ?s \<le> ?s * (1 + ulp)" "fl (?n / 10 ^ 9) \<le> ?n / 10 ^ 9 * (1 + ulp)"
    using s0 by (intro fl_upper; simp)+
  then have "fl ?s + fl (?n / 10 ^ 9) \<le> (?s + ?n / 10 ^ 9) * (1 + ulp)"
    by (simp only: distrib_right [of ?s] add_mono)
  moreover have "0 \<le> fl ?s + fl (?n / 10 ^ 9)"
    using s0 by (intro add_nonneg_nonneg f64.rnd_nonneg) simp_all
  ultimately have "fl (fl ?s + fl (?n / 10 ^ 9)) \<le> (?s + ?n / 10 ^ 9) * (1 + ulp) * (1 + ulp)"
    by (intro fl_upper_mono)
  moreover have "as_secs_f64 nanos = fl (fl ?s + fl (?n / 10 ^ 9))"
    by (simp add: as_secs_f64_def f64_add_def f64_div_def f64_of_int_def n)
  ultimately have "as_secs_f64 nanos \<le> of_int nanos / 10 ^ 9 * (1 + ulp) ^ 2"
    by (simp only: total power2_eq_square mult.assoc)
  also have "\<dots> \<le> of_int nanos / 10 ^ 9 * (1 + ulp) ^ 3"
    using assms ulp_pos by (intro mult_left_mono power_increasing) simp_all
  finally show ?thesis .
qed

lemma five_roundings: "(1 + ulp) ^ 5 \<le> 1 + 1 / 2 ^ 50"
  unfolding ulp_def by code_simp

section \<open>The bucket\<close>

lemma rate_nonneg: "0 \<le> max_bytes_per_sec kbps"
  unfolding max_bytes_per_sec_def f64_of_int_def by (intro f64.rnd_nonneg) (simp only: of_int_0_le_iff uint_nonnegative)

lemma burst_fl: "fl (burst_capacity kbps) = burst_capacity kbps"
  using f64.rnd_int [of 2048] by (simp add: burst_capacity_def f64_mul_def max_def f64.rnd_idem)

lemma burst_ge: "2048 \<le> burst_capacity kbps"
  by (simp add: burst_capacity_def)

text \<open>What a refill adds.\<close>

definition credit :: "u64 \<Rightarrow> int \<Rightarrow> rat" where
  "credit kbps nanos = f64_mul (max_bytes_per_sec kbps) (as_secs_f64 nanos)"

lemma credit_bounds:
  assumes "0 \<le> nanos"
  shows "0 \<le> credit kbps nanos"
    and "credit kbps nanos \<le> max_bytes_per_sec kbps * (of_int nanos / 10 ^ 9) * (1 + ulp) ^ 4"
proof -
  let ?r = "max_bytes_per_sec kbps" and ?e = "as_secs_f64 nanos"
  have e: "0 \<le> ?e" using as_secs_f64_nonneg [OF assms] .
  show "0 \<le> credit kbps nanos"
    unfolding credit_def f64_mul_def using rate_nonneg e by (intro f64.rnd_nonneg) simp
  have "?r * ?e \<le> ?r * (of_int nanos / 10 ^ 9 * (1 + ulp) ^ 3)"
    using as_secs_f64_upper [OF assms] rate_nonneg by (rule mult_left_mono)
  then have "credit kbps nanos \<le> ?r * (of_int nanos / 10 ^ 9 * (1 + ulp) ^ 3) * (1 + ulp)"
    unfolding credit_def f64_mul_def using rate_nonneg e by (intro fl_upper_mono) simp_all
  also have "\<dots> = ?r * (of_int nanos / 10 ^ 9) * ((1 + ulp) ^ 3 * (1 + ulp))"
    by (simp only: mult.assoc)
  also have "(1 + ulp) ^ 3 * (1 + ulp) = (1 + ulp) ^ 4"
    by (simp add: eval_nat_numeral mult_ac)
  finally show "credit kbps nanos \<le> ?r * (of_int nanos / 10 ^ 9) * (1 + ulp) ^ 4" .
qed

lemma refill_fields:
  "last_tick (refill kbps now t) = now" "seq (refill kbps now t) = seq t"
  "pending_atomic_refresh (refill kbps now t) = pending_atomic_refresh t"
  "last_tick t \<le> now \<Longrightarrow> tokens (refill kbps now t) =
     min (fl (tokens t + credit kbps (now - last_tick t))) (burst_capacity kbps)"
  by (simp_all add: refill_def Let_def f64_add_def credit_def)

lemma refill_lower:
  assumes "last_tick t \<le> now" "fl (tokens t) = tokens t" "tokens t \<le> burst_capacity kbps"
  shows "tokens t \<le> tokens (refill kbps now t)"
  using assms credit_bounds(1) [of "now - last_tick t" kbps]
    f64.rnd_ge [of "tokens t" "tokens t + credit kbps (now - last_tick t)"]
  by (simp add: refill_fields)

lemma refill_fl: "last_tick t \<le> now \<Longrightarrow> fl (tokens (refill kbps now t)) = tokens (refill kbps now t)"
  using f64.rnd_min [of _ "burst_capacity kbps"] by (simp add: refill_fields burst_fl)

lemma fl_abs_upper: "\<bar>x\<bar> \<le> m \<Longrightarrow> fl x \<le> x + ulp * m"
  using f64.rnd_err [of x, unfolded rounded] abs_ge_self [of "fl x - x"] mult_left_mono [OF _ ulp_pos, of "\<bar>x\<bar>" m]
  by linarith

lemma refill_upper:
  assumes "last_tick t \<le> now" "\<bar>tokens t\<bar> \<le> m"
  shows "tokens (refill kbps now t) \<le>
    tokens t + max_bytes_per_sec kbps * (of_int (now - last_tick t) / 10 ^ 9) * (1 + 1 / 2 ^ 50) + ulp * m"
proof -
  let ?c = "credit kbps (now - last_tick t)" and ?x = "of_int (now - last_tick t) / 10 ^ 9 :: rat"
  let ?r = "max_bytes_per_sec kbps"
  have c: "0 \<le> ?c" "?c \<le> ?r * ?x * (1 + ulp) ^ 4"
    using credit_bounds [of "now - last_tick t" kbps] assms(1) by simp_all
  have "\<bar>tokens t + ?c\<bar> \<le> m + ?c" using assms(2) c(1) by linarith
  then have "fl (tokens t + ?c) \<le> tokens t + ?c + ulp * (m + ?c)" by (rule fl_abs_upper)
  also have "\<dots> = tokens t + ?c * (1 + ulp) + ulp * m" by (simp add: algebra_simps)
  also have "\<dots> \<le> tokens t + ?r * ?x * (1 + 1 / 2 ^ 50) + ulp * m"
  proof -
    have "?c * (1 + ulp) \<le> ?r * ?x * (1 + ulp) ^ 4 * (1 + ulp)"
      using c ulp_pos by (intro mult_right_mono) simp_all
    also have "\<dots> = ?r * ?x * (1 + ulp) ^ 5"
      by (simp add: eval_nat_numeral mult_ac)
    also have "\<dots> \<le> ?r * ?x * (1 + 1 / 2 ^ 50)"
      using five_roundings rate_nonneg assms(1) by (intro mult_left_mono) simp_all
    finally show ?thesis by simp
  qed
  finally show ?thesis by (simp add: refill_fields assms(1))
qed

text \<open>What a frame costs.\<close>

lemma charge_upper:
  assumes "n \<le> 2 ^ 53" "0 < t" "t \<le> m" "of_nat n \<le> m"
  shows "f64_sub t (f64_of_int (int n)) \<le> t - of_nat n + ulp * m"
proof -
  have "f64_of_int (int n) = of_nat n"
    using f64.rnd_int [of "int n"] assms(1) by (simp add: f64_of_int_def)
  moreover have "\<bar>t - of_nat n\<bar> \<le> m" using assms by (simp add: abs_le_iff)
  ultimately show ?thesis
    unfolding f64_sub_def by (simp only: fl_abs_upper)
qed

lemma charge_lower:
  assumes "n \<le> k" "k \<le> 2 ^ 53" "0 < t"
  shows "- of_nat k \<le> f64_sub t (f64_of_int (int n))"
proof -
  have n: "f64_of_int (int n) = of_nat n" "fl (- of_nat k) = - of_nat k"
    using f64.rnd_int [of "int n"] f64.rnd_int [of "- int k"] assms(1,2) by (simp_all add: f64_of_int_def)
  have "- of_nat k \<le> t - of_nat n" using assms by (simp add: le_diff_eq)
  then show ?thesis
    using f64.rnd_ge [OF _ n(2)] by (simp add: f64_sub_def n(1))
qed

section \<open>Accounting\<close>

text \<open>
  The account of a session that started at time \<open>t0\<close>, for a bound \<open>a\<close> on the payloads sent: level of the
  bucket plus payload sent is at most what was in the bucket and what has been refilled.
\<close>

definition ticks :: "event list \<Rightarrow> nat" where
  "ticks h = length (filter (\<lambda>e. case e of Tick n ok \<Rightarrow> True | _ \<Rightarrow> False) h)"

definition payload_sent :: "packet list \<Rightarrow> nat" where
  "payload_sent ps = sum_list (map payload_len ps)"

definition allowance :: "u64 \<Rightarrow> nat \<Rightarrow> int \<Rightarrow> nat \<Rightarrow> rat" where
  "allowance kbps a nanos k =
     burst_capacity kbps + max_bytes_per_sec kbps * (of_int nanos / 10 ^ 9) * (1 + 1 / 2 ^ 50)
     + of_nat k * (2 * ulp * max (burst_capacity kbps) (of_nat a))"

definition account :: "u64 \<Rightarrow> nat \<Rightarrow> int \<Rightarrow> nat \<Rightarrow> nat \<Rightarrow> send_task \<Rightarrow> bool" where
  "account kbps a t0 k paid t \<longleftrightarrow>
     fl (tokens t) = tokens t \<and> tokens t \<le> burst_capacity kbps \<and> - of_nat a \<le> tokens t \<and>
     tokens t + of_nat paid \<le> allowance kbps a (last_tick t - t0) k"

lemma allowance_mono: "k \<le> k' \<Longrightarrow> allowance kbps a nanos k \<le> allowance kbps a nanos k'"
  unfolding allowance_def using burst_ge [of kbps] ulp_pos
  by (intro add_mono order_refl mult_right_mono) simp_all

lemma account_refill:
  assumes "account kbps a t0 k paid t" "last_tick t \<le> now"
  shows "fl (tokens (refill kbps now t)) = tokens (refill kbps now t)"
    "tokens (refill kbps now t) \<le> burst_capacity kbps" "- of_nat a \<le> tokens (refill kbps now t)"
    "tokens (refill kbps now t) + of_nat paid + ulp * max (burst_capacity kbps) (of_nat a)
      \<le> allowance kbps a (now - t0) (Suc k)"
proof -
  let ?m = "max (burst_capacity kbps) (of_nat a)" and ?r = "max_bytes_per_sec kbps"
  show "fl (tokens (refill kbps now t)) = tokens (refill kbps now t)"
    by (rule refill_fl [OF assms(2)])
  show "tokens (refill kbps now t) \<le> burst_capacity kbps"
    by (simp add: refill_fields assms(2))
  have a: "fl (tokens t) = tokens t" "tokens t \<le> burst_capacity kbps" "- of_nat a \<le> tokens t"
      "tokens t + of_nat paid \<le> allowance kbps a (last_tick t - t0) k"
    using assms(1) by (simp_all add: account_def)
  show "- of_nat a \<le> tokens (refill kbps now t)"
    using refill_lower [OF assms(2) a(1,2)] a(3) by linarith
  have m: "\<bar>tokens t\<bar> \<le> ?m"
    using a(2,3) max.cobounded1 [of "burst_capacity kbps" "of_nat a"]
      max.cobounded2 [of "of_nat a" "burst_capacity kbps"]
    by (intro abs_leI) linarith+
  have split: "of_int (now - t0) / 10 ^ 9 = of_int (last_tick t - t0) / 10 ^ 9 + (of_int (now - last_tick t) / 10 ^ 9 :: rat)"
    by (simp add: field_simps)
  have "allowance kbps a (now - t0) (Suc k) = allowance kbps a (last_tick t - t0) k
      + ?r * (of_int (now - last_tick t) / 10 ^ 9) * (1 + 1 / 2 ^ 50) + 2 * (ulp * ?m)"
    unfolding allowance_def split of_nat_Suc by (simp only: distrib_left distrib_right mult_1_left mult.assoc add.assoc)
  then show "tokens (refill kbps now t) + of_nat paid + ulp * ?m \<le> allowance kbps a (now - t0) (Suc k)"
    using refill_upper [OF assms(2) m, of kbps] a(4) by linarith
qed

lemma account_wait:
  assumes "account kbps a t0 k paid t" "last_tick t \<le> now"
    and "tokens t' = tokens (refill kbps now t)" "last_tick t' = now"
  shows "account kbps a t0 (Suc k) paid t'"
proof -
  have "0 \<le> ulp * max (burst_capacity kbps) (of_nat a)"
    using ulp_pos by (intro mult_nonneg_nonneg) (simp_all add: le_max_iff_disj)
  then show ?thesis
    using account_refill [OF assms(1,2)] assms(3,4) by (auto simp: account_def)
qed

lemma account_charge:
  assumes "account kbps a t0 k paid t" "last_tick t \<le> now" "n \<le> a" "a \<le> 2 ^ 53"
    and "t' = refill kbps now t" "0 < tokens t'"
    and "tokens t'' = f64_sub (tokens t') (f64_of_int (int n))" "last_tick t'' = now"
  shows "account kbps a t0 (Suc k) (paid + n) t''"
proof -
  let ?m = "max (burst_capacity kbps) (of_nat a)"
  note r = account_refill [OF assms(1,2), folded assms(5)]
  have "tokens t'' \<le> tokens t' - of_nat n + ulp * ?m"
    unfolding assms(7) using assms r by (intro charge_upper) (auto simp: le_max_iff_disj)
  moreover have "- of_nat a \<le> tokens t''"
    unfolding assms(7) by (rule charge_lower [OF assms(3,4,6)])
  moreover have "tokens t'' \<le> burst_capacity kbps"
  proof -
    have "0 \<le> f64_of_int (int n)" unfolding f64_of_int_def by (intro f64.rnd_nonneg) simp
    then show ?thesis
      unfolding assms(7) f64_sub_def using r(2) by (intro f64.rnd_le burst_fl) simp
  qed
  moreover have "fl (tokens t'') = tokens t''"
    by (simp add: assms(7) f64_sub_def f64.rnd_idem)
  ultimately show ?thesis
    using r(4) assms(8) by (simp add: account_def)
qed

fun is_frame :: "packet \<Rightarrow> bool" where
  "is_frame (ServerFrame n d c) \<longleftrightarrow> True"
| "is_frame _ \<longleftrightarrow> False"

definition account_inv :: "u64 \<Rightarrow> nat \<Rightarrow> int \<Rightarrow> event list \<Rightarrow> 'vt session \<Rightarrow> bool" where
  "account_inv kbps a t0 h s \<longleftrightarrow> (\<forall>p \<in> set (wire s). is_frame p) \<and>
     (a \<le> 2 ^ 53 \<and> (\<forall>p \<in> set (wire s). payload_len p \<le> a) \<and> phase s \<noteq> Finished \<longrightarrow>
        account kbps a t0 (ticks h) (payload_sent (wire s)) (send s))"

lemma ticks_snoc [simp]: "ticks (h @ [e]) = (case e of Tick n ok \<Rightarrow> Suc (ticks h) | _ \<Rightarrow> ticks h)"
  by (simp add: ticks_def split: event.splits)

lemma account_more_ticks: "account kbps a t0 k paid t \<Longrightarrow> k \<le> k' \<Longrightarrow> account kbps a t0 k' paid t"
  using allowance_mono [of k k' kbps a "last_tick t - t0"] by (auto simp: account_def)

lemma account_idle:
  assumes "account_inv kbps a t0 h s" "wire s' = wire s" "send s' = send s" "phase s' \<noteq> Finished \<longrightarrow> phase s \<noteq> Finished"
  shows "account_inv kbps a t0 (h @ [e]) s'"
  using assms account_more_ticks [of kbps a t0 "ticks h" "payload_sent (wire s)" "send s" "ticks (h @ [e])"]
  by (auto simp: account_inv_def split: event.splits)

lemma send_tick_account:
  assumes "send_tick V gz ps kbps (last_tick (send s) + uint n) ok s = Some s'"
    and "account_inv kbps a t0 h s" "phase s \<noteq> Finished"
  shows "account_inv kbps a t0 (h @ [Tick n ok]) s'"
  using assms(1)
proof (cases rule: send_tick_cases)
  case none
  note f = raw_data_opt_fields [OF none(1)]
  have "account kbps a t0 (Suc (ticks h)) (payload_sent (wire s)) (send s')"
    if "account kbps a t0 (ticks h) (payload_sent (wire s)) (send s)"
    using account_wait [OF that, of "last_tick (send s) + uint n" "send s'"] f none(2)
    by (simp add: refill_fields(1))
  with assms(2,3) f none(2) show ?thesis by (simp add: account_inv_def)
next
  case (some raw s1)
  note f = raw_data_opt_fields [OF some(1)]
  have pos: "0 < tokens (send s1)"
    using some(1) f by (auto simp: raw_data_opt_def drop_overflow_def Let_def split: if_splits)
  show ?thesis
  proof (cases ok)
    case True
    let ?n = "length (fst (compress_data gz raw))"
    have w: "wire s' = wire s @ [ServerFrame (seq (send s1) + 1) (fst (compress_data gz raw)) (snd (compress_data gz raw))]"
      using f by (simp add: some(2) send_frame_telemetry True)
    have "account kbps a t0 (Suc (ticks h)) (payload_sent (wire s) + ?n) (send s')"
      if "account kbps a t0 (ticks h) (payload_sent (wire s)) (send s)" "a \<le> 2 ^ 53" "?n \<le> a"
      using f pos
      by (intro account_charge [OF that(1) _ that(3,2), of "last_tick (send s) + uint n" _ "send s'", OF _ refl])
        (simp_all add: some(2) True send_frame_def Let_def refill_fields split: prod.splits)
    with assms(2,3) w show ?thesis by (simp add: account_inv_def payload_sent_def)
  qed (use assms(2) f in \<open>simp add: account_inv_def some(2) send_frame_fields send_frame_telemetry\<close>)
qed

interpretation budgeted: history_invariant "session_step V gz ps kbps key" "session_start V kbps t0 pty"
    "account_inv kbps a t0" for V :: "'vt vt100" and gz ps kbps key t0 pty a
proof unfold_locales
  show "account_inv kbps a t0 [] (session_start V kbps t0 pty)"
    using burst_ge [of kbps] burst_fl [of kbps]
    by (auto simp: account_inv_def account_def allowance_def ticks_def payload_sent_def session_start_def
        send_task_start_def intro: order_trans [of _ 0])
next
  fix h and s s' :: "'vt session" and e
  assume inv: "account_inv kbps a t0 h s" and step: "session_step V gz ps kbps key s e = Some s'"
  show "account_inv kbps a t0 (h @ [e]) s'"
  proof (cases e)
    case (PtyRead r)
    then show ?thesis
      using session_step_PtyRead(1-3) [OF step [unfolded PtyRead]] account_idle [OF inv, of s' e] by simp
  next
    case (SendTop ok)
    have "account_inv kbps a t0 (h @ [e]) (send_top gz ok s)" if "phase s = AtTop"
    proof (cases "pty_closed s")
      case True
      then show ?thesis using inv by (auto simp: account_inv_def send_top_def Let_def split: prod.splits)
    next
      case False
      then show ?thesis using that by (intro account_idle [OF inv]) (simp_all add: send_top_def)
    qed
    with SendTop step show ?thesis
      using account_idle [OF inv, of s e] account_idle [OF inv, of "s\<lparr>phase := Finished\<rparr>" e]
      by (auto simp: session_step_def split: if_splits)
  next
    case (Tick n ok)
    show ?thesis
    proof (cases "phase s = AwaitTick")
      case False
      then show ?thesis
        using Tick step account_idle [OF inv, of s e] by (auto simp: session_step_def split: if_splits)
    next
      case True
      then have "send_tick V gz ps kbps (last_tick (send s) + uint n) ok s = Some s'"
        using Tick step by (simp add: session_step_def)
      then show ?thesis
        using send_tick_account [OF _ inv, of V gz ps n ok s'] True Tick by simp
    qed
  next
    case (Received now r)
    then show ?thesis
      using step account_idle [OF inv, of s e]
        account_idle [OF inv, of "handle_packet V key now r s" e]
      by (auto simp: session_step_def handle_packet_fields split: if_splits)
  next
    case Disconnected
    then show ?thesis
      using step account_idle [OF inv, of s e] account_idle [OF inv, of "s\<lparr>loop_left := True\<rparr>" e]
      by (auto simp: session_step_def split: if_splits)
  qed
qed

section \<open>The bounds\<close>

lemma payload_wire: "length (encode (ServerFrame n d c) []) = length d + 18"
  by (simp add: wire_simps)

lemma encoded_frames:
  "\<forall>p \<in> set ps. is_frame p \<Longrightarrow> sum_list (map (\<lambda>p. length (encode p [])) ps) = payload_sent ps + 18 * length ps"
proof (induction ps)
  case (Cons p ps)
  then show ?case by (cases p) (auto simp: payload_sent_def payload_wire)
qed (simp add: payload_sent_def)

text \<open>
  C4. The bandwidth of a session is bounded. While the send task runs, all the bytes put on the wire
  since the session began (payloads, frame headers and length prefixes) are at most: the burst
  capacity, the configured rate times the elapsed time, the size of the largest payload sent (a
  redraw may overdraw the bucket once), 18 bytes per frame that the bucket does not pay for,
  and the rounding errors of the double arithmetic, one part in \<open>2 ^ 50\<close> of the refill and
  \<open>2 / 2 ^ 53\<close> of the larger of capacity and payload per tick.
\<close>
theorem bandwidth_bounded:
  assumes run: "session_run V gz ps kbps key (session_start V kbps t0 pty) evs = Some s"
    and live: "phase s \<noteq> Finished"
    and largest: "\<forall>p \<in> set (wire s). payload_len p \<le> a" "a \<le> 2 ^ 53"
  shows "of_nat (sum_list (map (\<lambda>p. length (encode p [])) (wire s))) \<le>
    burst_capacity kbps + max_bytes_per_sec kbps * (of_int (last_tick (send s) - t0) / 10 ^ 9) * (1 + 1 / 2 ^ 50)
    + of_nat a + 18 * of_nat (length (wire s))
    + of_nat (ticks evs) * (2 / 2 ^ 53 * max (burst_capacity kbps) (of_nat a))"
proof -
  have inv: "account_inv kbps a t0 evs s"
    using budgeted.run_history [OF run [unfolded session_run_def]] .
  then have "account kbps a t0 (ticks evs) (payload_sent (wire s)) (send s)"
    and f: "\<forall>p \<in> set (wire s). is_frame p"
    using live largest by (auto simp: account_inv_def)
  then have "of_nat (payload_sent (wire s)) \<le>
      allowance kbps a (last_tick (send s) - t0) (ticks evs) + of_nat a"
    unfolding account_def by linarith
  then show ?thesis
    unfolding encoded_frames [OF f] allowance_def ulp_def of_nat_add of_nat_mult by simp
qed

theorem bandwidth_bounded_witness:
  "session_run line_vt100 run_gz Unwind 8 [] (session_start line_vt100 8 0 (sink []))
     [PtyRead (Chunk [104, 105]), SendTop True, Tick 20000000 True] = Some example_run \<and>
   (of_nat (sum_list (map (\<lambda>p. length (encode p [])) (wire example_run))) :: rat) \<le>
    burst_capacity 8 + max_bytes_per_sec 8 * (of_int (last_tick (send example_run) - 0) / 10 ^ 9) * (1 + 1 / 2 ^ 50)
    + of_nat 2 + 18 * of_nat (length (wire example_run))
    + of_nat (ticks [PtyRead (Chunk [104, 105]), SendTop True, Tick 20000000 True])
      * (2 / 2 ^ 53 * max (burst_capacity 8) (of_nat 2))"
proof -
  have 1: "phase example_run \<noteq> Finished" "\<forall>p \<in> set (wire example_run). payload_len p \<le> 2" "(2 :: nat) \<le> 2 ^ 53"
    by (simp_all add: example_run_def)
  show ?thesis
    by (intro conjI example_run bandwidth_bounded [OF example_run 1])
qed

text \<open>
  C18. The bucket never holds more than its capacity, and a frame cut from the buffer never
  overdraws it: after a tick that owed no redraw the level is still not negative if it was not
  before.
\<close>
theorem pass_through_never_overdraws:
  assumes "send_tick V gz ps kbps now ok s = Some s'" "last_tick (send s) \<le> now"
    and "0 \<le> tokens (send s)" "fl (tokens (send s)) = tokens (send s)" "tokens (send s) \<le> burst_capacity kbps"
    and "\<not> pending_atomic_refresh (send s)" "length (pty_buffer (state s)) \<le> 16384"
  shows "0 \<le> tokens (send s') \<and> tokens (send s') \<le> burst_capacity kbps"
proof -
  let ?s = "s\<lparr>send := refill kbps now (send s)\<rparr>"
  let ?t = "tokens (send ?s)"
  have t: "0 \<le> ?t" "?t \<le> burst_capacity kbps" "fl ?t = ?t"
    using refill_lower [OF assms(2,4,5)] refill_fl [OF assms(2)] assms(2,3)
    by (simp_all add: refill_fields) linarith?
  have d: "drop_overflow ?s = ?s" "\<not> pending_atomic_refresh (send ?s)"
    using assms(6,7) by (simp_all add: drop_overflow_def max_pty_buffer_cap_def refill_fields)
  show ?thesis
    using assms(1)
  proof (cases rule: send_tick_cases)
    case none
    then show ?thesis using raw_data_opt_fields [OF none(1)] t by simp
  next
    case (some raw s1)
    note f = raw_data_opt_fields [OF some(1)]
    have "length raw \<le> as_usize ?t"
      using some(1) d find_safe_split_point_spec [of "pty_buffer (state s)" "as_usize ?t"]
      by (auto simp: raw_data_opt_def Let_def split: if_splits)
    then have n: "length (fst (compress_data gz raw)) \<le> as_usize ?t"
      using compress_length order_trans by blast
    have c: "of_int (int (as_usize ?t)) \<le> ?t"
      using t(1) floor_correct [of ?t] by (simp add: as_usize_def) linarith
    have "of_int (int (length (fst (compress_data gz raw)))) \<le> ?t"
      using n c by (meson of_int_le_iff of_nat_mono order_trans)
    then have "f64_of_int (int (length (fst (compress_data gz raw)))) \<le> ?t"
      unfolding f64_of_int_def by (rule f64.rnd_le [OF _ t(3)])
    moreover have "0 \<le> f64_of_int (int (length (fst (compress_data gz raw))))"
      unfolding f64_of_int_def by (intro f64.rnd_nonneg) simp
    ultimately have "0 \<le> f64_sub ?t (f64_of_int (int (length (fst (compress_data gz raw)))))"
      "f64_sub ?t (f64_of_int (int (length (fst (compress_data gz raw))))) \<le> burst_capacity kbps"
      unfolding f64_sub_def using t(2) by (intro f64.rnd_nonneg f64.rnd_le burst_fl; simp)+
    moreover have "tokens (send s') = (if ok then f64_sub ?t (f64_of_int (int (length (fst (compress_data gz raw))))) else ?t)"
      using f by (simp add: some(2) send_frame_def Let_def split: prod.splits)
    ultimately show ?thesis
      using t by simp
  qed
qed

theorem pass_through_never_overdraws_witness:
  "\<exists>s'. send_tick line_vt100 run_gz Unwind 8 20000000 True ((session_start line_vt100 8 0 (sink []))\<lparr>phase := AwaitTick\<rparr>) = Some s' \<and>
    0 \<le> tokens (send s') \<and> tokens (send s') \<le> burst_capacity 8"
proof -
  let ?s = "(session_start line_vt100 8 0 (sink []))\<lparr>phase := AwaitTick\<rparr>"
  obtain s' where s': "send_tick line_vt100 run_gz Unwind 8 20000000 True ?s = Some s'"
    by (simp add: session_start_def send_tick_def raw_data_opt_def
        new_session_state_def drop_overflow_def max_pty_buffer_cap_def example_numbers Let_def)
  have "send ?s = send_task_start 8 0" "pty_buffer (state ?s) = []"
    by (simp_all add: session_start_def new_session_state_def)
  then show ?thesis
    using pass_through_never_overdraws [OF s'] s' burst_ge [of 8] burst_fl [of 8]
    by (simp add: send_task_start_def)
qed

end
