(* ===== verification/Screen.thy ===== *)
theory Screen
  imports Session
begin

text \<open>
  The session key, the sizes and the screen of a server session: a wrong key ends the session
  without a trace, sizes are never zero and the emulator replays what the PTY wrote, an overflow of the
  buffer is answered by one frame that redraws the screen, and what can go wrong: input is accepted
  without a handshake, and a long escape sequence holds back everything behind it.
\<close>

section \<open>The emulator\<close>

















section \<open>Panics of the emulator\<close>

lemma session_step_unwind: "\<exists>s'. session_step V gz Unwind kbps key s e = Some s'"
proof (cases e)
  case (PtyRead r)
  then show ?thesis
    using process_safely_unwind [of V "screen_parser (state s)"]
    by (auto simp: session_step_def pty_reader_step_def Let_def simp del: not_None_eq
        split: read_result.splits option.splits)
next
  case (Tick n ok)
  have "raw_data_opt V Unwind s1 \<noteq> None" for s1
    by (simp add: raw_data_opt_def Let_def split: option.splits)
  with Tick show ?thesis
    by (auto simp: session_step_def send_tick_def Let_def simp del: not_None_eq split: option.splits)
qed (simp_all add: session_step_def)

lemma session_run_unwind: "\<exists>s'. session_run V gz Unwind kbps key s evs = Some s'"
proof (induction evs arbitrary: s)
  case (Cons e evs)
  obtain s1 where "session_step V gz Unwind kbps key s e = Some s1"
    using session_step_unwind by blast
  with Cons [of s1] show ?case by (simp add: session_run_def)
qed (simp add: session_run_def)

text \<open>
  The events during which a panic arises: output the emulator panics on, a redraw it panics on, and the first
  run of a send task whose timer is refused.
\<close>

fun event_panics :: "'vt vt100 \<Rightarrow> u64 \<Rightarrow> 'vt session \<Rightarrow> event \<Rightarrow> bool" where
  "event_panics V kbps s (PtyRead r) \<longleftrightarrow>
     \<not> pty_closed s \<and> read_bytes r \<noteq> [] \<and> snd (vt_process V (screen_parser (state s)) (read_bytes r))"
| "event_panics V kbps s (Tick n ok) \<longleftrightarrow> phase s = AwaitTick \<and>
     0 < tokens (refill kbps (last_tick (send s) + uint n) (send s)) \<and>
     (pending_atomic_refresh (send s) \<or> 16384 < length (pty_buffer (state s))) \<and>
     vt_contents_formatted V (screen_parser (state s)) = None"
| "event_panics V kbps s (SendTop ok) \<longleftrightarrow> phase s = TimerRefused"
| "event_panics V kbps s _ \<longleftrightarrow> False"

lemma raw_data_opt_abort:
  "raw_data_opt V Abort s =
     (if 0 < tokens (send s) \<and> (pending_atomic_refresh (send s) \<or> 16384 < length (pty_buffer (state s))) \<and>
         vt_contents_formatted V (screen_parser (state s)) = None
      then None else raw_data_opt V Unwind s)"
  by (auto simp: raw_data_opt_def drop_overflow_def max_pty_buffer_cap_def generate_atomic_screen_frame_def Let_def
      split: option.splits prod.splits)

lemma refill_pending: "pending_atomic_refresh (refill kbps now t) = pending_atomic_refresh t"
  by (simp add: refill_def Let_def)

lemma session_step_abort:
  "session_step V gz Abort kbps key s e = (if event_panics V kbps s e then None else session_step V gz Unwind kbps key s e)"
proof (cases e)
  case (PtyRead r)
  then show ?thesis
    by (cases r) (auto simp: session_step_def pty_reader_step_def process_safely_def Let_def split: prod.splits)
next
  case (Tick n ok)
  then show ?thesis
    by (auto simp: session_step_def send_tick_def raw_data_opt_abort refill_pending Let_def)
qed (simp_all add: session_step_def timer_panic_def)

text \<open>
  C29. What aborting on panics costs: every run of events leaves a session in an unwinding build, whatever
  the emulator panics on; an aborting build, as the release profile is, does exactly the same up to the
  first event in which a panic arises, in the PTY reader, in a redraw or at the start of the send
  task, and the process ends there.
\<close>
theorem abort_build_ends_at_first_panic:
  "(\<exists>s'. session_run V gz Unwind kbps key s evs = Some s') \<and>
   session_run V gz Abort kbps key s evs =
     (if \<exists>h1 e h2 s1. evs = h1 @ e # h2 \<and> session_run V gz Unwind kbps key s h1 = Some s1 \<and> event_panics V kbps s1 e
      then None else session_run V gz Unwind kbps key s evs)"
proof
  show "session_run V gz Abort kbps key s evs =
     (if \<exists>h1 e h2 s1. evs = h1 @ e # h2 \<and> session_run V gz Unwind kbps key s h1 = Some s1 \<and> event_panics V kbps s1 e
      then None else session_run V gz Unwind kbps key s evs)"
  proof (induction evs arbitrary: s)
    case (Cons e evs)
    obtain s1 where s1: "session_step V gz Unwind kbps key s e = Some s1"
      using session_step_unwind by blast
    have "(\<exists>h1 e' h2 s2. e # evs = h1 @ e' # h2 \<and> session_run V gz Unwind kbps key s h1 = Some s2 \<and> event_panics V kbps s2 e') \<longleftrightarrow>
        event_panics V kbps s e \<or>
        (\<exists>h1 e' h2 s2. evs = h1 @ e' # h2 \<and> session_run V gz Unwind kbps key s1 h1 = Some s2 \<and> event_panics V kbps s2 e')"
      (is "?l \<longleftrightarrow> ?r")
    proof
      assume ?l
      then show ?r using s1 by (force simp: session_run_def Cons_eq_append_conv)
    next
      assume ?r
      then show ?l
      proof
        assume "event_panics V kbps s e"
        then show ?l by (intro exI [of _ "[]"]) (simp add: session_run_def)
      next
        assume "\<exists>h1 e' h2 s2. evs = h1 @ e' # h2 \<and> session_run V gz Unwind kbps key s1 h1 = Some s2 \<and> event_panics V kbps s2 e'"
        then obtain h1 e' h2 s2 where "evs = h1 @ e' # h2" "session_run V gz Unwind kbps key s1 h1 = Some s2" "event_panics V kbps s2 e'"
          by blast
        then show ?l using s1 by (intro exI [of _ "e # h1"]) (simp add: session_run_def)
      qed
    qed
    moreover have "session_run V gz Abort kbps key s (e # evs) =
        (if event_panics V kbps s e then None else session_run V gz Abort kbps key s1 evs)"
      "session_run V gz Unwind kbps key s (e # evs) = session_run V gz Unwind kbps key s1 evs"
      using s1 by (simp_all add: session_run_def session_step_abort)
    ultimately show ?case using Cons [of s1] by presburger
  qed (simp add: session_run_def)
qed (rule session_run_unwind)

section \<open>The session key\<close>

text \<open>
  A handshake with a wrong key ends the session and changes nothing else: nothing is written to
  the PTY, nothing is resized and no further packet of that client is looked at.
\<close>
theorem wrong_key_drops_client:
  assumes "k \<noteq> []" "k \<noteq> key" "\<not> session_over s"
  shows "session_step V gz ps kbps key s (Received now (Inr (ClientHandshake k rows cols))) =
      Some (s\<lparr>loop_left := True\<rparr>) \<and>
    session_step V gz ps kbps key (s\<lparr>loop_left := True\<rparr>) (Received now' r) = Some (s\<lparr>loop_left := True\<rparr>)"
  using assms by (simp add: session_step_def handle_packet_def session_over_def)

theorem wrong_key_drops_client_witness:
  "session_step line_vt100 run_gz Unwind 8 (str ''secret'') (session_start line_vt100 8 0 (sink []))
     (Received 0 (Inr (ClientHandshake (str ''guess'') 24 80))) =
   Some ((session_start line_vt100 8 0 (sink []))\<lparr>loop_left := True\<rparr>)"
proof -
  have "\<not> session_over (session_start line_vt100 8 0 (sink []))"
    by (simp add: session_over_def session_start_def)
  then show ?thesis
    using wrong_key_drops_client [of "str ''guess''" "str ''secret''" "session_start line_vt100 8 0 (sink [])"
        line_vt100 run_gz Unwind 8 0 24 80] by (simp add: str_def)
qed

text \<open>
  C31. The key is only checked when a client offers a non-empty one: a client that sends no
  handshake, or one with an empty key, gets its input written to the shell of a fresh session,
  whatever the session key is.
\<close>
theorem input_accepted_without_key:
  "(\<exists>s. session_run V gz ps kbps key (session_start V kbps t0 (sink []))
      [Received now (Inr (ClientInput data))] = Some s \<and> wr_out (pty_input s) = data \<and> \<not> session_over s) \<and>
   (\<exists>s. session_run V gz ps kbps key (session_start V kbps t0 (sink []))
      [Received now (Inr (ClientHandshake [] rows cols)), Received now (Inr (ClientInput data))] = Some s \<and>
    wr_out (pty_input s) = data \<and> \<not> session_over s)"
  by (simp add: session_run_def session_step_def session_start_def session_over_def handle_packet_def
      resize_session_def Let_def)

section \<open>Overflow\<close>

text \<open>
  C16. When more than 16384 bytes have piled up, or a refresh is still owed, the next tick with quota
  left sends exactly one frame, which clears the screen and redraws it as the emulator has it,
  and the buffer is empty afterwards.
\<close>
theorem overflow_redraws_screen:
  assumes gzip: "\<And>d c. gz d = Some c \<Longrightarrow> gunzip c = Inr d"
    and live: "phase s = AwaitTick"
    and overflow: "length (pty_buffer (state s)) > 16384 \<or> pending_atomic_refresh (send s)"
    and quota: "0 < tokens (refill kbps (last_tick (send s) + uint n) (send s))"
    and frame: "generate_atomic_screen_frame V (screen_parser (state s)) = Some frame"
  shows "\<exists>s' p. session_step V gz ps kbps key s (Tick n True) = Some s' \<and> wire s' = wire s @ [p] \<and>
    frame_bytes gunzip p = frame \<and> take 7 frame = esc # bytes_of ''[H'' @ esc # bytes_of ''[2J'' \<and>
    pty_buffer (state s') = [] \<and> \<not> pending_atomic_refresh (send s')"
proof -
  let ?s = "s\<lparr>send := refill kbps (last_tick (send s) + uint n) (send s)\<rparr>"
  have 1: "pending_atomic_refresh (send (drop_overflow ?s))"
    using overflow by (auto simp: drop_overflow_def max_pty_buffer_cap_def refill_def Let_def)
  have 2: "tokens (send (drop_overflow ?s)) = tokens (send ?s)" "screen_parser (state (drop_overflow ?s)) = screen_parser (state s)"
      "wire (drop_overflow ?s) = wire s"
    by (simp_all add: drop_overflow_def)
  obtain payload compressed where c: "compress_data gz frame = (payload, compressed)"
    by (cases "compress_data gz frame")
  then have "decompress_data gunzip payload compressed = Inr frame"
    using gzip by (auto simp: compress_data_def decompress_data_def split: if_splits option.splits)
  moreover have "take 7 frame = esc # bytes_of ''[H'' @ esc # bytes_of ''[2J''"
    using frame
    by (auto simp: generate_atomic_screen_frame_def bytes_of_def split: option.splits prod.splits)
  ultimately show ?thesis
    using live quota frame 1 2 c
    by (simp add: session_step_def send_tick_def raw_data_opt_def Let_def send_frame_def)
qed

theorem overflow_redraws_screen_witness:
  "\<exists>s' p. session_step line_vt100 run_gz Unwind 8 []
      ((session_start line_vt100 8 0 (sink []))\<lparr>phase := AwaitTick,
        send := \<lparr>tokens = 4096, seq = 0, last_tick = 0, pending_atomic_refresh = True\<rparr>\<rparr>) (Tick 20000000 True) = Some s' \<and>
    wire s' = [p] \<and> pty_buffer (state s') = []"
proof -
  let ?s = "(session_start line_vt100 8 0 (sink []))\<lparr>phase := AwaitTick,
        send := \<lparr>tokens = 4096, seq = 0, last_tick = 0, pending_atomic_refresh = True\<rparr>\<rparr>"
  have "refill 8 20000000 \<lparr>tokens = 4096, seq = 0, last_tick = 0, pending_atomic_refresh = True\<rparr> =
     \<lparr>tokens = 4096, seq = 0, last_tick = 20000000, pending_atomic_refresh = True\<rparr>"
    by code_simp
  then have q: "0 < tokens (refill 8 (last_tick (send ?s) + uint (20000000 :: u64)) (send ?s))"
    by simp
  have l: "phase ?s = AwaitTick" "wire ?s = []"
    "length (pty_buffer (state ?s)) > 16384 \<or> pending_atomic_refresh (send ?s)"
    by (simp_all add: session_over_def session_start_def)
  obtain frame where "generate_atomic_screen_frame line_vt100 (screen_parser (state ?s)) = Some frame"
    by (simp add: generate_atomic_screen_frame_def line_vt100_def)
  from overflow_redraws_screen [where ps = Unwind and key = "[]" and gz = run_gz and gunzip = run_gunzip, OF run_gzip l(1,3) q this] l(2) show ?thesis
    by auto
qed

text \<open>
  Buffered output is bounded: after every tick the server holds at most 16384 bytes for a slow
  client, however much the PTY wrote before.
\<close>
theorem tick_bounds_buffer:
  assumes "phase s = AwaitTick"
    and "session_step V gz ps kbps key s (Tick n ok) = Some s'"
  shows "length (pty_buffer (state s')) \<le> 16384"
proof -
  have r: "length (pty_buffer (state s1)) \<le> 16384" if "raw_data_opt V ps s0 = Some (r, s1)" for s0 r s1
    using that
    by (auto simp: raw_data_opt_def drop_overflow_def max_pty_buffer_cap_def Let_def
        split: if_splits option.splits panic_strategy.splits)
  have "send_tick V gz ps kbps (last_tick (send s) + uint n) ok s = Some s'"
    using assms by (simp add: session_step_def)
  then show ?thesis
  proof (cases rule: send_tick_cases)
    case none
    with r [OF none(1)] show ?thesis by simp
  next
    case some
    with r [OF some(1)] show ?thesis by (simp add: send_frame_def Let_def split: prod.splits)
  qed
qed

theorem tick_bounds_buffer_witness:
  "\<exists>s'. session_step line_vt100 run_gz Unwind 8 []
      ((session_start line_vt100 8 0 (sink []))\<lparr>phase := AwaitTick\<rparr>) (Tick 20000000 True) = Some s' \<and>
    length (pty_buffer (state s')) \<le> 16384"
proof -
  let ?s = "(session_start line_vt100 8 0 (sink []))\<lparr>phase := AwaitTick\<rparr>"
  have l: "phase ?s = AwaitTick"
    by simp
  obtain s' where s': "session_step line_vt100 run_gz Unwind 8 [] ?s (Tick 20000000 True) = Some s'"
    by (simp add: session_step_def session_over_def session_start_def send_tick_def raw_data_opt_def
        new_session_state_def drop_overflow_def max_pty_buffer_cap_def example_numbers Let_def)
  show ?thesis
    using tick_bounds_buffer [OF l s'] s' by blast
qed

section \<open>Long escape sequences\<close>

definition starved :: "u64 \<Rightarrow> bytes \<Rightarrow> packet list \<Rightarrow> 'vt session \<Rightarrow> bool" where
  "starved kbps buf ps s \<longleftrightarrow> pty_buffer (state s) = buf \<and> wire s = ps \<and>
     \<not> pending_atomic_refresh (send s) \<and> \<not> pty_closed s"

lemma as_usize_mono: "x \<le> y \<Longrightarrow> as_usize x \<le> as_usize y"
  unfolding as_usize_def by (intro nat_mono min.mono floor_mono order_refl)

lemma starved_tick:
  assumes "starved kbps buf ps s" "tokenize buf = t # ts" "as_usize (burst_capacity kbps) < length t"
    and "length buf \<le> 16384" "send_tick V gz st kbps now ok s = Some s'"
  shows "starved kbps buf ps s'"
proof -
  let ?s = "s\<lparr>send := refill kbps now (send s)\<rparr>"
  have d: "drop_overflow ?s = ?s"
    using assms(1,4) by (simp add: starved_def drop_overflow_def max_pty_buffer_cap_def)
  have "tokens (send ?s) \<le> burst_capacity kbps"
    by (simp add: refill_def Let_def)
  then have "as_usize (tokens (send ?s)) < length t"
    using as_usize_mono assms(3) by (meson le_less_trans)
  then have "find_safe_split_point buf (as_usize (tokens (send ?s))) = 0"
    by (rule blocked_by_first_token [OF assms(2)])
  with assms(1,5) d show ?thesis
    by (auto simp: send_tick_def raw_data_opt_def starved_def refill_def Let_def split: if_splits)
qed

text \<open>
  C30. An escape sequence longer than the burst capacity at the head of the buffer starves the
  client: while the PTY is quiet, no number of ticks sends anything, although the quota is full
  and the bytes are there.
\<close>
theorem long_sequence_starves_client:
  assumes "pty_buffer (state s) = buf" "\<not> pending_atomic_refresh (send s)" "\<not> pty_closed s"
    and "tokenize buf = t # ts" "as_usize (burst_capacity kbps) < length t" "length buf \<le> 16384"
    and "\<forall>e \<in> set evs. (\<exists>ok. e = SendTop ok) \<or> (\<exists>n ok. e = Tick n ok)"
    and "session_run V gz ps kbps key s evs = Some s'"
  shows "wire s' = wire s \<and> pty_buffer (state s') = buf"
proof -
  have "starved kbps buf (wire s) s" using assms(1-3) by (simp add: starved_def)
  then have "starved kbps buf (wire s) s'"
    using assms(7,8)
  proof (induction evs arbitrary: s)
    case (Cons e evs)
    from Cons.prems obtain s1 where s1: "session_step V gz ps kbps key s e = Some s1"
        "session_run V gz ps kbps key s1 evs = Some s'"
      by (auto simp: session_run_def bind_eq_Some_conv)
    have "starved kbps buf (wire s) s1"
      using Cons.prems(1,2) s1(1) starved_tick [OF Cons.prems(1) assms(4-6)]
      by (auto simp: session_step_def send_top_def starved_def split: if_splits)
    moreover from this have "wire s1 = wire s" by (simp add: starved_def)
    ultimately show ?case using Cons.IH [of s1] Cons.prems s1(2) by simp
  qed (simp add: session_run_def)
  then show ?thesis by (simp add: starved_def)
qed

lemma st_end_replicate: "b \<noteq> bel \<Longrightarrow> b \<noteq> esc \<Longrightarrow> st_end (replicate n b) = None"
  by (induction n) simp_all

lemma tokenize_open_osc: "tokenize (esc # 0x5D # replicate n 97) = [esc # 0x5D # replicate n 97]"
  by (simp add: esc_len_def st_end_replicate)

theorem long_sequence_starves_client_witness:
  "\<exists>s s'. pty_buffer (state s) = esc # 0x5D # replicate 3000 97 \<and>
     session_run line_vt100 run_gz Unwind 0 [] s [SendTop True, Tick 20000000 True, SendTop True, Tick 20000000 True] = Some s' \<and>
     wire s' = wire s \<and> pty_buffer (state s') = esc # 0x5D # replicate 3000 97"
proof -
  let ?buf = "esc # 0x5D # replicate 3000 97 :: bytes"
  let ?evs = "[SendTop True, Tick 20000000 True, SendTop True, Tick 20000000 True]"
  let ?s = "(session_start line_vt100 0 0 (sink []))\<lparr>state := \<lparr>screen_parser = vt_new line_vt100 24 80 1000, pty_buffer = ?buf\<rparr>\<rparr>"
  have b: "burst_capacity 0 = 2048" by code_simp
  have 1: "pty_buffer (state ?s) = ?buf" "\<not> pending_atomic_refresh (send ?s)" "\<not> pty_closed ?s"
    by (simp_all only: session_start_def send_task_start_def session.simps server_session_state.simps send_task.simps simp_thms)
  have 2: "as_usize (burst_capacity 0) < length ?buf" "length ?buf \<le> 16384"
    unfolding b by (simp_all add: as_usize_def)
  have 3: "\<forall>e \<in> set ?evs. (\<exists>ok. e = SendTop ok) \<or> (\<exists>n ok. e = Tick n ok)" by auto
  obtain s' where s': "session_run line_vt100 run_gz Unwind 0 [] ?s ?evs = Some s'"
    using session_run_unwind by blast
  show ?thesis
    using long_sequence_starves_client [OF 1 tokenize_open_osc 2 3 s'] s' 1(1) by blast
qed

end
