(* ===== verification/Predictive.thy ===== *)
theory Predictive
  imports Ansi Vt100 Rust_Io
begin

text \<open>
  Predictive local echo, \<^verbatim>\<open>src/predictive.rs\<close>: the predictor with every operation of its interface,
  the terminal it writes to as a writer that may fail, the emulator as a parameter. Clock readings
  are a function of the position of the byte that asks for the time. The styling sequences of
  \<^verbatim>\<open>crossterm\<close> are parameters too. The theorems: the invariant of a suspended or disabled predictor,
  the exact effect of a burst of printable keys, the balance between glyphs drawn and predictions
  held, and what a server frame does to the predictions.
\<close>

section \<open>State\<close>

record predicted_cell =
  row :: u16
  col :: u16
  character :: rchar
  epoch :: u64
  timestamp :: nat

record 'vt predictor =
  enabled :: bool
  prediction_epoch :: u64
  confirmed_epoch :: u64
  predictions :: "predicted_cell list"
  vt_parser :: 'vt
  suspend_predictions :: bool

text \<open>The bytes \<^verbatim>\<open>crossterm\<close> prints for the two attributes used.\<close>

record style =
  underlined :: bytes
  reset_attr :: bytes

section \<open>Operations\<close>

definition new_predictor :: "'vt vt100 \<Rightarrow> bool \<Rightarrow> 'vt predictor" where
  "new_predictor V en =
     \<lparr>enabled = en, prediction_epoch = 1, confirmed_epoch = 0, predictions = [],
      vt_parser = vt_new V 24 80 1000, suspend_predictions = False\<rparr>"

definition set_suspended :: "'vt predictor \<Rightarrow> bool \<Rightarrow> 'vt predictor" where
  "set_suspended p suspended =
     (let p = p\<lparr>suspend_predictions := suspended\<rparr> in
      if suspended then p\<lparr>predictions := []\<rparr> else p)"

definition set_size :: "'vt vt100 \<Rightarrow> 'vt predictor \<Rightarrow> u16 \<Rightarrow> u16 \<Rightarrow> 'vt predictor" where
  "set_size V p rows cols = p\<lparr>vt_parser := vt_new V (max rows 1) (max cols 1) 1000\<rparr>"

definition active_predictions :: "'vt predictor \<Rightarrow> nat" where
  "active_predictions p = length (predictions p)"

definition become_tentative :: "'vt predictor \<Rightarrow> 'vt predictor" where
  "become_tentative p = p\<lparr>prediction_epoch := prediction_epoch p + 1\<rparr>"

definition erase :: bytes where
  "erase = [8, 32, 8]"

fun write_times :: "nat \<Rightarrow> bytes \<Rightarrow> writer \<Rightarrow> io_error option \<times> writer" where
  "write_times 0 bs out = (None, out)"
| "write_times (Suc n) bs out =
     (case write_all out bs of
        (Some e, out) \<Rightarrow> (Some e, out)
      | (None, out) \<Rightarrow> write_times n bs out)"

definition clear_predictions ::
  "'vt predictor \<Rightarrow> writer \<Rightarrow> io_error option \<times> 'vt predictor \<times> writer" where
  "clear_predictions p out =
     (if enabled p \<and> predictions p \<noteq> [] then
        (case write_times (length (predictions p)) erase out of
           (Some e, out) \<Rightarrow> (Some e, p, out)
         | (None, out) \<Rightarrow>
             (let p = p\<lparr>predictions := []\<rparr>; (r, out) = flush out in (r, p, out)))
      else (None, p, out))"

definition reset_predictions :: "'vt predictor \<Rightarrow> 'vt predictor" where
  "reset_predictions p = p\<lparr>predictions := []\<rparr>"

definition reset :: "'vt predictor \<Rightarrow> 'vt predictor" where
  "reset p = become_tentative (reset_predictions p)"

text \<open>
  The body of the loop over the typed bytes; the cursor column wraps at 16 bits. \<open>now\<close> is the time
  the byte is processed.
\<close>

definition echo_bytes :: "style \<Rightarrow> u8 \<Rightarrow> bytes" where
  "echo_bytes st byte = underlined st @ [byte] @ reset_attr st"

definition key_byte ::
  "style \<Rightarrow> nat \<Rightarrow> u8 \<Rightarrow> 'vt predictor \<times> u16 \<times> u16 \<times> writer
     \<Rightarrow> io_error option \<times> 'vt predictor \<times> u16 \<times> u16 \<times> writer" where
  "key_byte st now byte s =
     (case s of (p, cur_row, cur_col, out) \<Rightarrow>
        if 32 \<le> byte \<and> byte \<le> 126 then
          (let p = p\<lparr>predictions := predictions p @
                 [\<lparr>row = cur_row, col = cur_col, character = unat byte,
                   epoch = prediction_epoch p, timestamp = now\<rparr>]\<rparr> in
           (case write_all out (echo_bytes st byte) of
              (Some e, out) \<Rightarrow> (Some e, p, cur_row, cur_col, out)
            | (None, out) \<Rightarrow> (None, p, cur_row, cur_col + 1, out)))
        else if byte = 13 \<or> byte = 10 then
          (case clear_predictions (become_tentative p) out of
             (r, p, out) \<Rightarrow> (r, p, cur_row, cur_col, out))
        else if byte = 8 \<or> byte = 127 then
          (if predictions p = [] then (None, p, cur_row, cur_col, out)
           else
             (let last_pred = last (predictions p); p = p\<lparr>predictions := butlast (predictions p)\<rparr> in
              (case write_all out erase of
                 (Some e, out) \<Rightarrow> (Some e, p, cur_row, cur_col, out)
               | (None, out) \<Rightarrow> (None, p, row last_pred, col last_pred, out))))
        else
          (case clear_predictions (become_tentative p) out of
             (r, p, out) \<Rightarrow> (r, p, cur_row, cur_col, out)))"

fun key_loop ::
  "style \<Rightarrow> (nat \<Rightarrow> nat) \<Rightarrow> nat \<Rightarrow> bytes \<Rightarrow> 'vt predictor \<times> u16 \<times> u16 \<times> writer
     \<Rightarrow> io_error option \<times> 'vt predictor \<times> u16 \<times> u16 \<times> writer" where
  "key_loop st clock i [] s = (None, s)"
| "key_loop st clock i (byte # data) s =
     (case key_byte st (clock i) byte s of
        (Some e, s) \<Rightarrow> (Some e, s)
      | (None, s) \<Rightarrow> key_loop st clock (i + 1) data s)"

definition handle_keystroke ::
  "'vt vt100 \<Rightarrow> style \<Rightarrow> (nat \<Rightarrow> nat) \<Rightarrow> 'vt predictor \<Rightarrow> writer \<Rightarrow> bytes
     \<Rightarrow> io_error option \<times> 'vt predictor \<times> writer" where
  "handle_keystroke V st clock p out data =
     (if \<not> enabled p \<or> suspend_predictions p then (None, p, out)
      else if 27 \<in> set data then clear_predictions (become_tentative p) out
      else
        (let (cur_row, cur_col) = vt_cursor_position V (vt_parser p) in
         case key_loop st clock 0 data (p, cur_row, cur_col, out) of
           (Some e, p, _, _, out) \<Rightarrow> (Some e, p, out)
         | (None, p, _, _, out) \<Rightarrow> (let (r, out) = flush out in (r, p, out))))"

section \<open>Server frames\<close>

definition enables_alt :: "bytes \<Rightarrow> bool" where
  "enables_alt raw \<longleftrightarrow>
     contains_subslice raw (esc # bytes_of ''[?1049h'') \<or> contains_subslice raw (esc # bytes_of ''[?1047h'')
     \<or> contains_subslice raw (esc # bytes_of ''[?47h'')"

definition disables_alt :: "bytes \<Rightarrow> bool" where
  "disables_alt raw \<longleftrightarrow>
     contains_subslice raw (esc # bytes_of ''[?1049l'') \<or> contains_subslice raw (esc # bytes_of ''[?1047l'')
     \<or> contains_subslice raw (esc # bytes_of ''[?47l'')"

definition clears_screen :: "bytes \<Rightarrow> bool" where
  "clears_screen raw \<longleftrightarrow>
     contains_subslice raw (esc # bytes_of ''[H'' @ esc # bytes_of ''[2J'')
     \<or> contains_subslice raw (esc # bytes_of ''[2J'')"

definition is_matched :: "'vt vt100 \<Rightarrow> 'vt \<Rightarrow> predicted_cell \<Rightarrow> bool" where
  "is_matched V screen pred =
     (case vt_cell V screen (row pred) (col pred) of
        Some contents \<Rightarrow> contents = [character pred]
      | None \<Rightarrow> False)"

text \<open>The culling loop: its result is the predictions, the number confirmed and the confirmed epoch.\<close>

function cull_loop ::
  "'vt vt100 \<Rightarrow> 'vt \<Rightarrow> nat \<Rightarrow> nat \<Rightarrow> predicted_cell list \<Rightarrow> u64 \<Rightarrow> predicted_cell list \<times> nat \<times> u64" where
  "cull_loop V screen idx confirmed_count preds confirmed =
     (if idx < length preds then
        (let pred = preds ! idx in
         if is_matched V screen pred then
           cull_loop V screen (idx + 1) (confirmed_count + 1) preds
             (if epoch pred > confirmed then epoch pred else confirmed)
         else (take idx preds, confirmed_count, confirmed))
      else (preds, confirmed_count, confirmed))"
  by pat_completeness auto
termination
  by (relation "measure (\<lambda>(V, screen, idx, confirmed_count, preds, confirmed). length preds - idx)") auto

declare cull_loop.simps [simp del]

definition cull_predictions :: "'vt vt100 \<Rightarrow> 'vt predictor \<Rightarrow> 'vt predictor" where
  "cull_predictions V p =
     (let (preds, confirmed_count, confirmed) =
            cull_loop V (vt_parser p) 0 0 (predictions p) (confirmed_epoch p);
          p = p\<lparr>predictions := preds, confirmed_epoch := confirmed\<rparr> in
      if confirmed_count > 0 then p\<lparr>predictions := drop confirmed_count (predictions p)\<rparr> else p)"

text \<open>\<open>None\<close>: the emulator panicked and the binary aborts on panic.\<close>

definition inspect_server_frame ::
  "'vt vt100 \<Rightarrow> panic_strategy \<Rightarrow> 'vt predictor \<Rightarrow> bytes \<Rightarrow> writer \<Rightarrow> ('vt predictor \<times> writer) option" where
  "inspect_server_frame V ps p raw out =
     (if \<not> enabled p then Some (p, out)
      else case process_safely V ps (vt_parser p) raw of
        None \<Rightarrow> None
      | Some vt \<Rightarrow>
          (let p = p\<lparr>vt_parser := vt\<rparr> in
           if enables_alt raw then
             (case clear_predictions p out of
                (_, p, out) \<Rightarrow> Some (p\<lparr>suspend_predictions := True, predictions := []\<rparr>, out))
           else
             (let p = (if disables_alt raw then p\<lparr>suspend_predictions := False, predictions := []\<rparr> else p) in
              if clears_screen raw then Some (reset_predictions p, out)
              else Some (cull_predictions V p, out))))"

section \<open>Lemmas\<close>

lemma frame_fields [frame_simps]:
  "enabled (become_tentative p) = enabled p" "suspend_predictions (become_tentative p) = suspend_predictions p"
  "predictions (become_tentative p) = predictions p" "vt_parser (become_tentative p) = vt_parser p"
  "enabled (reset_predictions p) = enabled p" "suspend_predictions (reset_predictions p) = suspend_predictions p"
  "predictions (reset_predictions p) = []"
  by (simp_all add: become_tentative_def reset_predictions_def)

lemma write_times_sink [simp]: "write_times n bs (sink o1) = (None, sink (o1 @ concat (replicate n bs)))"
  by (induction n arbitrary: o1) simp_all

lemma clear_predictions_sink:
  "clear_predictions p (sink o1) =
     (if enabled p \<and> predictions p \<noteq> []
      then (None, p\<lparr>predictions := []\<rparr>, sink (o1 @ concat (replicate (length (predictions p)) erase)))
      else (None, p, sink o1))"
  by (simp add: clear_predictions_def Let_def)

lemma clear_predictions_cases:
  "clear_predictions p out = (r, p', out') \<Longrightarrow> p' = p \<or> p' = p\<lparr>predictions := []\<rparr>"
  by (auto simp: clear_predictions_def Let_def split: if_splits prod.splits option.splits)

lemma clear_predictions_enabled:
  "clear_predictions p out = (r, p', out') \<Longrightarrow> (p' = p\<lparr>predictions := []\<rparr>) \<or> (p' = p \<and> (r \<noteq> None \<or> \<not> enabled p \<or> predictions p = []))"
  by (auto simp: clear_predictions_def Let_def split: if_splits prod.splits option.splits)

text \<open>The culling loop confirms the longest prefix of matching predictions and keeps none.\<close>

lemma cull_loop_eq:
  "idx \<le> length preds \<Longrightarrow>
   cull_loop V screen idx n preds e =
     (let m = takeWhile (is_matched V screen) (drop idx preds) in
      (take (idx + length m) preds, n + length m, fold (\<lambda>c e. max e (epoch c)) m e))"
proof (induction V screen idx n preds e rule: cull_loop.induct)
  case (1 V screen idx n preds e)
  show ?case
  proof (cases "idx < length preds")
    case True
    then have d: "drop idx preds = preds ! idx # drop (idx + 1) preds"
      by (simp add: Cons_nth_drop_Suc)
    have m: "(if epoch (preds ! idx) > e then epoch (preds ! idx) else e) = max e (epoch (preds ! idx))"
      by (cases "epoch (preds ! idx) > e") (auto simp: max_def)
    show ?thesis
      using 1 True
      by (cases "is_matched V screen (preds ! idx)")
        (simp_all add: d m cull_loop.simps [of V screen idx] Let_def)
  qed (use 1 in \<open>simp add: cull_loop.simps [of V screen "length preds"]\<close>)
qed

lemma cull_predictions_eq:
  "cull_predictions V p =
     p\<lparr>predictions := [],
       confirmed_epoch := fold (\<lambda>c e. max e (epoch c))
         (takeWhile (is_matched V (vt_parser p)) (predictions p)) (confirmed_epoch p)\<rparr>"
  by (simp add: cull_predictions_def cull_loop_eq Let_def)

section \<open>The invariant\<close>

definition printable :: "u8 \<Rightarrow> bool" where
  "printable b \<longleftrightarrow> 32 \<le> b \<and> b \<le> 126"

definition pred_ok :: "'vt predictor \<Rightarrow> bool" where
  "pred_ok p \<longleftrightarrow> (\<not> enabled p \<or> suspend_predictions p \<longrightarrow> predictions p = []) \<and>
     list_all (\<lambda>c. 32 \<le> character c \<and> character c \<le> 126) (predictions p)"

text \<open>Every call a client can make, in any order.\<close>

datatype pred_call =
    Keystroke "nat \<Rightarrow> nat" bytes
  | Frame bytes
  | SetSize u16 u16
  | SetSuspended bool
  | ClearPredictions
  | ResetPredictions
  | Reset

type_synonym 'vt pred_world = "('vt predictor \<times> writer) option"

definition pred_call ::
  "'vt vt100 \<Rightarrow> style \<Rightarrow> panic_strategy \<Rightarrow> 'vt pred_world \<Rightarrow> pred_call \<Rightarrow> 'vt pred_world" where
  "pred_call V st ps w c =
     (case w of
        None \<Rightarrow> None
      | Some (p, out) \<Rightarrow>
          (case c of
             Keystroke clock data \<Rightarrow> Some (snd (handle_keystroke V st clock p out data))
           | Frame raw \<Rightarrow> inspect_server_frame V ps p raw out
           | SetSize r c \<Rightarrow> Some (set_size V p r c, out)
           | SetSuspended b \<Rightarrow> Some (set_suspended p b, out)
           | ClearPredictions \<Rightarrow> Some (snd (clear_predictions p out))
           | ResetPredictions \<Rightarrow> Some (reset_predictions p, out)
           | Reset \<Rightarrow> Some (reset p, out)))"

definition world_ok :: "'vt pred_world \<Rightarrow> bool" where
  "world_ok w \<longleftrightarrow> (case w of None \<Rightarrow> True | Some (p, out) \<Rightarrow> pred_ok p)"

lemma clear_predictions_ok: "pred_ok p \<Longrightarrow> pred_ok (fst (snd (clear_predictions p out)))"
proof -
  assume "pred_ok p"
  obtain r p' out' where c: "clear_predictions p out = (r, p', out')"
    by (cases "clear_predictions p out")
  with \<open>pred_ok p\<close> clear_predictions_cases [OF c] show ?thesis
    by (auto simp: pred_ok_def)
qed

lemma become_tentative_ok: "pred_ok (become_tentative p) = pred_ok p"
  by (simp add: pred_ok_def frame_simps)

lemma printable_char: "32 \<le> b \<and> b \<le> (126 :: u8) \<Longrightarrow> 32 \<le> unat b \<and> unat b \<le> 126"
  by (simp add: word_le_nat_alt)

lemma clear_predictions_fields:
  assumes "clear_predictions p out = (r, p', out')"
  shows "enabled p' = enabled p \<and> suspend_predictions p' = suspend_predictions p"
  using clear_predictions_cases [OF assms] by auto

lemma key_byte_ok:
  assumes "key_byte st now b (p, cr, cc, out) = (r, p', cr', cc', out')"
    and "pred_ok p" "enabled p" "\<not> suspend_predictions p"
  shows "pred_ok p' \<and> enabled p' \<and> \<not> suspend_predictions p'"
proof -
  obtain r1 p1 out1 where c: "clear_predictions (become_tentative p) out = (r1, p1, out1)"
    by (cases "clear_predictions (become_tentative p) out")
  have "pred_ok p1 \<and> enabled p1 \<and> \<not> suspend_predictions p1"
    using clear_predictions_ok [of "become_tentative p" out] clear_predictions_fields [OF c] c assms
    by (simp add: become_tentative_ok frame_simps)
  then have cleared: ?thesis if "p' = p1"
    using that by simp
  consider "32 \<le> b \<and> b \<le> 126" | "\<not> (32 \<le> b \<and> b \<le> 126)" "b = 8 \<or> b = 127"
    | "\<not> (32 \<le> b \<and> b \<le> 126)" "\<not> (b = 8 \<or> b = 127)"
    by blast
  then show ?thesis
  proof cases
    case 1
    have "p' = p\<lparr>predictions := predictions p @
        [\<lparr>row = cr, col = cc, character = unat b, epoch = prediction_epoch p, timestamp = now\<rparr>]\<rparr>"
      using assms(1) 1 by (auto simp: key_byte_def Let_def split: prod.splits option.splits)
    then show ?thesis
      using assms printable_char [OF 1] by (simp add: pred_ok_def)
  next
    case 2
    have "p' = p \<or> p' = p\<lparr>predictions := butlast (predictions p)\<rparr>"
      using assms(1) 2 by (simp add: key_byte_def Let_def split: if_splits prod.splits option.splits) auto
    moreover have "list_all P (butlast cs)" if "list_all P cs" for P and cs :: "predicted_cell list"
      using that by (auto simp: list_all_iff dest: in_set_butlastD)
    ultimately show ?thesis
      using assms(2-4) by (auto simp: pred_ok_def)
  next
    case 3
    have "p' = p1"
      using assms(1) 3 c by (simp add: key_byte_def split: if_splits)
    then show ?thesis by (rule cleared)
  qed
qed

lemma key_loop_ok:
  "key_loop st clock i data (p, cr, cc, out) = (r, p', cr', cc', out') \<Longrightarrow>
   pred_ok p \<Longrightarrow> enabled p \<Longrightarrow> \<not> suspend_predictions p \<Longrightarrow> pred_ok p'"
proof (induction data arbitrary: i p cr cc out)
  case (Cons b data)
  obtain r1 p1 cr1 cc1 out1 where k: "key_byte st (clock i) b (p, cr, cc, out) = (r1, p1, cr1, cc1, out1)"
    by (cases "key_byte st (clock i) b (p, cr, cc, out)")
  with Cons show ?case
    using key_byte_ok [OF k] by (cases r1) auto
qed simp

lemma handle_keystroke_ok: "pred_ok p \<Longrightarrow> pred_ok (fst (snd (handle_keystroke V st clock p out data)))"
proof -
  assume p: "pred_ok p"
  obtain cr cc where cur: "vt_cursor_position V (vt_parser p) = (cr, cc)"
    by (cases "vt_cursor_position V (vt_parser p)")
  obtain r1 p1 cr1 cc1 out1 where k: "key_loop st clock 0 data (p, cr, cc, out) = (r1, p1, cr1, cc1, out1)"
    by (cases "key_loop st clock 0 data (p, cr, cc, out)")
  show ?thesis
    using p key_loop_ok [OF k p] clear_predictions_ok [of "become_tentative p" out]
    by (auto simp: handle_keystroke_def cur k become_tentative_ok split: option.splits prod.splits)
qed

lemma inspect_server_frame_ok:
  "pred_ok p \<Longrightarrow> inspect_server_frame V ps p raw out = Some (p', out') \<Longrightarrow> pred_ok p'"
  by (auto simp: inspect_server_frame_def Let_def cull_predictions_eq reset_predictions_def pred_ok_def
      split: if_splits option.splits prod.splits dest!: clear_predictions_cases)

interpretation pred: step_invariant "pred_call V st ps" world_ok for V :: "'vt vt100" and st ps
proof unfold_locales
  fix w :: "'vt pred_world" and c
  assume w: "world_ok w"
  show "world_ok (pred_call V st ps w c)"
  proof (cases w)
    case None
    then show ?thesis by (simp add: pred_call_def world_ok_def)
  next
    case (Some s)
    obtain p out where s: "s = (p, out)" by (cases s)
    with w Some have p: "pred_ok p" by (simp add: world_ok_def)
    show ?thesis
    proof (cases c)
      case (Frame raw)
      then show ?thesis
        using inspect_server_frame_ok [OF p] s Some
        by (auto simp: pred_call_def world_ok_def split: option.splits)
    qed (use p s Some handle_keystroke_ok [OF p] clear_predictions_ok [OF p] in
        \<open>auto simp: pred_call_def world_ok_def split_beta pred_ok_def set_size_def set_suspended_def
          reset_predictions_def reset_def become_tentative_def Let_def\<close>)
  qed
qed

text \<open>No call turns prediction on or off.\<close>

definition world_enabled :: "bool \<Rightarrow> 'vt pred_world \<Rightarrow> bool" where
  "world_enabled en w \<longleftrightarrow> (case w of None \<Rightarrow> True | Some (p, out) \<Rightarrow> enabled p = en)"

lemma clear_predictions_keeps_enabled: "enabled (fst (snd (clear_predictions p out))) = enabled p"
  using clear_predictions_cases [of p out] by (cases "clear_predictions p out") fastforce

lemma key_byte_keeps_enabled: "enabled (fst (snd (key_byte st now b (p, r, c, out)))) = enabled p"
  using clear_predictions_keeps_enabled [of "become_tentative p" out]
  by (cases "write_all out (echo_bytes st b)"; cases "fst (write_all out (echo_bytes st b))";
      cases "write_all out erase"; cases "fst (write_all out erase)";
      cases "clear_predictions (become_tentative p) out")
    (simp_all add: key_byte_def Let_def frame_simps)

lemma key_loop_keeps_enabled: "enabled (fst (snd (key_loop st clock i data (p, r, c, out)))) = enabled p"
proof (induction data arbitrary: i p r c out)
  case (Cons b data)
  obtain r1 p1 cr1 cc1 out1 where k: "key_byte st (clock i) b (p, r, c, out) = (r1, p1, cr1, cc1, out1)"
    by (cases "key_byte st (clock i) b (p, r, c, out)")
  then show ?case
    using Cons key_byte_keeps_enabled [of st "clock i" b p r c out] by (cases r1) simp_all
qed simp

lemma handle_keystroke_keeps_enabled:
  "enabled (fst (snd (handle_keystroke V st clock p out data))) = enabled p"
proof -
  obtain r c where cur: "vt_cursor_position V (vt_parser p) = (r, c)"
    by (cases "vt_cursor_position V (vt_parser p)")
  obtain r1 p1 r' c' out1 where k: "key_loop st clock 0 data (p, r, c, out) = (r1, p1, r', c', out1)"
    by (cases "key_loop st clock 0 data (p, r, c, out)")
  then show ?thesis
    using key_loop_keeps_enabled [of st clock 0 data p r c out]
      clear_predictions_keeps_enabled [of "become_tentative p" out]
    by (auto simp: handle_keystroke_def cur frame_simps split: option.splits prod.splits)
qed

lemma inspect_server_frame_keeps_enabled:
  "inspect_server_frame V ps p raw out = Some (p', out') \<Longrightarrow> enabled p' = enabled p"
  by (auto simp: inspect_server_frame_def Let_def cull_predictions_eq reset_predictions_def
      split: if_splits option.splits prod.splits dest!: clear_predictions_cases)

interpretation pred_enabled: step_invariant "pred_call V st ps" "world_enabled en"
  for V :: "'vt vt100" and st ps en
proof unfold_locales
  fix w :: "'vt pred_world" and c
  assume w: "world_enabled en w"
  show "world_enabled en (pred_call V st ps w c)"
  proof (cases w)
    case (Some s)
    obtain p out where s: "s = (p, out)" by (cases s)
    show ?thesis
      using w s Some handle_keystroke_keeps_enabled [of V st _ p out] clear_predictions_keeps_enabled [of p out]
        inspect_server_frame_keeps_enabled [of V ps p _ out]
      by (cases c) (auto simp: pred_call_def world_enabled_def split_beta set_size_def set_suspended_def
          reset_predictions_def reset_def become_tentative_def Let_def split: option.splits)
  qed (simp add: pred_call_def world_enabled_def)
qed

section \<open>Bursts of keys\<close>

text \<open>The predictions of a burst of printable keys typed at a cursor position.\<close>

definition burst_cells :: "'vt predictor \<Rightarrow> (nat \<Rightarrow> nat) \<Rightarrow> u16 \<Rightarrow> u16 \<Rightarrow> bytes \<Rightarrow> predicted_cell list" where
  "burst_cells p clock r c data =
     map (\<lambda>i. \<lparr>row = r, col = c + word_of_nat i, character = unat (data ! i),
               epoch = prediction_epoch p, timestamp = clock i\<rparr>) [0..<length data]"

lemma key_byte_printable:
  "printable b \<Longrightarrow> key_byte st now b (p, cr, cc, sink o1) =
     (None, p\<lparr>predictions := predictions p @ [\<lparr>row = cr, col = cc, character = unat b,
        epoch = prediction_epoch p, timestamp = now\<rparr>]\<rparr>, cr, cc + 1, sink (o1 @ echo_bytes st b))"
  by (simp add: key_byte_def printable_def Let_def)

lemma burst_cells_Cons:
  "burst_cells p clock r c (b # data) =
     \<lparr>row = r, col = c, character = unat b, epoch = prediction_epoch p, timestamp = clock 0\<rparr>
     # burst_cells p (\<lambda>i. clock (i + 1)) r (c + 1) data"
  unfolding burst_cells_def
  by (simp only: length_Cons upt_rec [of 0] map_Suc_upt [symmetric] list.map map_map)
    (simp add: o_def add.assoc)

lemma key_loop_burst:
  "list_all printable data \<Longrightarrow>
   key_loop st clock i data (p, r, c, sink o1) =
     (None, p\<lparr>predictions := predictions p @ burst_cells p (\<lambda>j. clock (i + j)) r c data\<rparr>,
      r, c + word_of_nat (length data), sink (o1 @ concat (map (echo_bytes st) data)))"
proof (induction data arbitrary: i p c o1)
  case Nil
  then show ?case by (simp add: burst_cells_def)
next
  case (Cons b data)
  then show ?case
    by (simp add: key_byte_printable burst_cells_Cons) (simp add: burst_cells_def ac_simps)
qed

lemma printable_not_esc: "list_all printable data \<Longrightarrow> 27 \<notin> set data"
  by (auto simp: list_all_iff printable_def)

text \<open>
  C25. A burst of printable keys typed while prediction is on draws each key once, underlined, in
  order, and records one prediction per key: the burst occupies consecutive columns from the
  cursor of the emulated screen, under the current epoch.
\<close>
theorem printable_burst_predicted:
  assumes "enabled p" "\<not> suspend_predictions p" "list_all printable data"
    and "vt_cursor_position V (vt_parser p) = (r, c)"
  shows "handle_keystroke V st clock p (sink o1) data =
    (None, p\<lparr>predictions := predictions p @
        map (\<lambda>i. \<lparr>row = r, col = c + word_of_nat i, character = unat (data ! i),
               epoch = prediction_epoch p, timestamp = clock i\<rparr>) [0..<length data]\<rparr>,
     sink (o1 @ concat (map (\<lambda>b. underlined st @ [b] @ reset_attr st) data)))"
proof -
  have e: "echo_bytes st = (\<lambda>b. underlined st @ [b] @ reset_attr st)"
    by (simp add: fun_eq_iff echo_bytes_def)
  show ?thesis
    using assms printable_not_esc [OF assms(3)]
    by (simp add: handle_keystroke_def key_loop_burst e burst_cells_def)
qed

theorem printable_burst_predicted_witness:
  "handle_keystroke line_vt100 \<lparr>underlined = [1], reset_attr = [2]\<rparr> (\<lambda>i. 7 + i)
     (new_predictor line_vt100 True) (sink []) [104, 105] =
   (None, (new_predictor line_vt100 True)\<lparr>predictions :=
      [\<lparr>row = 0, col = 0, character = 104, epoch = 1, timestamp = 7\<rparr>,
       \<lparr>row = 0, col = 1, character = 105, epoch = 1, timestamp = 8\<rparr>]\<rparr>,
    sink [1, 104, 2, 1, 105, 2])"
  by (subst printable_burst_predicted [where r = 0 and c = 0])
    (simp_all add: new_predictor_def line_vt100_def printable_def upt_rec)

section \<open>Glyphs drawn and predictions held\<close>

datatype draw = Draw u8 | Erase

fun draw_bytes :: "style \<Rightarrow> draw \<Rightarrow> bytes" where
  "draw_bytes st (Draw b) = underlined st @ [b] @ reset_attr st"
| "draw_bytes st Erase = [8, 32, 8]"

text \<open>The glyphs left on the line after some drawing; \<open>None\<close> when an erasure hits foreign text.\<close>

fun glyphs :: "rstring \<Rightarrow> draw list \<Rightarrow> rstring option" where
  "glyphs g [] = Some g"
| "glyphs g (Draw b # ds) = glyphs (g @ [unat b]) ds"
| "glyphs g (Erase # ds) = (if g = [] then None else glyphs (butlast g) ds)"

lemma glyphs_append: "glyphs g (ds @ es) = Option.bind (glyphs g ds) (\<lambda>g. glyphs g es)"
  by (induction g ds rule: glyphs.induct) simp_all

lemma glyphs_erase_all: "glyphs g (replicate (length g) Erase) = Some []"
  by (induction g rule: rev_induct) simp_all

text \<open>Some drawing leads from the predictions of \<open>p\<close> to those of \<open>p'\<close> and is what was printed.\<close>

definition draws :: "style \<Rightarrow> 'vt predictor \<Rightarrow> bytes \<Rightarrow> 'vt predictor \<Rightarrow> bytes \<Rightarrow> bool" where
  "draws st p o1 p' o2 \<longleftrightarrow>
     (\<exists>ds. o2 = o1 @ concat (map (draw_bytes st) ds) \<and>
        glyphs (map character (predictions p)) ds = Some (map character (predictions p')))"

lemma draws_refl: "predictions p' = predictions p \<Longrightarrow> draws st p o1 p' o1"
  unfolding draws_def by (rule exI [of _ "[]"]) simp

lemma draws_trans: "draws st p o1 p' o2 \<Longrightarrow> draws st p' o2 p'' o3 \<Longrightarrow> draws st p o1 p'' o3"
  unfolding draws_def by (metis append.assoc concat_append map_append glyphs_append bind.bind_lunit)

lemma clear_predictions_draws:
  assumes "enabled p"
  shows "\<exists>p' o2. clear_predictions p (sink o1) = (None, p', sink o2) \<and> draws st p o1 p' o2 \<and> enabled p'"
proof -
  let ?n = "length (predictions p)"
  have g: "glyphs (map character (predictions p)) (replicate ?n Erase) = Some []"
    using glyphs_erase_all [of "map character (predictions p)"] by simp
  have "draws st p o1 (p\<lparr>predictions := []\<rparr>) (o1 @ concat (replicate ?n erase))"
    unfolding draws_def by (rule exI [of _ "replicate ?n Erase"]) (simp add: g erase_def map_replicate_const)
  with assms show ?thesis
    by (auto simp: clear_predictions_sink intro: draws_refl)
qed

lemma key_byte_draws:
  assumes "enabled p"
  shows "\<exists>p' r' c' o2. key_byte st now b (p, r, c, sink o1) = (None, p', r', c', sink o2)
    \<and> draws st p o1 p' o2 \<and> enabled p'"
proof -
  have t: "enabled (become_tentative p)" using assms by (simp add: frame_simps)
  obtain p1 o1' where c: "clear_predictions (become_tentative p) (sink o1) = (None, p1, sink o1')"
    and d: "draws st (become_tentative p) o1 p1 o1'" and e: "enabled p1"
    using clear_predictions_draws [OF t] by blast
  have d1: "draws st p o1 p1 o1'"
    by (rule draws_trans [OF draws_refl d]) (simp add: frame_simps)
  consider "printable b" | "\<not> printable b" "b = 8 \<or> b = 127" | "\<not> printable b" "\<not> (b = 8 \<or> b = 127)"
    by blast
  then show ?thesis
  proof cases
    case 1
    show ?thesis
      unfolding key_byte_printable [OF 1]
      using assms by (fastforce simp: draws_def echo_bytes_def intro: exI [of _ "[Draw b]"])
  next
    case 2
    have "draws st p o1 (p\<lparr>predictions := butlast (predictions p)\<rparr>) (o1 @ erase)" if "predictions p \<noteq> []"
      using that unfolding draws_def by (intro exI [of _ "[Erase]"]) (simp add: erase_def map_butlast)
    with 2 assms show ?thesis
      by (auto simp: key_byte_def printable_def Let_def intro: draws_refl)
  next
    case 3
    with c d1 e show ?thesis by (auto simp: key_byte_def printable_def)
  qed
qed

lemma key_loop_draws:
  "enabled p \<Longrightarrow> \<exists>p' r' c' o2. key_loop st clock i data (p, r, c, sink o1) = (None, p', r', c', sink o2)
     \<and> draws st p o1 p' o2 \<and> enabled p'"
proof (induction data arbitrary: i p r c o1)
  case Nil
  then show ?case by (auto intro: draws_refl)
next
  case (Cons b data)
  obtain p1 r1 c1 o2 where 1: "key_byte st (clock i) b (p, r, c, sink o1) = (None, p1, r1, c1, sink o2)"
      "draws st p o1 p1 o2" "enabled p1"
    using key_byte_draws [OF Cons.prems] by blast
  then show ?case
    using Cons.IH [OF 1(3), of "i + 1" r1 c1 o2] by (auto intro: draws_trans)
qed

lemma handle_keystroke_draws:
  "\<exists>p' o2. handle_keystroke V st clock p (sink o1) data = (None, p', sink o2) \<and> draws st p o1 p' o2"
proof -
  obtain r c where cur: "vt_cursor_position V (vt_parser p) = (r, c)"
    by (cases "vt_cursor_position V (vt_parser p)")
  show ?thesis
  proof (cases "enabled p \<and> \<not> suspend_predictions p")
    case False
    then show ?thesis by (auto simp: handle_keystroke_def intro: draws_refl)
  next
    case True
    then have "enabled (become_tentative p)" by (simp add: frame_simps)
    from clear_predictions_draws [OF this] obtain p1 o2 where
      "clear_predictions (become_tentative p) (sink o1) = (None, p1, sink o2)"
      "draws st (become_tentative p) o1 p1 o2" by blast
    moreover from this have "draws st p o1 p1 o2"
      by (intro draws_trans [OF draws_refl [of "become_tentative p" p]]) (simp_all add: frame_simps)
    ultimately show ?thesis
      using True key_loop_draws [of p st clock 0 data r c o1] cur
      by (auto simp: handle_keystroke_def)
  qed
qed

text \<open>What the predictor prints itself when a frame arrives or its predictions are cleared is erasures only.\<close>

lemma clear_predictions_erases:
  assumes "clear_predictions p (sink o1) = (r, p', w)"
  shows "\<exists>n. w = sink (o1 @ concat (replicate n erase)) \<and> (\<not> enabled p \<longrightarrow> n = 0) \<and> enabled p' = enabled p"
  using assms by (auto simp: clear_predictions_sink split: if_splits intro: exI [of _ 0])

lemma inspect_server_frame_erases:
  assumes "inspect_server_frame V ps p raw (sink o1) = Some (p', w)"
  shows "\<exists>n. w = sink (o1 @ concat (replicate n erase)) \<and> (\<not> enabled p \<longrightarrow> n = 0) \<and> enabled p' = enabled p"
proof -
  have same: "\<exists>n. sink o1 = sink (o1 @ concat (replicate n erase)) \<and> (\<not> enabled p \<longrightarrow> n = 0)"
    by (intro exI [of _ 0]) simp
  consider "\<not> enabled p" | vt where "enabled p" "process_safely V ps (vt_parser p) raw = Some vt"
    using assms by (cases "enabled p") (auto simp: inspect_server_frame_def split: option.splits)
  then show ?thesis
  proof cases
    case 1
    with assms same show ?thesis by (auto simp: inspect_server_frame_def)
  next
    case (2 vt)
    obtain r p1 w1 where c: "clear_predictions (p\<lparr>vt_parser := vt\<rparr>) (sink o1) = (r, p1, w1)"
      by (cases "clear_predictions (p\<lparr>vt_parser := vt\<rparr>) (sink o1)")
    show ?thesis
      using assms 2 c same clear_predictions_erases [OF c]
      by (cases "enables_alt raw")
        (auto simp: inspect_server_frame_def Let_def cull_predictions_eq reset_predictions_def split: if_splits)
  qed
qed

text \<open>
  C24. Whatever is typed, what the predictor prints is a sequence of underlined glyphs and
  erasures that never erases anything but a predicted glyph, and the predicted glyphs then on the
  line are exactly the outstanding predictions, in order.
\<close>
theorem keystroke_glyphs_are_predictions:
  shows "\<exists>p' ds. handle_keystroke V st clock p (sink o1) data =
      (None, p', sink (o1 @ concat (map (draw_bytes st) ds))) \<and>
    glyphs (map character (predictions p)) ds = Some (map character (predictions p'))"
  using handle_keystroke_draws [of V st clock p o1 data] by (auto simp: draws_def)

section \<open>Calls in any order\<close>

text \<open>
  C9. Whatever calls a client makes of a new predictor, in any order, with any emulator, any writer
  failures and any clock: a disabled or suspended predictor holds no prediction, and every
  prediction is of a printable ASCII character.
\<close>
theorem predictor_invariant:
  "case foldl (pred_call V st ps) (Some (new_predictor V en, out)) calls of
     None \<Rightarrow> True
   | Some (p, out') \<Rightarrow>
       enabled p = en \<and> (\<not> en \<or> suspend_predictions p \<longrightarrow> predictions p = []) \<and>
       (\<forall>c \<in> set (predictions p). 32 \<le> character c \<and> character c \<le> 126)"
proof -
  let ?w = "foldl (pred_call V st ps) (Some (new_predictor V en, out)) calls"
  have "world_ok ?w"
    by (rule pred.run_inv) (simp add: world_ok_def pred_ok_def new_predictor_def)
  moreover have "world_enabled en ?w"
    by (rule pred_enabled.run_inv) (simp add: world_enabled_def new_predictor_def)
  ultimately show ?thesis
    by (auto simp: world_ok_def world_enabled_def pred_ok_def list_all_iff split: option.splits)
qed

theorem predictor_invariant_witness:
  "case foldl (pred_call line_vt100 \<lparr>underlined = [1], reset_attr = [2]\<rparr> Unwind)
       (Some (new_predictor line_vt100 True, sink []))
       [Keystroke (\<lambda>i. i) [104, 105], Frame (esc # bytes_of ''[?1049h''), Keystroke (\<lambda>i. i) [104]] of
     None \<Rightarrow> True
   | Some (p, out') \<Rightarrow>
       enabled p = True \<and> (\<not> True \<or> suspend_predictions p \<longrightarrow> predictions p = []) \<and>
       (\<forall>c \<in> set (predictions p). 32 \<le> character c \<and> character c \<le> 126)"
  by (rule predictor_invariant)

text \<open>
  C26. A frame the emulator survives leaves no prediction outstanding: the longest matching prefix
  is confirmed, raising the confirmed epoch to the largest epoch in it, and the rest is dropped.
  Unless the frame enters the alternate screen nothing is printed, so the glyphs of dropped
  predictions are not erased.
\<close>
theorem frame_settles_predictions:
  assumes "enabled p" "process_safely V ps (vt_parser p) raw = Some vt"
  shows "\<exists>p' out'. inspect_server_frame V ps p raw out = Some (p', out') \<and>
    predictions p' = [] \<and> vt_parser p' = vt \<and> prediction_epoch p' = prediction_epoch p \<and>
    suspend_predictions p' = (enables_alt raw \<or> (suspend_predictions p \<and> \<not> disables_alt raw)) \<and>
    (\<not> enables_alt raw \<longrightarrow> out' = out) \<and>
    confirmed_epoch p' =
      (if enables_alt raw \<or> disables_alt raw \<or> clears_screen raw then confirmed_epoch p
       else fold (\<lambda>c e. max e (epoch c)) (takeWhile (is_matched V vt) (predictions p)) (confirmed_epoch p))"
proof (cases "enables_alt raw")
  case True
  obtain r p1 o1 where c: "clear_predictions (p\<lparr>vt_parser := vt\<rparr>) out = (r, p1, o1)"
    by (cases "clear_predictions (p\<lparr>vt_parser := vt\<rparr>) out")
  then show ?thesis
    using assms True clear_predictions_cases [OF c] by (auto simp: inspect_server_frame_def)
next
  case False
  then show ?thesis
    using assms by (simp add: inspect_server_frame_def Let_def cull_predictions_eq reset_predictions_def)
qed

theorem frame_settles_predictions_witness:
  "\<exists>p p' out' vt. enabled p \<and> process_safely line_vt100 Unwind (vt_parser p) [104, 120] = Some vt \<and>
     length (predictions p) = 2 \<and>
     inspect_server_frame line_vt100 Unwind p [104, 120] (sink []) = Some (p', out') \<and>
     predictions p' = [] \<and> out' = sink []"
proof -
  let ?p = "(new_predictor line_vt100 True)\<lparr>predictions :=
      [\<lparr>row = 0, col = 0, character = 104, epoch = 1, timestamp = 7\<rparr>,
       \<lparr>row = 0, col = 1, character = 105, epoch = 1, timestamp = 8\<rparr>]\<rparr>"
  have 1: "enabled ?p" by (simp add: new_predictor_def)
  have 2: "\<exists>vt. process_safely line_vt100 Unwind (vt_parser ?p) [104, 120] = Some vt"
    using process_safely_unwind by fastforce
  have 3: "\<not> enables_alt [104, 120]" by code_simp
  from 2 obtain vt where "process_safely line_vt100 Unwind (vt_parser ?p) [104, 120] = Some vt" by blast
  moreover from frame_settles_predictions [OF 1 this, of "sink []"] 3 obtain p' where
    "inspect_server_frame line_vt100 Unwind ?p [104, 120] (sink []) = Some (p', sink []) \<and> predictions p' = []"
    by auto
  moreover have "length (predictions ?p) = 2" by simp
  ultimately show ?thesis
    using 1 by blast
qed

text \<open>
  C27. From the frame that enters the alternate screen on, until a frame leaves it, the predictor
  prints nothing and holds nothing, whatever is typed and whatever the frames draw.
\<close>
theorem alternate_screen_is_quiet:
  assumes "enabled p" "suspend_predictions p" "predictions p = []"
    and "\<forall>c \<in> set calls. (\<exists>clock data. c = Keystroke clock data) \<or> (\<exists>raw. c = Frame raw \<and> \<not> disables_alt raw)"
  shows "case foldl (pred_call V st ps) (Some (p, out)) calls of
      None \<Rightarrow> ps = Abort
    | Some (p', out') \<Rightarrow> out' = out \<and> predictions p' = [] \<and> suspend_predictions p'"
  using assms
proof (induction calls arbitrary: p)
  case (Cons c calls)
  have none: "foldl (pred_call V st ps) None cs = None" for cs
    by (induction cs) (simp_all add: pred_call_def)
  consider clock data where "c = Keystroke clock data" | raw where "c = Frame raw" "\<not> disables_alt raw"
    using Cons.prems by auto
  then show ?case
  proof cases
    case 1
    then have "pred_call V st ps (Some (p, out)) c = Some (p, out)"
      using Cons.prems by (simp add: pred_call_def handle_keystroke_def)
    with Cons show ?thesis by simp
  next
    case 2
    show ?thesis
    proof (cases "process_safely V ps (vt_parser p) raw")
      case None
      then have "ps = Abort" using process_safely_unwind by (cases ps) fastforce+
      moreover have "pred_call V st ps (Some (p, out)) c = None"
        using None 2 Cons.prems by (simp add: pred_call_def inspect_server_frame_def)
      ultimately show ?thesis
        using none [of calls] by (simp only: foldl_Cons option.case)
    next
      case (Some vt)
      have "\<exists>p'. pred_call V st ps (Some (p, out)) c = Some (p', out) \<and>
          enabled p' \<and> suspend_predictions p' \<and> predictions p' = []"
        using Some 2 Cons.prems
        by (auto simp: pred_call_def inspect_server_frame_def Let_def cull_predictions_eq
            clear_predictions_def reset_predictions_def)
      with Cons show ?thesis by auto
    qed
  qed
qed simp

theorem alternate_screen_is_quiet_witness:
  "case foldl (pred_call line_vt100 \<lparr>underlined = [1], reset_attr = [2]\<rparr> Unwind)
      (Some ((new_predictor line_vt100 True)\<lparr>suspend_predictions := True\<rparr>, sink []))
      [Keystroke (\<lambda>i. i) [104, 105], Frame [33], Keystroke (\<lambda>i. i) [104]] of
      None \<Rightarrow> Unwind = Abort
    | Some (p', out') \<Rightarrow> out' = sink [] \<and> predictions p' = [] \<and> suspend_predictions p'"
proof (rule alternate_screen_is_quiet)
  have "\<not> disables_alt [33]" by code_simp
  then show "\<forall>c \<in> set [Keystroke (\<lambda>i. i) [104, 105], Frame [33], Keystroke (\<lambda>i. i) [104]].
      (\<exists>clock data. c = Keystroke clock data) \<or> (\<exists>raw. c = Frame raw \<and> \<not> disables_alt raw)"
    by simp
qed (simp_all add: new_predictor_def)

text \<open>
  C33. Two keys typed in separate calls, with no frame in between, are both predicted at the cursor
  of the emulated screen, which only frames move: when the keys differ, no screen the server can
  send confirms both.
\<close>
theorem separate_keys_predicted_on_one_cell:
  assumes "enabled p" "\<not> suspend_predictions p" "predictions p = []" "printable a" "printable b" "a \<noteq> b"
    and "handle_keystroke V st clock1 p (sink o1) [a] = (r1, p1, out1)"
    and "handle_keystroke V st clock2 p1 out1 [b] = (r2, p2, out2)"
  shows "length (predictions p2) = 2 \<and> length (takeWhile (is_matched V vt) (predictions p2)) \<le> 1"
proof -
  obtain r c where cur: "vt_cursor_position V (vt_parser p) = (r, c)"
    by (cases "vt_cursor_position V (vt_parser p)")
  have k1: "r1 = None \<and> p1 = p\<lparr>predictions := burst_cells p clock1 r c [a]\<rparr> \<and> out1 = sink (o1 @ echo_bytes st a)"
    using assms key_loop_burst [of "[a]" st clock1 0 p r c o1] printable_not_esc [of "[a]"]
    by (simp add: handle_keystroke_def cur)
  then have "p2 = p\<lparr>predictions := burst_cells p clock1 r c [a] @ burst_cells p clock2 r c [b]\<rparr>"
    using assms key_loop_burst [of "[b]" st clock2 0 p1 r c "o1 @ echo_bytes st a"] printable_not_esc [of "[b]"]
    by (simp add: handle_keystroke_def cur burst_cells_def)
  moreover have "unat a \<noteq> unat b"
    using assms(6) by (simp add: word_unat_eq_iff)
  ultimately show ?thesis
    by (simp add: burst_cells_def is_matched_def split: option.splits)
qed

theorem separate_keys_predicted_on_one_cell_witness:
  "\<exists>p2 out2. handle_keystroke line_vt100 \<lparr>underlined = [1], reset_attr = [2]\<rparr> (\<lambda>i. 0)
      (fst (snd (handle_keystroke line_vt100 \<lparr>underlined = [1], reset_attr = [2]\<rparr> (\<lambda>i. 0)
        (new_predictor line_vt100 True) (sink []) [104])))
      (snd (snd (handle_keystroke line_vt100 \<lparr>underlined = [1], reset_attr = [2]\<rparr> (\<lambda>i. 0)
        (new_predictor line_vt100 True) (sink []) [104]))) [105] = (None, p2, out2) \<and>
     length (predictions p2) = 2 \<and>
     length (takeWhile (is_matched line_vt100 \<lparr>ln_rows = 24, ln_cols = 80, ln_text = [104, 105]\<rparr>) (predictions p2)) \<le> 1"
proof -
  let ?st = "\<lparr>underlined = [1], reset_attr = [2]\<rparr>"
  let ?p = "new_predictor line_vt100 True"
  obtain r1 p1 out1 where 1: "handle_keystroke line_vt100 ?st (\<lambda>i. 0) ?p (sink []) [104] = (r1, p1, out1)"
    by (cases "handle_keystroke line_vt100 ?st (\<lambda>i. 0) ?p (sink []) [104]")
  obtain r2 p2 out2 where 2: "handle_keystroke line_vt100 ?st (\<lambda>i. 0) p1 out1 [105] = (r2, p2, out2)"
    by (cases "handle_keystroke line_vt100 ?st (\<lambda>i. 0) p1 out1 [105]")
  have "r2 = None"
    using 1 2 by (auto simp: handle_keystroke_def key_byte_def new_predictor_def line_vt100_def Let_def)
  then show ?thesis
    using 1 2 separate_keys_predicted_on_one_cell [OF _ _ _ _ _ _ 1 2]
    by (simp add: new_predictor_def printable_def)
qed

end
