(* ===== verification/Client.thy ===== *)
theory Client
  imports Codec Predictive
begin

text \<open>
  The client, \<^verbatim>\<open>src/client.rs\<close>: \<open>write_packet\<close> and \<open>read_packet\<close> over blocking streams, and the three
  concurrent loops of \<^verbatim>\<open>run_client_stream_handshake\<close> (terminal input, network sender, network receiver
  and renderer). Each event is what one loop does between two points where it lets others in: its top with
  the check of \<open>running\<close> up to the point where it waits for a key, a packet to send or a packet
  received, and from there to the end of the turn, for the receiver in two parts, before and after
  it gives the predictor back. Shared are the flag \<open>running\<close>, the predictor, the
  standard output and the channel from the input loop to the sender. What the environment decides is
  in the events and in the socket's reader: the terminal size, the bytes typed, the clock, how the
  server's bytes arrive and where reads fail.
\<close>

section \<open>Packets over blocking streams\<close>

definition write_packet :: "writer \<Rightarrow> packet \<Rightarrow> io_error option \<times> writer" where
  "write_packet w packet =
     (let serialized = serialize packet; len = to_be_bytes (word_of_nat (length serialized) :: u32) in
      case write_all w len of
        (Some e, w) \<Rightarrow> (Some e, w)
      | (None, w) \<Rightarrow>
          (case write_all w serialized of
             (Some e, w) \<Rightarrow> (Some e, w)
           | (None, w) \<Rightarrow> flush w))"

definition read_packet :: "reader \<Rightarrow> packet io_result \<times> reader" where
  "read_packet rd =
     (case read_exact 4 [] rd of
        (Inl e, rd) \<Rightarrow> (Inl e, rd)
      | (Inr len_bytes, rd) \<Rightarrow>
          (let len = unat (from_be_bytes len_bytes :: u32) in
           case read_exact len [] rd of
             (Inl e, rd) \<Rightarrow> (Inl e, rd)
           | (Inr buf, rd) \<Rightarrow> (deserialize buf, rd)))"

lemma write_packet_sink: "write_packet (sink o1) p = (None, sink (encode p o1))"
  by (simp add: write_packet_def encode_def Let_def)

lemma read_packet_encoded:
  assumes "frame_ok p" "flows rd" "pending rd = encode p [] @ rest"
  shows "\<exists>rd'. read_packet rd = (Inr p, rd') \<and> flows rd' \<and> pending rd' = rest"
proof -
  let ?len = "to_be_bytes (word_of_nat (length (serialize p)) :: u32)"
  have e: "encode p [] = ?len @ serialize p" by (simp add: encode_def Let_def)
  have l4: "length ?len = 4" by (rule be32.enc_length)
  have "4 \<le> length (pending rd)" using assms(3) e l4 by simp
  then obtain rd1 where 1: "read_exact 4 [] rd = (Inr (take 4 (pending rd)), rd1)" "flows rd1"
      "pending rd1 = drop 4 (pending rd)"
    using read_exact_flows [OF assms(2), of 4 "[]"] by auto
  have t: "take 4 (pending rd) = ?len" "drop 4 (pending rd) = serialize p @ rest"
    using assms(3) e l4 by simp_all
  then have n: "unat (from_be_bytes (take 4 (pending rd)) :: u32) = length (serialize p)"
    using assms(1) by (simp add: be32.dec_enc frame_ok_def unat_len32)
  have "length (serialize p) \<le> length (pending rd1)" using 1(3) t(2) by simp
  then obtain rd2 where 2: "read_exact (length (serialize p)) [] rd1 = (Inr (serialize p), rd2)" "flows rd2"
      "pending rd2 = rest"
    using read_exact_flows [OF 1(2), of "length (serialize p)" "[]"] 1(3) t(2) by auto
  have "deserialize (serialize p) = Inr p"
    using deserialize_serialize_append [of p "[]"] assms(1) by (simp add: frame_ok_def)
  with 1 2 n show ?thesis by (simp add: read_packet_def Let_def)
qed

section \<open>State\<close>

text \<open>
  For each loop whether it has not ended, and whether it waits: \<open>at_read\<close> for input, \<open>at_recv\<close> for a packet
  from the channel, \<open>at_socket\<close> for one from the server. \<open>to_show\<close>: a frame that the receiver has shown to the
  predictor and not yet printed.
\<close>

record 'vt client =
  predictor :: "'vt predictor"
  stdout :: writer
  running :: bool
  last_size :: "u16 \<times> u16"
  channel :: "packet list"
  input_open :: bool
  at_read :: bool
  sender_open :: bool
  at_recv :: bool
  receiver_open :: bool
  at_socket :: bool
  to_show :: "bytes option"
  socket_out :: writer
  socket_in :: reader

text \<open>The parameters of a client: emulator, styling, gzip decoder and panic strategy.\<close>

record 'vt client_env =
  emulator :: "'vt vt100"
  styling :: style
  gunzip_of :: gz_decoder
  panics :: panic_strategy

section \<open>Operations\<close>

text \<open>The terminal's size with the default of 80 columns and 24 rows.\<close>

definition size_or_default :: "(u16 \<times> u16) option \<Rightarrow> u16 \<times> u16" where
  "size_or_default sz = (case sz of Some s \<Rightarrow> s | None \<Rightarrow> (80, 24))"

definition client_start ::
  "'vt client_env \<Rightarrow> bool \<Rightarrow> rstring \<Rightarrow> (u16 \<times> u16) option \<Rightarrow> (u16 \<times> u16) option \<Rightarrow> writer \<Rightarrow> writer \<Rightarrow> reader
     \<Rightarrow> 'vt client" where
  "client_start E enable_predictive session_key sz sz2 out sock_out sock_in =
     (let (cols, rows) = size_or_default sz;
          handshake_pkt = ClientHandshake session_key rows cols in
      \<lparr>predictor = set_size (emulator E) (new_predictor (emulator E) enable_predictive) rows cols,
       stdout = out, running = True, last_size = size_or_default sz2, channel = [], input_open = True, at_read = False,
       sender_open = True, at_recv = False, receiver_open = True, at_socket = False, to_show = None,
       socket_out = snd (write_packet sock_out handshake_pkt), socket_in = sock_in\<rparr>)"

text \<open>
  Connecting directly, without a login, offers the empty key. \<open>connect\<close> gives both directions of the
  socket.
\<close>

definition run_client ::
  "'vt client_env \<Rightarrow> ('a \<Rightarrow> (writer \<times> reader) io_result) \<Rightarrow> 'a \<Rightarrow> bool \<Rightarrow> (u16 \<times> u16) option \<Rightarrow> (u16 \<times> u16) option
     \<Rightarrow> writer \<Rightarrow> 'vt client io_result" where
  "run_client E connect server_addr enable_predictive sz sz2 out =
     (case connect server_addr of
        Inl e \<Rightarrow> Inl e
      | Inr (sock_out, sock_in) \<Rightarrow> Inr (client_start E enable_predictive [] sz sz2 out sock_out sock_in))"

text \<open>Sending on the channel does nothing once the sender has dropped its end.\<close>

definition channel_send :: "packet \<Rightarrow> 'vt client \<Rightarrow> 'vt client" where
  "channel_send p c = (if sender_open c then c\<lparr>channel := channel c @ [p]\<rparr> else c)"

definition check_size :: "'vt client_env \<Rightarrow> (u16 \<times> u16) option \<Rightarrow> 'vt client \<Rightarrow> 'vt client" where
  "check_size E sz c =
     (case sz of
        None \<Rightarrow> c
      | Some (cols, rows) \<Rightarrow>
          if (cols, rows) \<noteq> last_size c then
            (channel_send (ClientResize rows cols)
               (c\<lparr>predictor := set_size (emulator E) (predictor c) rows cols\<rparr>))\<lparr>last_size := (cols, rows)\<rparr>
          else c)"

text \<open>The input loop up to its read, and from there on.\<close>

definition size_turn :: "'vt client_env \<Rightarrow> (u16 \<times> u16) option \<Rightarrow> 'vt client \<Rightarrow> 'vt client" where
  "size_turn E sz c =
     (if \<not> input_open c \<or> at_read c then c
      else if \<not> running c then c\<lparr>input_open := False\<rparr>
      else (check_size E sz c)\<lparr>at_read := True\<rparr>)"

definition input_turn :: "'vt client_env \<Rightarrow> (nat \<Rightarrow> nat) \<Rightarrow> read_result \<Rightarrow> 'vt client \<Rightarrow> 'vt client" where
  "input_turn E clock r c =
     (if \<not> input_open c \<or> \<not> at_read c then c
      else
        (let c = c\<lparr>at_read := False\<rparr> in
         case r of
           Chunk data \<Rightarrow>
             if data = [] then c\<lparr>running := False, input_open := False\<rparr>
             else if 17 \<in> set data then c\<lparr>running := False, input_open := False\<rparr>
             else
               (let (_, p, out) = handle_keystroke (emulator E) (styling E) clock (predictor c) (stdout c) data in
                channel_send (ClientInput data) (c\<lparr>predictor := p, stdout := out\<rparr>))
         | ReadErr e \<Rightarrow> if io_kind e = WouldBlock then c else c\<lparr>input_open := False\<rparr>))"

text \<open>The sender goes on waiting while the channel is empty and its other end is alive.\<close>

definition sender_top :: "'vt client \<Rightarrow> 'vt client" where
  "sender_top c =
     (if \<not> sender_open c \<or> at_recv c then c
      else if \<not> running c then c\<lparr>sender_open := False\<rparr>
      else c\<lparr>at_recv := True\<rparr>)"

definition sender_turn :: "'vt client \<Rightarrow> 'vt client" where
  "sender_turn c =
     (if \<not> sender_open c \<or> \<not> at_recv c then c
      else case channel c of
        [] \<Rightarrow> if input_open c then c else c\<lparr>sender_open := False\<rparr>
      | packet # rest \<Rightarrow>
          (case write_packet (socket_out c) packet of
             (None, w) \<Rightarrow> c\<lparr>channel := rest, socket_out := w, at_recv := False\<rparr>
           | (Some e, w) \<Rightarrow> c\<lparr>channel := rest, socket_out := w, sender_open := False\<rparr>))"

text \<open>A frame is shown to the predictor, then printed.\<close>

definition inspect_frame ::
  "'vt client_env \<Rightarrow> bytes \<Rightarrow> 'vt client \<Rightarrow> 'vt client option" where
  "inspect_frame E raw c =
     (case inspect_server_frame (emulator E) (panics E) (predictor c) raw (stdout c) of
        None \<Rightarrow> None
      | Some (p, out) \<Rightarrow>
          (let (_, p, out) = clear_predictions p out in
           Some (c\<lparr>predictor := p, stdout := out, to_show := Some raw\<rparr>)))"

definition show_turn :: "'vt client \<Rightarrow> 'vt client" where
  "show_turn c =
     (case to_show c of
        None \<Rightarrow> c
      | Some raw \<Rightarrow> c\<lparr>stdout := snd (flush (snd (write_all (stdout c) raw))), to_show := None\<rparr>)"

definition receiver_top :: "'vt client \<Rightarrow> 'vt client" where
  "receiver_top c =
     (if \<not> receiver_open c \<or> at_socket c \<or> to_show c \<noteq> None then c
      else if \<not> running c then c\<lparr>receiver_open := False\<rparr>
      else c\<lparr>at_socket := True\<rparr>)"

text \<open>The receiver up to the print; \<open>None\<close>: the emulator panicked and the process aborts.\<close>

definition receiver_turn :: "'vt client_env \<Rightarrow> 'vt client \<Rightarrow> 'vt client option" where
  "receiver_turn E c =
     (if \<not> receiver_open c \<or> \<not> at_socket c then Some c
      else
        (let (res, rd) = read_packet (socket_in c); c = c\<lparr>socket_in := rd, at_socket := False\<rparr> in
         case res of
           Inr (ServerFrame _ data compressed) \<Rightarrow>
             (case decompress_data (gunzip_of E) data compressed of
                Inr raw \<Rightarrow> inspect_frame E raw c
              | Inl e \<Rightarrow> Some c)
         | Inr _ \<Rightarrow> Some c
         | Inl e \<Rightarrow>
             if io_kind e = WouldBlock \<or> io_kind e = TimedOut then Some c
             else Some (c\<lparr>receiver_open := False, running := False\<rparr>)))"

datatype client_event =
    SizeTurn "(u16 \<times> u16) option"
  | InputTurn "nat \<Rightarrow> nat" read_result
  | SenderTop
  | SenderTurn
  | ReceiverTop
  | ReceiverTurn
  | ShowTurn

text \<open>A loop that is elsewhere lets an event pass.\<close>

definition client_step :: "'vt client_env \<Rightarrow> 'vt client \<Rightarrow> client_event \<Rightarrow> 'vt client option" where
  "client_step E c ev =
     (case ev of
        SizeTurn sz \<Rightarrow> Some (size_turn E sz c)
      | InputTurn clock r \<Rightarrow> Some (input_turn E clock r c)
      | SenderTop \<Rightarrow> Some (sender_top c)
      | SenderTurn \<Rightarrow> Some (sender_turn c)
      | ReceiverTop \<Rightarrow> Some (receiver_top c)
      | ReceiverTurn \<Rightarrow> receiver_turn E c
      | ShowTurn \<Rightarrow> Some (show_turn c))"

definition client_run :: "'vt client_env \<Rightarrow> 'vt client \<Rightarrow> client_event list \<Rightarrow> 'vt client option" where
  "client_run E c evs = run_steps (client_step E) c evs"

section \<open>Packets over a socket\<close>

text \<open>
  Client and server agree on the framing: what \<^verbatim>\<open>write_packet\<close> writes is what the server's codec
  encodes, and \<^verbatim>\<open>read_packet\<close> gets a packet encoded by either side back and leaves exactly the bytes
  behind it, however the socket cuts the stream into reads.
\<close>
theorem client_server_framing_agree:
  assumes "frame_ok p" "flows rd" "pending rd = wr_out (snd (write_packet (sink []) p)) @ rest"
  shows "snd (write_packet (sink []) p) = sink (encode p []) \<and>
    (\<exists>rd'. read_packet rd = (Inr p, rd') \<and> flows rd' \<and> pending rd' = rest)"
  using read_packet_encoded [OF assms(1,2)] assms(3) by (simp add: write_packet_sink)

theorem client_server_framing_agree_witness:
  "\<exists>rd'. read_packet [Chunk [0, 0], Chunk [0, 9, 4, 0, 0, 0, 0], Chunk [0, 0, 0, 7, 99]] = (Inr (Pong 7), rd') \<and>
     pending rd' = [99]"
proof -
  let ?rd = "[Chunk [0, 0], Chunk [0, 9, 4, 0, 0, 0, 0], Chunk [0, 0, 0, 7, 99]]"
  have "pending ?rd = wr_out (snd (write_packet (sink []) (Pong 7))) @ [99]"
    by (simp add: write_packet_sink encode_def to_be_bytes_def Let_def)
  then show ?thesis
    using client_server_framing_agree [of "Pong 7" ?rd "[99]"] by (auto simp: frame_ok_def wire_simps)
qed

lemma read_packet_fails:
  assumes "frame_ok p" "flows rd0" "pending rd0 = take n (encode p [])" "n < length (encode p [])" "io_kind e \<noteq> Interrupted"
  shows "read_packet (rd0 @ ReadErr e # rd1) = (Inl e, rd1)"
proof (cases "n < 4")
  case True
  then have "length (pending rd0) < 4" using assms(3) by simp
  then show ?thesis
    using read_exact_fails [OF assms(2) _ assms(5), of 4] by (simp add: read_packet_def)
next
  case False
  let ?len = "to_be_bytes (word_of_nat (length (serialize p)) :: u32)"
  have e: "encode p [] = ?len @ serialize p" by (simp add: encode_def Let_def)
  have l4: "length ?len = 4" by (rule be32.enc_length)
  have l: "length (pending rd0) = n" using assms(3,4) by simp
  then obtain rd' where 1: "read_exact 4 [] rd0 = (Inr (take 4 (pending rd0)), rd')" "flows rd'"
      "pending rd' = drop 4 (pending rd0)"
    using read_exact_flows [OF assms(2), of 4 "[]"] False by auto
  have t: "take 4 (pending rd0) = ?len" using assms(3) e l4 False by simp
  then have len: "unat (from_be_bytes (take 4 (pending rd0)) :: u32) = length (serialize p)"
    using assms(1) by (simp add: be32.dec_enc frame_ok_def unat_len32)
  have "length (pending rd') < length (serialize p)"
    using 1(3) l e l4 assms(4) False by simp
  then have "read_exact (length (serialize p)) [] (rd' @ ReadErr e # rd1) = (Inl e, rd1)"
    by (rule read_exact_fails [OF 1(2) _ assms(5)])
  with 1(1) l False len show ?thesis
    by (simp add: read_packet_def read_exact_append [OF assms(2)] Let_def)
qed

text \<open>
  C32. A read timeout inside a frame loses its head: the receiver sets a timeout of 500 ms on the socket and
  goes on after it, but wherever in the length or the body of the frame the timeout falls, the bytes
  that had arrived are gone: the receiver keeps running, and the next four bytes that
  arrive, the middle of the frame, are read as the length of a frame.
\<close>
theorem read_timeout_loses_frame_head:
  assumes "frame_ok p" "flows rd0" "pending rd0 = take n (encode p [])" "0 < n" "n < length (encode p [])"
    and "io_kind e = WouldBlock \<or> io_kind e = TimedOut"
    and "receiver_open c" "at_socket c" "socket_in c = rd0 @ ReadErr e # rd1"
    and "flows rd1" "pending rd1 = drop n (encode p []) @ rest" "4 \<le> length (pending rd1)"
  shows "receiver_turn E c = Some (c\<lparr>socket_in := rd1, at_socket := False\<rparr>) \<and>
    (\<exists>rd2. read_exact 4 [] rd1 = (Inr (take 4 (drop n (encode p []) @ rest)), rd2))"
proof
  have "read_packet (socket_in c) = (Inl e, rd1)"
    unfolding assms(9) by (rule read_packet_fails [OF assms(1-3,5)]) (use assms(6) in auto)
  then show "receiver_turn E c = Some (c\<lparr>socket_in := rd1, at_socket := False\<rparr>)"
    using assms(6-8) by (simp add: receiver_turn_def)
  show "\<exists>rd2. read_exact 4 [] rd1 = (Inr (take 4 (drop n (encode p []) @ rest)), rd2)"
    using read_exact_flows [OF assms(10), of 4 "[]"] assms(11,12) by auto
qed

theorem read_timeout_loses_frame_head_witness:
  "\<exists>(c :: line_vt client) E. receiver_turn E c = Some (c\<lparr>socket_in := [Chunk [9, 4, 0, 0, 0, 0, 0, 0, 0, 7]], at_socket := False\<rparr>) \<and>
     socket_in c = [Chunk [0, 0, 0], ReadErr (IoError WouldBlock []), Chunk [9, 4, 0, 0, 0, 0, 0, 0, 0, 7]]"
proof -
  let ?rd1 = "[Chunk [9, 4, 0, 0, 0, 0, 0, 0, 0, 7]]"
  let ?e = "IoError WouldBlock []"
  let ?E = "\<lparr>emulator = line_vt100, styling = \<lparr>underlined = [1], reset_attr = [2]\<rparr>, gunzip_of = Inr, panics = Unwind\<rparr>"
  let ?c = "(client_start ?E False [] None None (sink []) (sink []) ([Chunk [0, 0, 0]] @ ReadErr ?e # ?rd1))\<lparr>at_socket := True\<rparr>"
  have e: "encode (Pong 7) [] = [0, 0, 0, 9, 4, 0, 0, 0, 0, 0, 0, 0, 7]"
    by (simp add: encode_def to_be_bytes_def Let_def)
  have "receiver_turn ?E ?c = Some (?c\<lparr>socket_in := ?rd1, at_socket := False\<rparr>)"
    by (rule conjunct1 [OF read_timeout_loses_frame_head [where p = "Pong 7" and n = 3 and e = ?e and ?rd0.0 = "[Chunk [0, 0, 0]]" and rest = "[]"]])
      (simp_all add: e frame_ok_def wire_simps client_start_def size_or_default_def)
  then show ?thesis
    by (intro exI [of _ ?c] exI [of _ ?E]) (simp add: client_start_def size_or_default_def)
qed

end
