(* ===== verification/Client_Session.thy ===== *)
theory Client_Session
  imports Client
begin

text \<open>
  What a client guarantees whatever the interleaving of its three loops: it shows the frames
  received, each whole and in order, with nothing between them but predicted glyphs and erasures,
  and nothing at all with prediction off; the receiver shows everything the socket delivers; and what
  the client puts on the socket is the handshake followed by what was typed, in order, up to the quit
  key.
\<close>

section \<open>The terminal\<close>

text \<open>
  What is on the terminal: the bytes of whole frames, and between them glyphs drawn ahead and
  erasures, if prediction is on.
\<close>

datatype item = Echo draw | Shown bytes

fun item_bytes :: "style \<Rightarrow> item \<Rightarrow> bytes" where
  "item_bytes st (Echo d) = draw_bytes st d"
| "item_bytes st (Shown b) = b"

fun shown :: "item \<Rightarrow> bytes list" where
  "shown (Echo d) = []"
| "shown (Shown b) = [b]"

definition overlay :: "style \<Rightarrow> bool \<Rightarrow> bytes list \<Rightarrow> bytes \<Rightarrow> bool" where
  "overlay st en fs out \<longleftrightarrow>
     (\<exists>its. out = concat (map (item_bytes st) its) \<and> concat (map shown its) = fs \<and> (\<not> en \<longrightarrow> (\<forall>d. Echo d \<notin> set its)))"

lemma overlay_empty [simp]: "overlay st en [] []"
  unfolding overlay_def by (rule exI [of _ "[]"]) simp

lemma overlay_echo:
  assumes "overlay st en fs out" "\<not> en \<longrightarrow> ds = []"
  shows "overlay st en fs (out @ concat (map (draw_bytes st) ds))"
proof -
  obtain its where "out = concat (map (item_bytes st) its)" "concat (map shown its) = fs" "\<not> en \<longrightarrow> (\<forall>d. Echo d \<notin> set its)"
    using assms(1) by (auto simp: overlay_def)
  moreover have "item_bytes st \<circ> Echo = draw_bytes st" "shown \<circ> Echo = (\<lambda>d. [])"
    by auto
  ultimately show ?thesis
    unfolding overlay_def using assms(2) by (intro exI [of _ "its @ map Echo ds"]) auto
qed

lemma overlay_erases: "overlay st en fs out \<Longrightarrow> (\<not> en \<longrightarrow> n = 0) \<Longrightarrow> overlay st en fs (out @ concat (replicate n erase))"
  using overlay_echo [of st en fs out "replicate n Erase"] by (simp add: erase_def)

lemma overlay_shown:
  assumes "overlay st en fs out"
  shows "overlay st en (fs @ [b]) (out @ b)"
proof -
  obtain its where "out = concat (map (item_bytes st) its)" "concat (map shown its) = fs" "\<not> en \<longrightarrow> (\<forall>d. Echo d \<notin> set its)"
    using assms by (auto simp: overlay_def)
  then show ?thesis
    unfolding overlay_def by (intro exI [of _ "its @ [Shown b]"]) auto
qed

lemma overlay_off:
  assumes "overlay st False fs out"
  shows "out = concat fs"
proof -
  obtain its where its: "out = concat (map (item_bytes st) its)" "concat (map shown its) = fs" "\<forall>d. Echo d \<notin> set its"
    using assms by (auto simp: overlay_def)
  have "item_bytes st i = concat (shown i)" if "i \<in> set its" for i
    using that its(3) by (metis append_Nil2 concat.simps item.exhaust item_bytes.simps(2) shown.simps(2))
  then have "map (item_bytes st) its = map (concat \<circ> shown) its" by simp
  then have "out = concat (map (concat \<circ> shown) its)" using its(1) by (simp only:)
  also have "\<dots> = concat (concat (map shown its))" by (induction its) simp_all
  finally show ?thesis using its(2) by simp
qed

text \<open>The frames that packets carry, decompressed.\<close>

fun frame_of :: "gz_decoder \<Rightarrow> packet \<Rightarrow> bytes list" where
  "frame_of g (ServerFrame n data compressed) =
     (case decompress_data g data compressed of Inr raw \<Rightarrow> [raw] | Inl e \<Rightarrow> [])"
| "frame_of g _ = []"

definition frames_of :: "gz_decoder \<Rightarrow> packet list \<Rightarrow> bytes list" where
  "frames_of g ps = concat (map (frame_of g) ps)"

lemma concat_frames_of: "concat (frames_of g ps) = screen_bytes g ps"
proof -
  have "concat (frame_of g p) = frame_bytes g p" for p
    by (cases p) (simp_all split: sum.splits)
  then show ?thesis
    by (induction ps) (simp_all add: frames_of_def screen_bytes_def)
qed

lemma frames_of_take_Suc:
  "k < length ps \<Longrightarrow> frames_of g (take (Suc k) ps) = frames_of g (take k ps) @ frame_of g (ps ! k)"
  by (simp add: frames_of_def take_Suc_conv_app_nth)

section \<open>Rendering\<close>

definition unprinted :: "'vt client \<Rightarrow> bytes list" where
  "unprinted c = (case to_show c of None \<Rightarrow> [] | Some raw \<Rightarrow> [raw])"

text \<open>The frames \<open>fs\<close> are on the terminal.\<close>

definition displays :: "'vt client_env \<Rightarrow> bool \<Rightarrow> bytes list \<Rightarrow> 'vt client \<Rightarrow> bool" where
  "displays E en fs c \<longleftrightarrow> enabled (predictor c) = en \<and> (\<exists>out. stdout c = sink out \<and> overlay (styling E) en fs out)"

text \<open>The receiver has consumed \<open>k\<close> of the packets \<open>ps\<close>.\<close>

definition rendered :: "'vt client_env \<Rightarrow> packet list \<Rightarrow> bool \<Rightarrow> nat \<Rightarrow> 'vt client \<Rightarrow> bool" where
  "rendered E ps en k c \<longleftrightarrow> k \<le> length ps \<and> flows (socket_in c) \<and>
     pending (socket_in c) = concat (map (\<lambda>p. encode p []) (drop k ps)) \<and> (at_socket c \<longrightarrow> to_show c = None) \<and>
     (\<exists>fs. displays E en fs c \<and> fs @ unprinted c = frames_of (gunzip_of E) (take k ps))"

definition carries :: "reader \<Rightarrow> packet list \<Rightarrow> bool" where
  "carries rd ps \<longleftrightarrow> list_all frame_ok ps \<and> flows rd \<and> pending rd = concat (map (\<lambda>p. encode p []) ps)"

definition rendered_inv ::
  "'vt client_env \<Rightarrow> reader \<Rightarrow> packet list \<Rightarrow> bool \<Rightarrow> client_event list \<Rightarrow> 'vt client \<Rightarrow> bool" where
  "rendered_inv E rd ps en h c \<longleftrightarrow>
     carries rd ps \<longrightarrow> (running c \<longrightarrow> receiver_open c) \<and> (\<exists>k. rendered E ps en k c)"

lemma inspect_frame_displays:
  assumes o: "displays E en fs c" and r: "inspect_frame E raw c = Some c'"
  shows "\<exists>p out. c' = c\<lparr>predictor := p, stdout := out, to_show := Some raw\<rparr> \<and> displays E en fs c'"
proof -
  obtain out where out: "stdout c = sink out" "overlay (styling E) en fs out" "enabled (predictor c) = en"
    using o by (auto simp: displays_def)
  obtain p1 w1 where i: "inspect_server_frame (emulator E) (panics E) (predictor c) raw (sink out) = Some (p1, w1)"
    using r out(1) by (auto simp: inspect_frame_def split: option.splits)
  obtain n where n: "w1 = sink (out @ concat (replicate n erase))" "\<not> en \<longrightarrow> n = 0" "enabled p1 = en"
    using inspect_server_frame_erases [OF i] out(3) by auto
  obtain e p2 w2 where c: "clear_predictions p1 w1 = (e, p2, w2)" by (cases "clear_predictions p1 w1")
  obtain m where m: "w2 = sink ((out @ concat (replicate n erase)) @ concat (replicate m erase))" "\<not> en \<longrightarrow> m = 0" "enabled p2 = en"
    using clear_predictions_erases [OF c [unfolded n(1)]] n(3) by auto
  have "overlay (styling E) en fs ((out @ concat (replicate n erase)) @ concat (replicate m erase))"
    using out(2) n(2) m(2) by (intro overlay_erases) auto
  moreover have "c' = c\<lparr>predictor := p2, stdout := w2, to_show := Some raw\<rparr>"
    using r out(1) i c by (simp add: inspect_frame_def)
  ultimately show ?thesis using m by (auto simp: displays_def)
qed

lemma show_turn_rendered: "rendered E ps en k c \<Longrightarrow> rendered E ps en k (show_turn c) \<and> to_show (show_turn c) = None"
proof (cases "to_show c")
  case (Some raw)
  assume r: "rendered E ps en k c"
  then obtain fs where fs: "displays E en fs c" "fs @ [raw] = frames_of (gunzip_of E) (take k ps)"
    using Some by (auto simp: rendered_def unprinted_def)
  have "displays E en (fs @ [raw]) (show_turn c)"
    using fs(1) Some overlay_shown by (fastforce simp: displays_def show_turn_def)
  with r Some fs(2) show ?thesis by (auto simp: rendered_def show_turn_def unprinted_def)
qed (simp add: show_turn_def)

text \<open>A turn of the receiver that waits for the socket consumes one packet, or finds the end of the stream.\<close>

lemma receiver_turn_rendered:
  assumes r: "rendered E ps en k c" and ok: "list_all frame_ok ps"
    and live: "receiver_open c" "at_socket c" and t: "receiver_turn E c = Some c'"
  shows "if k < length ps then rendered E ps en (Suc k) c' \<and> running c' = running c \<and> receiver_open c'
    else rendered E ps en k c' \<and> \<not> running c'"
proof -
  obtain fs where fs: "displays E en fs c" "fs = frames_of (gunzip_of E) (take k ps)" and ts: "to_show c = None"
    using r live by (auto simp: rendered_def unprinted_def)
  show ?thesis
  proof (cases "k < length ps")
    case True
    then have d: "drop k ps = ps ! k # drop (Suc k) ps" by (simp add: Cons_nth_drop_Suc)
    have okk: "frame_ok (ps ! k)" using ok True by (simp add: list_all_length)
    obtain rd where rd: "read_packet (socket_in c) = (Inr (ps ! k), rd)" "flows rd"
        "pending rd = concat (map (\<lambda>p. encode p []) (drop (Suc k) ps))"
      using read_packet_encoded [OF okk, of "socket_in c"] r d by (auto simp: rendered_def)
    let ?c = "c\<lparr>socket_in := rd, at_socket := False\<rparr>"
    have s: "displays E en fs ?c" using fs(1) by (simp add: displays_def)
    consider "c' = ?c" "frame_of (gunzip_of E) (ps ! k) = []"
      | raw where "frame_of (gunzip_of E) (ps ! k) = [raw]" "inspect_frame E raw ?c = Some c'"
      using t live rd(1) by (cases "ps ! k") (auto simp: receiver_turn_def Let_def split: sum.splits)
    then show ?thesis
    proof cases
      case 1
      with True rd s fs ts live show ?thesis by (auto simp: rendered_def unprinted_def frames_of_take_Suc)
    next
      case (2 raw)
      from inspect_frame_displays [OF s 2(2)] obtain p out where
        c': "c' = ?c\<lparr>predictor := p, stdout := out, to_show := Some raw\<rparr>" and s': "displays E en fs c'" by blast
      have "fs @ unprinted c' = frames_of (gunzip_of E) (take (Suc k) ps)"
        using True fs(2) 2(1) by (simp add: c' unprinted_def frames_of_take_Suc)
      with True rd s' live show ?thesis by (auto simp: rendered_def c')
    qed
  next
    case False
    then have "pending (socket_in c) = []" using r by (simp add: rendered_def)
    moreover have "rd = []" if "flows rd" "pending rd = []" for rd
      using that by (cases rd rule: pending.cases) auto
    ultimately have "socket_in c = []" using r by (simp add: rendered_def)
    then have "read_packet (socket_in c) = (Inl (IoError UnexpectedEof ''failed to fill whole buffer''), [])"
      by (simp add: read_packet_def eval_nat_numeral)
    then have "c' = c\<lparr>socket_in := [], at_socket := False, receiver_open := False, running := False\<rparr>"
      using t live by (simp add: receiver_turn_def)
    with r False \<open>socket_in c = []\<close> show ?thesis
      by (simp add: rendered_def displays_def unprinted_def)
  qed
qed

lemma size_turn_fields:
  "enabled (predictor (size_turn E sz c)) = enabled (predictor c)" "stdout (size_turn E sz c) = stdout c"
  "running (size_turn E sz c) = running c" "socket_in (size_turn E sz c) = socket_in c"
  "receiver_open (size_turn E sz c) = receiver_open c" "at_socket (size_turn E sz c) = at_socket c"
  "to_show (size_turn E sz c) = to_show c" "sender_open (size_turn E sz c) = sender_open c"
  "socket_out (size_turn E sz c) = socket_out c"
  by (auto simp: size_turn_def check_size_def channel_send_def set_size_def split: option.splits)

lemma input_turn_fields:
  "socket_in (input_turn E clock r c) = socket_in c" "receiver_open (input_turn E clock r c) = receiver_open c"
  "at_socket (input_turn E clock r c) = at_socket c" "to_show (input_turn E clock r c) = to_show c"
  "running (input_turn E clock r c) \<Longrightarrow> running c"
  by (auto simp: input_turn_def Let_def channel_send_def split: read_result.splits if_splits prod.splits)

lemma sender_fields:
  "predictor (sender_turn c) = predictor c" "stdout (sender_turn c) = stdout c" "running (sender_turn c) = running c"
  "socket_in (sender_turn c) = socket_in c" "receiver_open (sender_turn c) = receiver_open c"
  "at_socket (sender_turn c) = at_socket c" "to_show (sender_turn c) = to_show c"
  "predictor (sender_top c) = predictor c" "stdout (sender_top c) = stdout c" "running (sender_top c) = running c"
  "socket_in (sender_top c) = socket_in c" "receiver_open (sender_top c) = receiver_open c"
  "at_socket (sender_top c) = at_socket c" "to_show (sender_top c) = to_show c"
  by (auto simp: sender_turn_def sender_top_def split: list.splits prod.splits option.splits)

lemma input_turn_displays:
  assumes "displays E en fs c"
  shows "displays E en fs (input_turn E clock r c)"
proof -
  obtain out where o: "stdout c = sink out" "overlay (styling E) en fs out" "enabled (predictor c) = en"
    using assms by (auto simp: displays_def)
  have "\<exists>p ds. handle_keystroke (emulator E) (styling E) clock (predictor c) (sink out) d =
      (None, p, sink (out @ concat (map (draw_bytes (styling E)) ds))) \<and> enabled p = en \<and> (\<not> en \<longrightarrow> ds = [])" for d
  proof (cases en)
    case True
    obtain p o2 where k: "handle_keystroke (emulator E) (styling E) clock (predictor c) (sink out) d = (None, p, sink o2)"
        "draws (styling E) (predictor c) out p o2"
      using handle_keystroke_draws by blast
    with True o handle_keystroke_keeps_enabled [of "emulator E" "styling E" clock "predictor c" "sink out" d] show ?thesis
      by (auto simp: draws_def)
  next
    case False
    with o(3) show ?thesis by (intro exI [of _ "predictor c"] exI [of _ "[]"]) (simp add: handle_keystroke_def)
  qed
  then have "enabled (fst (snd (handle_keystroke (emulator E) (styling E) clock (predictor c) (sink out) d))) = en \<and>
      (\<exists>out'. snd (snd (handle_keystroke (emulator E) (styling E) clock (predictor c) (sink out) d)) = sink out' \<and>
        overlay (styling E) en fs out')" for d
    using overlay_echo [OF o(2)] by (metis fst_conv snd_conv)
  then show ?thesis
    using assms o by (auto simp: displays_def input_turn_def channel_send_def Let_def split_def split: read_result.splits)
qed

lemma displays_cong: "displays E en fs c \<Longrightarrow> enabled (predictor c') = enabled (predictor c) \<Longrightarrow> stdout c' = stdout c \<Longrightarrow> displays E en fs c'"
  by (simp add: displays_def)

lemma rendered_other:
  assumes "rendered E ps en k c" "socket_in c' = socket_in c" "at_socket c' = at_socket c" "to_show c' = to_show c"
    and "\<And>fs. displays E en fs c \<Longrightarrow> displays E en fs c'"
  shows "rendered E ps en k c'"
  using assms by (auto simp: rendered_def unprinted_def)

lemma receiver_top_rendered:
  "rendered E ps en k c \<Longrightarrow> rendered E ps en k (receiver_top c)"
  by (auto simp: rendered_def receiver_top_def displays_def unprinted_def)

lemma rendered_step:
  assumes inv: "rendered_inv E rd ps en h c" and step: "client_step E c e = Some c'"
  shows "rendered_inv E rd ps en (h @ [e]) c'"
  unfolding rendered_inv_def
proof
  assume "carries rd ps"
  then have ok: "list_all frame_ok ps" by (simp add: carries_def)
  from \<open>carries rd ps\<close> obtain k where r: "rendered E ps en k c" and n: "running c \<longrightarrow> receiver_open c"
    using inv by (auto simp: rendered_inv_def)
  show "(running c' \<longrightarrow> receiver_open c') \<and> (\<exists>k. rendered E ps en k c')"
  proof (cases e)
    case (InputTurn clock rr)
    then have c': "c' = input_turn E clock rr c" using step by (simp add: client_step_def)
    have "rendered E ps en k c'"
      unfolding c' by (rule rendered_other [OF r]) (simp_all add: input_turn_fields input_turn_displays)
    with n show ?thesis by (auto simp: c' input_turn_fields dest: input_turn_fields(5))
  next
    case ReceiverTurn
    then have t: "receiver_turn E c = Some c'" using step by (simp add: client_step_def)
    show ?thesis
    proof (cases "receiver_open c \<and> at_socket c")
      case True
      then show ?thesis
        using receiver_turn_rendered [OF r ok _ _ t] by (cases "k < length ps") auto
    next
      case False
      with t r n show ?thesis by (auto simp: receiver_turn_def)
    qed
  next
    case ReceiverTop
    then have "c' = receiver_top c" using step by (simp add: client_step_def)
    with receiver_top_rendered [OF r] n show ?thesis by (auto simp: receiver_top_def)
  next
    case ShowTurn
    then have "c' = show_turn c" using step by (simp add: client_step_def)
    with show_turn_rendered [OF r] n show ?thesis by (auto simp: show_turn_def split: option.splits)
  next
    case (SizeTurn sz)
    then have c': "c' = size_turn E sz c" using step by (simp add: client_step_def)
    have "rendered E ps en k c'"
      unfolding c' by (rule rendered_other [OF r]) (auto simp: size_turn_fields elim: displays_cong)
    with n show ?thesis by (auto simp: c' size_turn_fields)
  next
    case SenderTop
    then have c': "c' = sender_top c" using step by (simp add: client_step_def)
    have "rendered E ps en k c'"
      unfolding c' by (rule rendered_other [OF r]) (auto simp: sender_fields elim: displays_cong)
    with n show ?thesis by (auto simp: c' sender_fields)
  next
    case SenderTurn
    then have c': "c' = sender_turn c" using step by (simp add: client_step_def)
    have "rendered E ps en k c'"
      unfolding c' by (rule rendered_other [OF r]) (auto simp: sender_fields elim: displays_cong)
    with n show ?thesis by (auto simp: c' sender_fields)
  qed
qed

interpretation rendering: history_invariant "client_step E" "client_start E en key sz sz2 (sink []) so rd"
    "rendered_inv E rd ps en" for E :: "'vt client_env" and en key sz sz2 so rd ps
proof unfold_locales
  let ?c = "client_start E en key sz sz2 (sink []) so rd"
  have "rendered E ps en 0 ?c" if "carries rd ps"
    using that
    by (simp add: rendered_def carries_def client_start_def new_predictor_def set_size_def displays_def unprinted_def
        frames_of_def Let_def split: prod.splits)
  moreover have "receiver_open ?c" by (simp add: client_start_def split: prod.splits)
  ultimately show "rendered_inv E rd ps en [] ?c"
    by (auto simp: rendered_inv_def)
qed (rule rendered_step)

lemma client_rendered:
  assumes "carries rd ps" "client_run E (client_start E en key sz sz2 (sink []) so rd) evs = Some c"
  shows "(running c \<longrightarrow> receiver_open c) \<and> (\<exists>k. rendered E ps en k c)"
  using rendering.run_history [OF assms(2) [unfolded client_run_def], of ps] assms(1)
  by (simp add: rendered_inv_def)

text \<open>
  C15. Prediction never damages the server's output: whatever the client's loops interleave with and
  however the socket cuts the stream, the terminal has received the frames of the packets read so
  far, except one that may be about to be printed, each frame whole and in order; between them
  stand only glyphs drawn ahead and erasures, and with prediction off nothing at all. The reads of the
  socket do not time out (\<open>carries\<close>), and a burst of keystrokes is one event.
\<close>
theorem predictions_only_between_frames:
  assumes "list_all frame_ok ps" "flows rd" "pending rd = concat (map (\<lambda>p. encode p []) ps)"
    and "client_run E (client_start E en key sz sz2 (sink []) so rd) evs = Some c"
  shows "\<exists>k its. k \<le> length ps \<and> pending (socket_in c) = concat (map (\<lambda>p. encode p []) (drop k ps)) \<and>
    wr_out (stdout c) = concat (map (item_bytes (styling E)) its) \<and>
    concat (map shown its) @ unprinted c = frames_of (gunzip_of E) (take k ps) \<and>
    (\<not> en \<longrightarrow> (\<forall>d. Echo d \<notin> set its))"
proof -
  have "carries rd ps" using assms(1-3) by (simp add: carries_def)
  from client_rendered [OF this assms(4)] show ?thesis
    by (fastforce simp: rendered_def displays_def overlay_def)
qed

section \<open>Progress\<close>

text \<open>What the receiver does in one turn of its loop, with the rest of an interrupted one before it.\<close>

definition receiver_block :: "client_event list" where
  "receiver_block = [ShowTurn, ReceiverTop, ReceiverTurn, ShowTurn]"

lemma receiver_block_run:
  "client_run E c receiver_block = map_option show_turn (receiver_turn E (receiver_top (show_turn c)))"
  by (simp add: receiver_block_def client_run_def client_step_def bind_eq_Some_conv map_option_case split: option.splits)

lemma receiver_block_rendered:
  assumes r: "rendered E ps en k c" and ok: "list_all frame_ok ps" and run: "client_run E c receiver_block = Some c'"
    and live: "running c \<and> receiver_open c \<or> k = length ps"
  shows "\<exists>k'. rendered E ps en k' c' \<and> min (length ps) (Suc k) \<le> k' \<and> to_show c' = None \<and>
    (running c' \<and> receiver_open c' \<or> k' = length ps)"
proof -
  let ?c1 = "show_turn c"
  let ?c2 = "receiver_top ?c1"
  obtain c3 where c3: "receiver_turn E ?c2 = Some c3" "c' = show_turn c3"
    using run by (auto simp: receiver_block_run)
  have f: "running ?c1 = running c" "receiver_open ?c1 = receiver_open c"
    by (simp_all add: show_turn_def split: option.splits)
  have r2: "rendered E ps en k ?c2" and t1: "to_show ?c1 = None"
    using show_turn_rendered [OF r] receiver_top_rendered by blast+
  have end3: "running (show_turn c3) = running c3" "receiver_open (show_turn c3) = receiver_open c3"
    by (simp_all add: show_turn_def split: option.splits)
  have kl: "k \<le> length ps" using r by (simp add: rendered_def)
  show ?thesis
  proof (cases "receiver_open ?c2 \<and> at_socket ?c2")
    case True
    have f2: "running ?c2 = running c" by (auto simp: receiver_top_def f)
    from receiver_turn_rendered [OF r2 ok _ _ c3(1)] True
    have "if k < length ps then rendered E ps en (Suc k) c3 \<and> running c3 = running c \<and> receiver_open c3
      else rendered E ps en k c3" by (auto simp: f2 split: if_splits)
    then show ?thesis
      using live kl show_turn_rendered [of E ps en _ c3] unfolding c3(2) end3
      by (cases "k < length ps") (fastforce split: if_splits)+
  next
    case False
    then have "c3 = ?c2" using c3(1) by (auto simp: receiver_turn_def)
    moreover have "k = length ps"
      using False live t1 f by (auto simp: receiver_top_def split: if_splits)
    ultimately show ?thesis
      using show_turn_rendered [OF r2] kl by (auto simp: c3(2))
  qed
qed

lemma receiver_blocks_rendered:
  assumes "rendered E ps en k c" "list_all frame_ok ps" "running c \<and> receiver_open c \<or> k = length ps"
    and "client_run E c (concat (replicate n receiver_block)) = Some c'"
  shows "\<exists>k'. rendered E ps en k' c' \<and> min (length ps) (k + n) \<le> k' \<and> (n > 0 \<longrightarrow> to_show c' = None)"
  using assms
proof (induction n arbitrary: k c)
  case 0
  then show ?case by (auto simp: client_run_def rendered_def)
next
  case (Suc n)
  obtain c1 where c1: "client_run E c receiver_block = Some c1" "client_run E c1 (concat (replicate n receiver_block)) = Some c'"
    using Suc.prems(4) by (auto simp: client_run_def run_steps_append bind_eq_Some_conv)
  obtain k1 where k1: "rendered E ps en k1 c1" "min (length ps) (Suc k) \<le> k1" "to_show c1 = None"
      "running c1 \<and> receiver_open c1 \<or> k1 = length ps"
    using receiver_block_rendered [OF Suc.prems(1,2) c1(1) Suc.prems(3)] by blast
  from Suc.IH [OF k1(1) Suc.prems(2) k1(4) c1(2)] obtain k' where
    k': "rendered E ps en k' c'" "min (length ps) (k1 + n) \<le> k'" "n > 0 \<longrightarrow> to_show c' = None" by blast
  have "to_show c' = None" using k'(3) k1(3) c1(2) by (cases n) (auto simp: client_run_def)
  with k' k1(2) show ?case by (intro exI [of _ k']) auto
qed

text \<open>From any point at which the client runs, as many turns of the receiver as there are packets show everything.\<close>

lemma client_catches_up:
  assumes "carries rd ps" "client_run E (client_start E en key sz sz2 (sink []) so rd) evs = Some c" "running c"
    and "client_run E c (concat (replicate (length ps) receiver_block)) = Some c'"
  shows "displays E en (frames_of (gunzip_of E) ps) c'"
proof -
  have ok: "list_all frame_ok ps" using assms(1) by (simp add: carries_def)
  obtain k where k: "rendered E ps en k c" "receiver_open c"
    using client_rendered [OF assms(1,2)] assms(3) by blast
  from receiver_blocks_rendered [OF k(1) ok _ assms(4)] k(2) assms(3) obtain k' where
    k': "rendered E ps en k' c'" "min (length ps) (k + length ps) \<le> k'" "length ps > 0 \<longrightarrow> to_show c' = None" by blast
  then have "k' = length ps" by (simp add: rendered_def)
  then have "unprinted c' = []" using k' by (cases "ps = []") (auto simp: unprinted_def rendered_def frames_of_def split: option.splits)
  with k'(1) \<open>k' = length ps\<close> show ?thesis by (auto simp: rendered_def)
qed

text \<open>With prediction off the client is transparent.\<close>

lemma client_frames:
  assumes "carries rd ps" "client_run E (client_start E False key sz sz2 (sink []) so rd) evs = Some c"
  shows "prefix (wr_out (stdout c)) (screen_bytes (gunzip_of E) ps)"
proof -
  obtain k fs where k: "displays E False fs c" "fs @ unprinted c = frames_of (gunzip_of E) (take k ps)"
    using client_rendered [OF assms] by (auto simp: rendered_def)
  have "wr_out (stdout c) = concat fs" using k(1) overlay_off by (auto simp: displays_def)
  then have "prefix (wr_out (stdout c)) (concat (frames_of (gunzip_of E) (take k ps)))"
    by (simp flip: k(2))
  moreover have "screen_bytes (gunzip_of E) ps = screen_bytes (gunzip_of E) (take k ps) @ screen_bytes (gunzip_of E) (drop k ps)"
    by (simp add: screen_bytes_def flip: concat_append map_append)
  ultimately show ?thesis
    by (simp add: concat_frames_of)
qed

lemma client_frames_all:
  assumes "carries rd ps" "client_run E (client_start E False key sz sz2 (sink []) so rd) evs = Some c" "running c"
    and "client_run E c (concat (replicate (length ps) receiver_block)) = Some c'"
  shows "wr_out (stdout c') = screen_bytes (gunzip_of E) ps"
  using client_catches_up [OF assms] by (auto simp: displays_def concat_frames_of dest!: overlay_off)

text \<open>Built to unwind, a client survives every panic of its emulator.\<close>

lemma inspect_server_frame_unwind: "\<exists>r. inspect_server_frame V Unwind p raw out = Some r"
  using process_safely_unwind [of V "vt_parser p" raw]
  by (auto simp: inspect_server_frame_def Let_def split: prod.splits)

lemma receiver_turn_unwind:
  assumes "panics E = Unwind"
  shows "\<exists>c'. receiver_turn E c = Some c'"
proof -
  have r: "\<exists>c'. inspect_frame E raw c1 = Some c'" for raw c1
    using inspect_server_frame_unwind [of "emulator E" "predictor c1" raw "stdout c1"] assms
    by (auto simp: inspect_frame_def split: prod.splits)
  show ?thesis
  proof (cases "receiver_open c \<and> at_socket c")
    case True
    then show ?thesis
      using r by (auto simp: receiver_turn_def Let_def split: prod.splits sum.splits packet.splits)
  qed (auto simp: receiver_turn_def)
qed

lemma client_run_unwind: "panics E = Unwind \<Longrightarrow> \<exists>c'. client_run E c evs = Some c'"
proof (induction evs arbitrary: c)
  case (Cons e evs)
  obtain c1 where "client_step E c e = Some c1"
    using receiver_turn_unwind [OF Cons.prems] by (cases e) (auto simp: client_step_def)
  with Cons.IH [OF Cons.prems, of c1] show ?case by (simp add: client_run_def)
qed (simp add: client_run_def)

definition example_env :: "line_vt client_env" where
  "example_env = \<lparr>emulator = line_vt100, styling = \<lparr>underlined = [1], reset_attr = [2]\<rparr>,
     gunzip_of = run_gunzip, panics = Unwind\<rparr>"

theorem predictions_only_between_frames_witness:
  "\<exists>c its k. client_run example_env (client_start example_env True [] None None (sink []) (sink [])
      [Chunk (encode (ServerFrame 1 [104, 105] False) [])])
      [SizeTurn None, ReceiverTop, ReceiverTurn, InputTurn (\<lambda>i. i) (Chunk [108]), ShowTurn] = Some c \<and>
    k \<le> 1 \<and> wr_out (stdout c) = concat (map (item_bytes (styling example_env)) its) \<and>
    concat (map shown its) @ unprinted c = frames_of run_gunzip (take k [ServerFrame 1 [104, 105] False])"
proof -
  let ?p = "ServerFrame 1 [104, 105] False"
  let ?rd = "[Chunk (encode ?p [])]"
  let ?c = "client_start example_env True [] None None (sink []) (sink []) ?rd"
  have 1: "list_all frame_ok [?p]" "flows ?rd" "pending ?rd = concat (map (\<lambda>p. encode p []) [?p])"
    by (simp_all add: frame_ok_def wire_simps) (simp add: encode_def Let_def)
  have "panics example_env = Unwind" by (simp add: example_env_def)
  then obtain c where c: "client_run example_env ?c
      [SizeTurn None, ReceiverTop, ReceiverTurn, InputTurn (\<lambda>i. i) (Chunk [108]), ShowTurn] = Some c"
    using client_run_unwind by blast
  have "gunzip_of example_env = run_gunzip" by (simp add: example_env_def)
  with predictions_only_between_frames [OF 1 c] c show ?thesis by fastforce
qed

section \<open>Typing\<close>

fun input_data :: "packet \<Rightarrow> bytes" where
  "input_data (ClientInput data) = data"
| "input_data _ = []"

definition inputs :: "packet list \<Rightarrow> bytes" where
  "inputs ps = concat (map input_data ps)"

text \<open>What was typed while the input loop waited for it: whether it waits, and the bytes read.\<close>

fun typed_step :: "bool \<times> bytes \<Rightarrow> client_event \<Rightarrow> bool \<times> bytes" where
  "typed_step (w, bs) (SizeTurn sz) = (True, bs)"
| "typed_step (w, bs) (InputTurn clock (Chunk d)) = (False, if w then bs @ d else bs)"
| "typed_step (w, bs) (InputTurn clock (ReadErr e)) = (False, bs)"
| "typed_step (w, bs) _ = (w, bs)"

definition typed_after :: "client_event list \<Rightarrow> bool \<times> bytes" where
  "typed_after h = foldl typed_step (False, []) h"

definition stdin_stream :: "client_event list \<Rightarrow> bytes" where
  "stdin_stream h = snd (typed_after h)"

lemma typed_after_snoc: "typed_after (h @ [e]) = typed_step (typed_after h) e"
  by (simp add: typed_after_def)

text \<open>
  The packets \<open>sent\<close> are on the socket behind the handshake; with those still in the channel they hold
  a prefix of what was typed, all of it while the input loop goes on.
\<close>

definition typing :: "bytes \<Rightarrow> bool \<times> bytes \<Rightarrow> packet list \<Rightarrow> 'vt client \<Rightarrow> bool" where
  "typing hs wb sent c \<longleftrightarrow>
     socket_out c = sink (hs @ concat (map (\<lambda>p. encode p []) sent)) \<and>
     list_all (\<lambda>p. (\<exists>d. p = ClientInput d \<and> d \<noteq> [] \<and> 17 \<notin> set d) \<or> (\<exists>r c. p = ClientResize r c)) (sent @ channel c) \<and>
     prefix (inputs (sent @ channel c)) (snd wb) \<and>
     (input_open c \<and> (running c \<or> at_read c) \<longrightarrow> inputs (sent @ channel c) = snd wb \<and> fst wb = at_read c) \<and>
     (input_open c \<and> running c \<longrightarrow> sender_open c)"

lemma inputs_append [simp]: "inputs (ps @ qs) = inputs ps @ inputs qs"
  by (simp add: inputs_def)

lemma inputs_simps [simp]:
  "inputs [] = []" "inputs (ClientInput d # ps) = d @ inputs ps" "inputs (ClientResize r c # ps) = inputs ps"
  by (simp_all add: inputs_def)

lemma size_turn_typing: "typing hs wb sent c \<Longrightarrow> typing hs (typed_step wb (SizeTurn sz)) sent (size_turn E sz c)"
  by (cases wb) (auto simp: typing_def size_turn_def check_size_def channel_send_def split: option.splits)

lemma input_turn_typing:
  assumes t: "typing hs wb sent c"
  shows "typing hs (typed_step wb (InputTurn clock r)) sent (input_turn E clock r c)"
proof (cases "input_open c \<and> at_read c")
  case False
  then have "input_turn E clock r c = c" by (auto simp: input_turn_def)
  with t False show ?thesis
    by (cases wb; cases r) (auto simp: typing_def prefix_prefix)
next
  case True
  then have w: "inputs (sent @ channel c) = snd wb" "fst wb" using t by (simp_all add: typing_def)
  show ?thesis
  proof (cases r)
    case (ReadErr e)
    then show ?thesis
      using t True w by (cases wb) (auto simp: input_turn_def typing_def Let_def)
  next
    case (Chunk d)
    show ?thesis
    proof (cases "d = [] \<or> 17 \<in> set d")
      case False
      obtain e p out where k: "handle_keystroke (emulator E) (styling E) clock (predictor c) (stdout c) d = (e, p, out)"
        by (cases "handle_keystroke (emulator E) (styling E) clock (predictor c) (stdout c) d")
      have "input_turn E clock r c =
          channel_send (ClientInput d) (c\<lparr>at_read := False, predictor := p, stdout := out\<rparr>)"
        using True Chunk False k by (simp add: input_turn_def Let_def)
      with t w True Chunk False show ?thesis
        by (cases wb) (auto simp: typing_def channel_send_def prefix_prefix)
    qed (use t True w Chunk in \<open>cases wb; auto simp: input_turn_def typing_def Let_def prefix_prefix\<close>)
  qed
qed

lemma sender_turn_typing:
  assumes "typing hs wb sent c"
  shows "\<exists>sent. typing hs wb sent (sender_turn c)"
proof (cases "sender_open c \<and> at_recv c \<and> channel c \<noteq> []")
  case False
  then have "sender_turn c = c \<or> sender_turn c = c\<lparr>sender_open := False\<rparr> \<and> \<not> input_open c"
    by (auto simp: sender_turn_def split: list.splits)
  with assms have "typing hs wb sent (sender_turn c)" by (auto simp: typing_def)
  then show ?thesis ..
next
  case True
  then obtain p rest where p: "channel c = p # rest" by (cases "channel c") auto
  have so: "socket_out c = sink (hs @ concat (map (\<lambda>p. encode p []) sent))"
    using assms by (simp add: typing_def)
  have "sender_turn c = c\<lparr>channel := rest, socket_out := sink (hs @ concat (map (\<lambda>p. encode p []) (sent @ [p]))), at_recv := False\<rparr>"
    using True p by (simp add: sender_turn_def so write_packet_sink encode_append [of p "hs @ _"])
  with assms p have "typing hs wb (sent @ [p]) (sender_turn c)"
    by (auto simp: typing_def)
  then show ?thesis ..
qed

text \<open>The other turns do not touch what is sent.\<close>

lemma typing_other:
  assumes "typing hs wb sent c"
    and "socket_out c' = socket_out c" "channel c' = channel c" "input_open c' = input_open c" "at_read c' = at_read c"
    and "running c' \<longrightarrow> running c" "running c' \<and> sender_open c \<longrightarrow> sender_open c'"
  shows "typing hs wb sent c'"
  using assms by (auto simp: typing_def)

lemma receiver_turn_fields:
  assumes "receiver_turn E c = Some c'"
  shows "socket_out c' = socket_out c \<and> channel c' = channel c \<and> input_open c' = input_open c \<and> at_read c' = at_read c \<and>
    sender_open c' = sender_open c \<and> (running c' \<longrightarrow> running c)"
  using assms
  by (auto simp: receiver_turn_def inspect_frame_def Let_def split: if_splits prod.splits sum.splits packet.splits option.splits)

definition typing_inv :: "bytes \<Rightarrow> client_event list \<Rightarrow> 'vt client \<Rightarrow> bool" where
  "typing_inv hs h c \<longleftrightarrow> (\<exists>sent. typing hs (typed_after h) sent c)"

text \<open>The handshake of a terminal of a given size.\<close>

definition handshake_of :: "rstring \<Rightarrow> (u16 \<times> u16) option \<Rightarrow> packet" where
  "handshake_of key sz = (case size_or_default sz of (cols, rows) \<Rightarrow> ClientHandshake key rows cols)"

interpretation sending: history_invariant "client_step E" "client_start E pr key sz sz2 so (sink []) rd"
    "typing_inv (encode (handshake_of key sz) [])" for E :: "'vt client_env" and pr key sz sz2 so rd
proof unfold_locales
  let ?c = "client_start E pr key sz sz2 so (sink []) rd"
  have "typing (encode (handshake_of key sz) []) (False, []) [] ?c"
    by (simp add: typing_def client_start_def handshake_of_def write_packet_sink Let_def split: prod.splits)
  then show "typing_inv (encode (handshake_of key sz) []) [] ?c"
    by (auto simp: typing_inv_def typed_after_def)
next
  fix h and c c' :: "'vt client" and e
  assume inv: "typing_inv (encode (handshake_of key sz) []) h c" and step: "client_step E c e = Some c'"
  let ?hs = "encode (handshake_of key sz) []"
  from inv obtain sent where t: "typing ?hs (typed_after h) sent c" by (auto simp: typing_inv_def)
  show "typing_inv ?hs (h @ [e]) c'"
  proof (cases e)
    case (SizeTurn sz)
    with size_turn_typing [OF t, of sz E] step show ?thesis
      by (auto simp: typing_inv_def client_step_def typed_after_snoc)
  next
    case (InputTurn clock r)
    with input_turn_typing [OF t, of clock r E] step show ?thesis
      by (auto simp: typing_inv_def client_step_def typed_after_snoc)
  next
    case SenderTurn
    then show ?thesis
      using sender_turn_typing [OF t] step
      by (cases "typed_after h") (simp add: typing_inv_def client_step_def typed_after_snoc)
  next
    case ReceiverTurn
    then have "receiver_turn E c = Some c'" using step by (simp add: client_step_def)
    from receiver_turn_fields [OF this] have "typing ?hs (typed_after h) sent c'"
      by (intro typing_other [OF t]) auto
    with ReceiverTurn show ?thesis
      by (cases "typed_after h") (auto simp: typing_inv_def typed_after_snoc)
  next
    case SenderTop
    then have "typing ?hs (typed_after h) sent c'"
      using step by (intro typing_other [OF t]) (auto simp: client_step_def sender_top_def split: if_splits)
    with SenderTop show ?thesis
      by (cases "typed_after h") (auto simp: typing_inv_def typed_after_snoc)
  next
    case ReceiverTop
    then have "typing ?hs (typed_after h) sent c'"
      using step by (intro typing_other [OF t]) (auto simp: client_step_def receiver_top_def split: if_splits)
    with ReceiverTop show ?thesis
      by (cases "typed_after h") (auto simp: typing_inv_def typed_after_snoc)
  next
    case ShowTurn
    then have "typing ?hs (typed_after h) sent c'"
      using step by (intro typing_other [OF t]) (auto simp: client_step_def show_turn_def split: option.splits)
    with ShowTurn show ?thesis
      by (cases "typed_after h") (auto simp: typing_inv_def typed_after_snoc)
  qed
qed

lemma client_typing:
  assumes "client_run E (client_start E pr key sz sz2 so (sink []) rd) evs = Some c"
  shows "\<exists>sent. wr_out (socket_out c) =
        encode (handshake_of key sz) [] @ concat (map (\<lambda>p. encode p []) sent) \<and>
      prefix (inputs (sent @ channel c)) (stdin_stream evs) \<and>
      (input_open c \<and> running c \<longrightarrow> inputs (sent @ channel c) = stdin_stream evs) \<and>
      17 \<notin> set (inputs sent) \<and>
      list_all (\<lambda>p. (\<exists>d. p = ClientInput d) \<or> (\<exists>r c. p = ClientResize r c)) sent"
proof -
  obtain sent where t: "typing (encode (handshake_of key sz) []) (typed_after evs) sent c"
    using sending.run_history [OF assms [unfolded client_run_def]] by (auto simp: typing_inv_def)
  have "17 \<notin> set (inputs sent)"
  proof -
    have "17 \<notin> set (input_data p)" if "p \<in> set sent" for p
    proof -
      have "list_all (\<lambda>p. (\<exists>d. p = ClientInput d \<and> d \<noteq> [] \<and> 17 \<notin> set d) \<or> (\<exists>r c. p = ClientResize r c)) (sent @ channel c)"
        using t unfolding typing_def by blast
      with that have "(\<exists>d. p = ClientInput d \<and> 17 \<notin> set d) \<or> (\<exists>r c. p = ClientResize r c)"
        by (auto simp: list_all_iff)
      then show ?thesis by auto
    qed
    then show ?thesis by (auto simp: inputs_def)
  qed
  moreover have "list_all (\<lambda>p. (\<exists>d. p = ClientInput d) \<or> (\<exists>r c. p = ClientResize r c)) sent"
  proof -
    have "list_all (\<lambda>p. (\<exists>d. p = ClientInput d \<and> d \<noteq> [] \<and> 17 \<notin> set d) \<or> (\<exists>r c. p = ClientResize r c)) (sent @ channel c)"
      using t unfolding typing_def by blast
    then show ?thesis by (auto simp: list_all_iff)
  qed
  ultimately show ?thesis
    using t by (intro exI [of _ sent]) (simp add: typing_def stdin_stream_def)
qed

text \<open>
  C10. What a client puts on the socket is its handshake and then whole packets that hold, in order,
  a prefix of what was typed; while input and session last nothing typed is missing but what is
  still in the channel, and the quit key never reaches the server. This holds for every
  interleaving of the three loops, with prediction on or off.
\<close>
theorem client_sends_typed_input_in_order:
  assumes "client_run E (client_start E pr key sz sz2 so (sink []) rd) evs = Some c"
  shows "\<exists>sent. wr_out (socket_out c) =
        encode (handshake_of key sz) [] @ concat (map (\<lambda>p. encode p []) sent) \<and>
      prefix (inputs (sent @ channel c)) (stdin_stream evs) \<and>
      (input_open c \<and> running c \<longrightarrow> inputs (sent @ channel c) = stdin_stream evs) \<and>
      17 \<notin> set (inputs sent)"
  using client_typing [OF assms] by blast

theorem client_sends_typed_input_in_order_witness:
  "\<exists>c sent. client_run example_env (client_start example_env True [] None None (sink []) (sink []) [])
      [SizeTurn None, InputTurn (\<lambda>i. i) (Chunk [108, 115]), SenderTop, SenderTurn, SizeTurn None, InputTurn (\<lambda>i. i) (Chunk [13])] = Some c \<and>
    wr_out (socket_out c) = encode (ClientHandshake [] 24 80) [] @ concat (map (\<lambda>p. encode p []) sent) \<and>
    prefix (inputs (sent @ channel c)) [108, 115, 13]"
proof -
  let ?evs = "[SizeTurn None, InputTurn (\<lambda>i. i) (Chunk [108, 115]), SenderTop, SenderTurn, SizeTurn None, InputTurn (\<lambda>i. i) (Chunk [13])]"
  obtain c where "client_run example_env (client_start example_env True [] None None (sink []) (sink []) []) ?evs = Some c"
    by (simp add: client_run_def client_step_def)
  moreover from client_sends_typed_input_in_order [OF this] obtain sent where
    "wr_out (socket_out c) = encode (handshake_of [] None) [] @ concat (map (\<lambda>p. encode p []) sent)"
    "prefix (inputs (sent @ channel c)) (stdin_stream ?evs)" by blast
  ultimately show ?thesis
    by (auto simp: handshake_of_def size_or_default_def stdin_stream_def typed_after_def)
qed

end
