(* ===== verification/Stats.thy ===== *)
theory Stats
  imports Session
begin

text \<open>
  The statistics task of the server, \<^verbatim>\<open>src/server.rs\<close>: once a second it prints the change of the
  telemetry counters since the last time. Doubles are those of \<open>F64\<close>; a double is printed with one digit
  after the point by rounding its exact value to tenths, ties to even. The theorems: over a
  session the changes printed add up to what went through it, and the compression rates lie between 0 and 99.9 percent.
\<close>

section \<open>Printing\<close>

text \<open>The formats \<^verbatim>\<open>{:w}\<close> of a string and \<^verbatim>\<open>{:w.1}\<close> of a double that is not negative.\<close>

definition pad_left :: "nat \<Rightarrow> rstring \<Rightarrow> rstring" where
  "pad_left w s = replicate (w - length s) 32 @ s"

definition fmt_f1 :: "nat \<Rightarrow> rat \<Rightarrow> rstring" where
  "fmt_f1 w x =
     (let tenths = nat (rne (10 * x)) in
      pad_left w (fmt_dec (tenths div 10) @ str ''.'' @ fmt_dec (tenths mod 10)))"

definition format_rate :: "rat \<Rightarrow> rstring" where
  "format_rate bytes_per_sec =
     (let kb_per_sec = f64_div bytes_per_sec 1024 in
      if kb_per_sec < fl (1 / 10) then fmt_f1 5 bytes_per_sec @ str '' B/s ''
      else if kb_per_sec < 1000 then fmt_f1 5 kb_per_sec @ str '' KB/s''
      else (let mb_per_sec = f64_div kb_per_sec 1024 in fmt_f1 5 mb_per_sec @ str '' MB/s''))"

section \<open>The task\<close>

record stats_task =
  last_pty_in :: u64
  last_net_out :: u64

definition stats_start :: stats_task where
  "stats_start = \<lparr>last_pty_in = 0, last_net_out = 0\<rparr>"

definition clamp :: "rat \<Rightarrow> rat \<Rightarrow> rat \<Rightarrow> rat" where
  "clamp lo hi x = (if x < lo then lo else if x > hi then hi else x)"

text \<open>The compression in percent of so many bytes in to so many bytes out.\<close>

definition compression :: "u64 \<Rightarrow> u64 \<Rightarrow> rat" where
  "compression pty_in net_out =
     (if pty_in > 0 then
        clamp 0 (fl (999 / 10))
          (f64_mul (f64_sub 1 (f64_div (f64_of_int (uint net_out)) (f64_of_int (uint pty_in)))) 100)
      else 0)"

definition stats_deltas :: "telemetry \<Rightarrow> stats_task \<Rightarrow> u64 \<times> u64 \<times> stats_task" where
  "stats_deltas t s =
     (let cur_pty_in = pty_bytes_in t; cur_net_out = net_bytes_out t;
          delta_pty_in = saturating_sub cur_pty_in (last_pty_in s);
          delta_net_out = saturating_sub cur_net_out (last_net_out s) in
      (delta_pty_in, delta_net_out, s\<lparr>last_pty_in := cur_pty_in, last_net_out := cur_net_out\<rparr>))"

text \<open>The line printed for the counters and their changes.\<close>

definition stats_line :: "u64 \<Rightarrow> telemetry \<Rightarrow> u64 \<times> u64 \<Rightarrow> rstring" where
  "stats_line max_kbps t deltas =
     (let (delta_pty_in, delta_net_out) = deltas;
          pty_rate_str = format_rate (f64_of_int (uint delta_pty_in));
          net_rate_str = format_rate (f64_of_int (uint delta_net_out));
          inst_comp = compression delta_pty_in delta_net_out;
          total_comp = compression (pty_bytes_in t) (net_bytes_out t) in
      str ''[mosh-tcp stats] PTY In: '' @ pty_rate_str @ str '' | Net Out: '' @ net_rate_str
        @ str '' (Max: '' @ fmt_f1 5 (f64_of_int (uint max_kbps)) @ str '' KB/s) | Comp: ''
        @ fmt_f1 4 inst_comp @ str ''% (cur) / '' @ fmt_f1 4 total_comp @ str ''% (tot) | Skipped: ''
        @ fmt_f1 5 (f64_div (f64_of_int (uint (bytes_dropped t))) 1024) @ str '' KB | RTT: ''
        @ pad_left 3 (fmt_dec (unat (rtt_ms t))) @ str '' ms | Frames: ''
        @ pad_left 5 (fmt_dec (unat (frames_sent t))) @ str '' sent / ''
        @ pad_left 5 (fmt_dec (unat (frames_skipped t))) @ str '' skipped'')"

definition stats_tick :: "u64 \<Rightarrow> telemetry \<Rightarrow> stats_task \<Rightarrow> rstring \<times> stats_task" where
  "stats_tick max_kbps t s =
     (let (delta_pty_in, delta_net_out, s) = stats_deltas t s in
      (stats_line max_kbps t (delta_pty_in, delta_net_out), s))"

section \<open>A session with its statistics\<close>

text \<open>
  A session that is being served, the statistics task if it was asked for, and the lines it has
  printed. The task is one more task beside those of the session, and is aborted some time after
  the session is over.
\<close>

record 'vt served =
  serving :: "'vt session"
  stats_handle :: "stats_task option"
  printed :: "rstring list"

datatype served_event = In event | StatsTick | StatsAbort

definition serve :: "'vt session \<Rightarrow> stats_task option \<Rightarrow> 'vt served" where
  "serve s st = \<lparr>serving = s, stats_handle = st, printed = []\<rparr>"

definition served_step ::
  "'vt vt100 \<Rightarrow> gz_encoder \<Rightarrow> panic_strategy \<Rightarrow> u64 \<Rightarrow> rstring \<Rightarrow> 'vt served \<Rightarrow> served_event \<Rightarrow> 'vt served option" where
  "served_step V gz ps max_kbps key v ev =
     (case ev of
        In e \<Rightarrow> map_option (\<lambda>s. v\<lparr>serving := s\<rparr>) (session_step V gz ps max_kbps key (serving v) e)
      | StatsTick \<Rightarrow>
          (case stats_handle v of
             None \<Rightarrow> Some v
           | Some st \<Rightarrow>
               (let (line, st) = stats_tick max_kbps (telemetry (serving v)) st in
                Some (v\<lparr>stats_handle := Some st, printed := printed v @ [line]\<rparr>)))
      | StatsAbort \<Rightarrow> Some (if session_over (serving v) then v\<lparr>stats_handle := None\<rparr> else v))"

definition served_run ::
  "'vt vt100 \<Rightarrow> gz_encoder \<Rightarrow> panic_strategy \<Rightarrow> u64 \<Rightarrow> rstring \<Rightarrow> 'vt served \<Rightarrow> served_event list \<Rightarrow> 'vt served option" where
  "served_run V gz ps max_kbps key = run_steps (served_step V gz ps max_kbps key)"

text \<open>The changes seen over a sequence of ticks.\<close>

fun stats_run :: "telemetry list \<Rightarrow> stats_task \<Rightarrow> (u64 \<times> u64) list" where
  "stats_run [] s = []"
| "stats_run (t # ts) s = (let (dp, dn, s) = stats_deltas t s in (dp, dn) # stats_run ts s)"

section \<open>Properties\<close>

lemma stats_run_sum:
  assumes "sorted (last_pty_in s # map pty_bytes_in ts)" "sorted (last_net_out s # map net_bytes_out ts)"
  shows "sum_list (map (unat \<circ> fst) (stats_run ts s)) = unat (last (last_pty_in s # map pty_bytes_in ts)) - unat (last_pty_in s) \<and>
    sum_list (map (unat \<circ> snd) (stats_run ts s)) = unat (last (last_net_out s # map net_bytes_out ts)) - unat (last_net_out s)"
  using assms
proof (induction ts arbitrary: s)
  case (Cons t ts)
  let ?s = "s\<lparr>last_pty_in := pty_bytes_in t, last_net_out := net_bytes_out t\<rparr>"
  have le: "unat a \<le> unat (last (a # as))" if "sorted (a # as)" for a and as :: "u64 list"
    using that by (cases "as = []") (auto simp: word_le_nat_alt [symmetric])
  have p: "unat (last_pty_in s) \<le> unat (pty_bytes_in t)" "unat (last_net_out s) \<le> unat (net_bytes_out t)"
    using Cons.prems by (simp_all add: word_le_nat_alt)
  have 1: "sorted (last_pty_in ?s # map pty_bytes_in ts)" "sorted (last_net_out ?s # map net_bytes_out ts)"
    using Cons.prems by simp_all
  show ?case
    using Cons.IH [OF 1] p le [OF 1(1)] le [OF 1(2)]
    by (simp add: stats_deltas_def Let_def unat_saturating_sub)
qed simp

text \<open>The events of the session alone, and the telemetry at the ticks of the statistics task.\<close>

fun session_events :: "served_event list \<Rightarrow> event list" where
  "session_events [] = []"
| "session_events (In e # evs) = e # session_events evs"
| "session_events (ev # evs) = session_events evs"

fun seen ::
  "'vt vt100 \<Rightarrow> gz_encoder \<Rightarrow> panic_strategy \<Rightarrow> u64 \<Rightarrow> rstring \<Rightarrow> 'vt session \<Rightarrow> served_event list \<Rightarrow> telemetry list" where
  "seen V gz ps kbps key s [] = []"
| "seen V gz ps kbps key s (In e # evs) =
     (case session_step V gz ps kbps key s e of None \<Rightarrow> [] | Some s' \<Rightarrow> seen V gz ps kbps key s' evs)"
| "seen V gz ps kbps key s (StatsTick # evs) = telemetry s # seen V gz ps kbps key s evs"
| "seen V gz ps kbps key s (StatsAbort # evs) = seen V gz ps kbps key s evs"

text \<open>What is printed while the statistics task runs.\<close>

lemma served_run_seen:
  assumes "served_run V gz ps kbps key v evs = Some v'" "StatsAbort \<notin> set evs" "stats_handle v = Some st"
  shows "session_run V gz ps kbps key (serving v) (session_events evs) = Some (serving v') \<and>
    printed v' = printed v @ map2 (stats_line kbps) (seen V gz ps kbps key (serving v) evs)
      (stats_run (seen V gz ps kbps key (serving v) evs) st)"
  using assms
proof (induction evs arbitrary: v st)
  case (Cons ev evs)
  then obtain v1 where v1: "served_step V gz ps kbps key v ev = Some v1" "served_run V gz ps kbps key v1 evs = Some v'"
    by (auto simp: served_run_def bind_eq_Some_conv)
  show ?case
  proof (cases ev)
    case (In e)
    then obtain s1 where s1: "session_step V gz ps kbps key (serving v) e = Some s1" "v1 = v\<lparr>serving := s1\<rparr>"
      using v1(1) by (auto simp: served_step_def)
    with Cons.IH [OF v1(2), of st] Cons.prems In show ?thesis
      by (simp add: session_run_def)
  next
    case StatsTick
    obtain dp dn st1 where d: "stats_deltas (telemetry (serving v)) st = (dp, dn, st1)"
      by (cases "stats_deltas (telemetry (serving v)) st")
    then have "v1 = v\<lparr>stats_handle := Some st1, printed := printed v @ [stats_line kbps (telemetry (serving v)) (dp, dn)]\<rparr>"
      using v1(1) StatsTick Cons.prems by (simp add: served_step_def stats_tick_def)
    with Cons.IH [OF v1(2), of st1] Cons.prems StatsTick d show ?thesis
      by (simp add: session_run_def)
  qed (use Cons.prems in simp)
qed (simp add: served_run_def session_run_def)

lemma session_run_append:
  "session_run V gz ps kbps key s (evs @ evs') =
     Option.bind (session_run V gz ps kbps key s evs) (\<lambda>s. session_run V gz ps kbps key s evs')"
  by (simp add: session_run_def run_steps_append)

lemma word_le_of_nat: "n \<le> m \<Longrightarrow> m < 2 ^ 64 \<Longrightarrow> (word_of_nat n :: u64) \<le> word_of_nat m"
  by (simp add: word_le_nat_alt unat_of_nat)

lemma payload_prefix: "prefix ps qs \<Longrightarrow> sum_list (map payload_len ps) \<le> sum_list (map payload_len qs)"
  by (auto simp: prefix_def)

text \<open>The counters of a session do not decrease while they do not wrap.\<close>

lemma counters_grow:
  assumes "session_run V gz ps kbps key (session_start V kbps t0 pty) h = Some s"
    and "session_run V gz ps kbps key s k = Some s'" "phase s' \<noteq> Finished"
    and "length (pty_stream (h @ k)) < 2 ^ 64" "sum_list (map payload_len (wire s')) < 2 ^ 64"
  shows "pty_bytes_in (telemetry s) \<le> pty_bytes_in (telemetry s') \<and> net_bytes_out (telemetry s) \<le> net_bytes_out (telemetry s')"
proof -
  have run': "session_run V gz ps kbps key (session_start V kbps t0 pty) (h @ k) = Some s'"
    using assms(1,2) by (simp add: session_run_append)
  note w = session_run_wire [OF assms(2)]
  have "phase s \<noteq> Finished" using w assms(3) by blast
  then show ?thesis
    using session_counters [OF assms(1)] session_counters [OF run'] assms(3-5) w
      prefix_length_le [OF pty_stream_append [of h k]] payload_prefix [of "wire s" "wire s'"]
    by (auto intro!: word_le_of_nat)
qed

lemma seen_sorted:
  assumes "session_run V gz ps kbps key (session_start V kbps t0 pty) h = Some s"
    and "session_run V gz ps kbps key s (session_events evs) = Some s'" "phase s' \<noteq> Finished"
    and "length (pty_stream (h @ session_events evs)) < 2 ^ 64" "sum_list (map payload_len (wire s')) < 2 ^ 64"
  shows "sorted (map pty_bytes_in (telemetry s # seen V gz ps kbps key s evs)) \<and>
    sorted (map net_bytes_out (telemetry s # seen V gz ps kbps key s evs))"
  using assms
proof (induction evs arbitrary: h s)
  case (Cons ev evs)
  show ?case
  proof (cases ev)
    case (In e)
    then obtain s1 where s1: "session_step V gz ps kbps key s e = Some s1"
        "session_run V gz ps kbps key s1 (session_events evs) = Some s'"
      using Cons.prems(2) by (auto simp: session_run_def bind_eq_Some_conv)
    then have r1: "session_run V gz ps kbps key s [e] = Some s1" by (simp add: session_run_def)
    have h1: "session_run V gz ps kbps key (session_start V kbps t0 pty) (h @ [e]) = Some s1"
      using Cons.prems(1) r1 by (simp add: session_run_append)
    have p1: "phase s1 \<noteq> Finished" "sum_list (map payload_len (wire s1)) < 2 ^ 64"
      using session_run_wire [OF s1(2)] Cons.prems(3,5) payload_prefix [of "wire s1" "wire s'"] by auto
    have l1: "length (pty_stream (h @ [e])) < 2 ^ 64"
      using prefix_length_le [OF pty_stream_append [of "h @ [e]" "session_events evs"]] Cons.prems(4) In by simp
    have "pty_bytes_in (telemetry s) \<le> pty_bytes_in (telemetry s1) \<and> net_bytes_out (telemetry s) \<le> net_bytes_out (telemetry s1)"
      by (rule counters_grow [OF Cons.prems(1) r1 p1(1) l1 p1(2)])
    with Cons.IH [OF h1 s1(2) Cons.prems(3) _ Cons.prems(5)] Cons.prems(4) In s1(1) show ?thesis
      by simp (meson order_trans)
  qed (use Cons in auto)
qed simp

lemma seen_snoc:
  assumes "session_run V gz ps kbps key s (session_events evs) = Some s'"
  shows "seen V gz ps kbps key s (evs @ [StatsTick]) = seen V gz ps kbps key s evs @ [telemetry s']"
  using assms
  by (induction V gz ps kbps key s evs rule: seen.induct) (auto simp: session_run_def bind_eq_Some_conv)

lemma seen_length:
  assumes "session_run V gz ps kbps key s (session_events evs) = Some s'"
  shows "length (seen V gz ps kbps key s evs) = length (filter (\<lambda>e. e = StatsTick) evs)"
  using assms
  by (induction V gz ps kbps key s evs rule: seen.induct) (auto simp: session_run_def bind_eq_Some_conv)

lemma served_run_total:
  assumes "session_run V gz ps kbps key (serving v) (session_events evs) = Some s"
  shows "\<exists>v'. served_run V gz ps kbps key v evs = Some v' \<and> serving v' = s"
  using assms
proof (induction evs arbitrary: v)
  case (Cons ev evs)
  have "\<exists>v1. served_step V gz ps kbps key v ev = Some v1 \<and>
      session_run V gz ps kbps key (serving v1) (session_events evs) = Some s"
    using Cons.prems
    by (cases ev) (auto simp: served_step_def session_run_def Let_def bind_eq_Some_conv split: option.splits prod.splits)
  with Cons.IH show ?case by (auto simp: served_run_def)
qed (simp add: served_run_def session_run_def)

lemma session_events_snoc: "session_events (evs @ [StatsTick]) = session_events evs"
  by (induction evs rule: session_events.induct) simp_all

lemma length_stats_run: "length (stats_run ts s) = length ts"
  by (induction ts arbitrary: s) (simp_all split: prod.splits)

text \<open>
  C40. The statistics account for the whole session: each tick of the task prints one line from the
  counters and their changes, and whenever it has just printed one, the changes printed so far
  add up to the bytes the PTY wrote and the payload bytes put on the wire, as long as the 64-bit counters
  do not wrap and the send task runs.
\<close>
theorem session_statistics_add_up:
  assumes "served_run V gz ps kbps key (serve (session_start V kbps t0 pty) (Some stats_start)) (evs @ [StatsTick]) = Some v"
    and "StatsAbort \<notin> set evs" "phase (serving v) \<noteq> Finished"
    and "length (pty_stream (session_events evs)) < 2 ^ 64" "sum_list (map payload_len (wire (serving v))) < 2 ^ 64"
  shows "\<exists>ts ds. printed v = map2 (stats_line kbps) ts ds \<and> length ts = length ds \<and>
    length ds = length (filter (\<lambda>e. e = StatsTick) (evs @ [StatsTick])) \<and>
    sum_list (map (unat \<circ> fst) ds) = length (pty_stream (session_events evs)) \<and>
    sum_list (map (unat \<circ> snd) ds) = sum_list (map payload_len (wire (serving v)))"
proof -
  let ?init = "session_start V kbps t0 pty"
  let ?ts = "seen V gz ps kbps key ?init (evs @ [StatsTick])"
  let ?s = "serving v"
  have run: "session_run V gz ps kbps key ?init (session_events evs) = Some ?s"
    and out: "printed v = map2 (stats_line kbps) ?ts (stats_run ?ts stats_start)"
    using served_run_seen [OF assms(1), of stats_start] assms(2) by (simp_all add: serve_def session_events_snoc)
  have 0: "session_run V gz ps kbps key ?init [] = Some ?init" by (simp add: session_run_def)
  have t0: "pty_bytes_in (telemetry ?init) = 0" "net_bytes_out (telemetry ?init) = 0"
    by (simp_all add: session_start_def telemetry_default_def)
  have l: "last (0 # map pty_bytes_in ?ts) = pty_bytes_in (telemetry ?s)"
    "last (0 # map net_bytes_out ?ts) = net_bytes_out (telemetry ?s)"
    using seen_snoc [OF run] by simp_all
  have "sorted (last_pty_in stats_start # map pty_bytes_in ?ts)" "sorted (last_net_out stats_start # map net_bytes_out ?ts)"
    using seen_sorted [OF 0, of "evs @ [StatsTick]" ?s] run assms(3-5) t0
    by (simp_all add: session_events_snoc stats_start_def)
  then have "sum_list (map (unat \<circ> fst) (stats_run ?ts stats_start)) = unat (pty_bytes_in (telemetry ?s))"
    "sum_list (map (unat \<circ> snd) (stats_run ?ts stats_start)) = unat (net_bytes_out (telemetry ?s))"
    using stats_run_sum [of stats_start ?ts] l by (simp_all add: stats_start_def)
  moreover have "length ?ts = length (filter (\<lambda>e. e = StatsTick) (evs @ [StatsTick]))"
    using seen_length [OF run] seen_snoc [OF run] by simp
  ultimately show ?thesis
    using session_counters [OF run] assms(3-5) out
    by (intro exI [of _ ?ts] exI [of _ "stats_run ?ts stats_start"]) (simp add: unat_of_nat length_stats_run)
qed

theorem session_statistics_add_up_witness:
  "\<exists>v ts ds. served_run line_vt100 run_gz Unwind 8 [] (serve (session_start line_vt100 8 0 (sink [])) (Some stats_start))
      [In (PtyRead (Chunk [104, 105])), StatsTick, In (SendTop True), In (Tick 20000000 True), StatsTick] = Some v \<and>
    printed v = map2 (stats_line 8) ts ds \<and> length ds = 2 \<and> sum_list (map (unat \<circ> fst) ds) = 2"
proof -
  let ?evs = "[In (PtyRead (Chunk [104, 105])), StatsTick, In (SendTop True), In (Tick 20000000 True)]"
  let ?v = "serve (session_start line_vt100 8 0 (sink [])) (Some stats_start)"
  obtain v where v: "served_run line_vt100 run_gz Unwind 8 [] ?v (?evs @ [StatsTick]) = Some v" "serving v = example_run"
    using served_run_total [of line_vt100 run_gz Unwind 8 "[]" ?v "?evs @ [StatsTick]"] example_run
    by (auto simp: serve_def)
  have "phase (serving v) \<noteq> Finished" "length (pty_stream (session_events ?evs)) < 2 ^ 64"
    "sum_list (map payload_len (wire (serving v))) < 2 ^ 64" "StatsAbort \<notin> set ?evs"
    using v(2) by (simp_all add: example_run_def pty_stream_def)
  from session_statistics_add_up [OF v(1) this(4,1,2,3)] obtain ts ds where
    "printed v = map2 (stats_line 8) ts ds" "length ds = 2" "sum_list (map (unat \<circ> fst) ds) = 2"
    by (auto simp: pty_stream_def)
  with v(1) show ?thesis by auto
qed

text \<open>The compression shown lies between 0 and 99.9 percent, also when the output is larger than the input.\<close>

lemma compression_range: "0 \<le> compression i n \<and> compression i n \<le> fl (999 / 10)"
  using f64.rnd_nonneg [of "999 / 10"] by (auto simp: compression_def clamp_def)

end
