(* ===== verification/Login.thy ===== *)
theory Login
  imports Stats
begin

text \<open>
  Starting a session on the server: \<^verbatim>\<open>run_server\<close>, \<^verbatim>\<open>generate_session_key\<close> and the set-up of
  \<^verbatim>\<open>handle_client\<close> in \<^verbatim>\<open>src/server.rs\<close>, up to the point where the session's tasks run. The operating
  system (sockets, the PTY and the shell in it), tokio's timer and the clocks are parameters. The
  theorems: the fallback to a free port, the limits of the frame rate, and the lines printed.
\<close>

section \<open>The server's start\<close>

record 'ip socket_addr =
  ip :: 'ip
  port :: u16

text \<open>The nanoseconds since the epoch, \<open>None\<close> for a clock before it.\<close>

definition generate_session_key :: "nat option \<Rightarrow> u32 \<Rightarrow> rstring" where
  "generate_session_key since_epoch pid =
     (let nanos = (case since_epoch of Some n \<Rightarrow> n | None \<Rightarrow> 0) in
      fmt_hex 16 nanos @ fmt_hex 8 (unat pid) @ fmt_hex 8 (nanos mod 2 ^ 32))"

definition connect_line :: "u16 \<Rightarrow> rstring \<Rightarrow> u32 \<Rightarrow> rstring" where
  "connect_line p key pid =
     str ''MOSH-TCP CONNECT '' @ fmt_dec (unat p) @ [32] @ key @ [32] @ fmt_dec (unat pid)"

definition bind_listener ::
  "('ip socket_addr \<Rightarrow> 'l io_result) \<Rightarrow> 'ip socket_addr \<Rightarrow> 'l io_result" where
  "bind_listener bind addr =
     (case bind addr of
        Inr l \<Rightarrow> Inr l
      | Inl e \<Rightarrow> bind (addr\<lparr>port := 0\<rparr>))"

text \<open>The shell to run: the words of the option, of \<^verbatim>\<open>SHELL\<close>, or \<^verbatim>\<open>/bin/bash\<close>.\<close>

definition shell_command :: "rstring option \<Rightarrow> rstring option \<Rightarrow> rstring \<times> rstring list" where
  "shell_command shell_cmd env_shell =
     (let shell = (case shell_cmd of Some s \<Rightarrow> s
                   | None \<Rightarrow> (case env_shell of Some s \<Rightarrow> s | None \<Rightarrow> str ''/bin/bash'')) in
      case split_whitespace shell of
        [] \<Rightarrow> (str ''/bin/bash'', [])
      | bin # args \<Rightarrow> (bin, args))"

text \<open>
  What the operating system and tokio answer: \<open>os_bind\<close>, \<open>os_local_addr\<close> and \<open>os_accept\<close> of the listener; opening a
  PTY of so many rows and columns, starting a command with its environment in it, and the PTY's reader and
  writer; \<open>interval_ok\<close> tells whether a timer of that period can be made.
\<close>

record ('ip, 'l, 'p) os =
  os_bind :: "'ip socket_addr \<Rightarrow> 'l io_result"
  os_local_addr :: "'l \<Rightarrow> 'ip socket_addr io_result"
  os_accept :: "'l \<Rightarrow> unit io_result"
  os_openpty :: "u16 \<Rightarrow> u16 \<Rightarrow> 'p io_result"
  os_spawn_command :: "'p \<Rightarrow> rstring \<times> rstring list \<Rightarrow> (rstring \<times> rstring) list \<Rightarrow> unit io_result"
  os_clone_reader :: "'p \<Rightarrow> unit io_result"
  os_take_writer :: "'p \<Rightarrow> writer io_result"
  interval_ok :: "u64 \<Rightarrow> bool"
  env_shell :: "rstring option"
  since_epoch :: "nat option"
  process_id :: u32

text \<open>A session that has been set up comes with its statistics task, if it was asked for.\<close>

datatype 'vt client_result =
    SetupFailed io_error
  | Session "'vt served"

text \<open>The PTY with the shell in it: every step may fail.\<close>

definition open_shell :: "('ip, 'l, 'p) os \<Rightarrow> rstring option \<Rightarrow> writer io_result" where
  "open_shell os shell_cmd =
     (case os_openpty os 24 80 of
        Inl e \<Rightarrow> Inl e
      | Inr pair \<Rightarrow>
          (case os_spawn_command os pair (shell_command shell_cmd (env_shell os))
              [(str ''TERM'', str ''xterm-256color''), (str ''COLORTERM'', str ''truecolor'')] of
             Inl e \<Rightarrow> Inl e
           | Inr _ \<Rightarrow>
               (case os_clone_reader os pair of
                  Inl e \<Rightarrow> Inl e
                | Inr _ \<Rightarrow> os_take_writer os pair)))"

definition handle_client ::
  "'vt vt100 \<Rightarrow> ('ip, 'l, 'p) os \<Rightarrow> int \<Rightarrow> u64 \<Rightarrow> u64 \<Rightarrow> bool \<Rightarrow> rstring option \<Rightarrow> 'vt client_result" where
  "handle_client V os now frame_ms max_kbps enable_stats shell_cmd =
     (case open_shell os shell_cmd of
        Inl e \<Rightarrow> SetupFailed e
      | Inr pty_writer \<Rightarrow>
          Session (serve (spawn_send_task (interval_ok os frame_ms) (session_start V max_kbps now pty_writer))
            (if enable_stats then Some stats_start else None)))"

datatype 'vt server_outcome =
    StartFailed io_error
  | NoClient
  | DivideByZero
  | Served rstring "'vt client_result"

text \<open>
  The lines printed on standard output, and how the server ended up. The accept loop serves one client:
  its body ends in \<^verbatim>\<open>break\<close>.
\<close>

definition run_server ::
  "'vt vt100 \<Rightarrow> ('ip, 'l, 'p) os \<Rightarrow> int \<Rightarrow> 'ip socket_addr \<Rightarrow> u64 \<Rightarrow> u64 \<Rightarrow> bool \<Rightarrow> rstring option
     \<Rightarrow> rstring list \<times> 'vt server_outcome" where
  "run_server V os now bind_addr fps max_kbps enable_stats shell_cmd =
     (case bind_listener (os_bind os) bind_addr of
        Inl e \<Rightarrow> ([], StartFailed e)
      | Inr listener \<Rightarrow>
          (case os_local_addr os listener of
             Inl e \<Rightarrow> ([], StartFailed e)
           | Inr bound_addr \<Rightarrow>
               (let session_key = generate_session_key (since_epoch os) (process_id os);
                    lines = [connect_line (port bound_addr) session_key (process_id os)] in
                case os_accept os listener of
                  Inl e \<Rightarrow> (lines, NoClient)
                | Inr _ \<Rightarrow>
                    if fps = 0 then (lines, DivideByZero)
                    else (lines, Served session_key (handle_client V os now (1000 div fps) max_kbps enable_stats shell_cmd)))))"

section \<open>The login line\<close>

lemma fmt_hex_ascii: "list_all (\<lambda>c. c < 128) (fmt_hex w n)"
proof -
  have "d < 16 \<Longrightarrow> digit_char d < 128" for d
    by (simp add: digit_char_def)
  then show ?thesis
    using digits_less [of 16 _ n] by (auto simp: fmt_hex_def Let_def list_all_iff)
qed

lemma session_key_ascii: "list_all (\<lambda>c. c < 128) (generate_session_key t pid)"
  by (simp add: generate_session_key_def Let_def fmt_hex_ascii)

lemma session_key_word:
  "generate_session_key t pid \<noteq> []" "list_all (\<lambda>c. \<not> is_whitespace c) (generate_session_key t pid)"
  by (simp_all add: generate_session_key_def Let_def fmt_hex_word)

lemma session_key_length:
  assumes "(case t of Some n \<Rightarrow> n | None \<Rightarrow> 0) < 2 ^ 64"
  shows "length (generate_session_key t pid) = 32"
proof -
  have "length (fmt_hex 16 (case t of Some n \<Rightarrow> n | None \<Rightarrow> 0)) = 16" "length (fmt_hex 8 (unat pid)) = 8"
    "length (fmt_hex 8 ((case t of Some n \<Rightarrow> n | None \<Rightarrow> 0) mod 2 ^ 32)) = 8"
    using assms unsigned_less [of pid, where ?'a = nat] by (intro length_fmt_hex; simp)+
  then show ?thesis by (simp add: generate_session_key_def Let_def)
qed

lemma whitespace_space: "is_whitespace 32"
  by (simp add: is_whitespace_def)

lemma str_words:
  "str ''MOSH-TCP CONNECT '' = str ''MOSH-TCP'' @ 32 # (str ''CONNECT'' @ [32])"
  "str ''MOSH-TCP'' \<noteq> []" "str ''CONNECT'' \<noteq> []"
  "list_all (\<lambda>c. \<not> is_whitespace c) (str ''MOSH-TCP'')" "list_all (\<lambda>c. \<not> is_whitespace c) (str ''CONNECT'')"
  by (simp_all add: str_def is_whitespace_def)

lemma connect_line_words:
  assumes "key \<noteq> []" "list_all (\<lambda>c. \<not> is_whitespace c) key"
  shows "split_whitespace (connect_line p key pid) =
    [str ''MOSH-TCP'', str ''CONNECT'', fmt_dec (unat p), key, fmt_dec (unat pid)]"
  using assms
  by (simp add: connect_line_def str_words(1) split_whitespace_word str_words whitespace_space fmt_dec_word
      split_whitespace_last)

lemma connect_line_head: "take 17 (connect_line p key pid) = str ''MOSH-TCP CONNECT ''"
  by (simp add: connect_line_def str_def)

text \<open>An operating system for closed examples: port 4000 is taken, any other port becomes 5000.\<close>

definition example_os :: "(unit, u16, unit) os" where
  "example_os =
     \<lparr>os_bind = \<lambda>a. if port a = 4000 then Inl (IoError OtherKind ''address in use'') else Inr 5000,
      os_local_addr = \<lambda>l. Inr \<lparr>ip = (), port = l\<rparr>, os_accept = \<lambda>l. Inr (), os_openpty = \<lambda>r c. Inr (),
      os_spawn_command = \<lambda>p c e. Inr (), os_clone_reader = \<lambda>p. Inr (), os_take_writer = \<lambda>p. Inr (sink []),
      interval_ok = \<lambda>ms. ms \<noteq> 0, env_shell = None, since_epoch = Some 1700000000, process_id = 77\<rparr>"

lemma example_server:
  "run_server line_vt100 example_os 0 \<lparr>ip = (), port = 4000\<rparr> 50 6 False None =
     ([connect_line 5000 (generate_session_key (Some 1700000000) 77) 77],
      Served (generate_session_key (Some 1700000000) 77) (Session (serve (session_start line_vt100 6 0 (sink [])) None)))"
proof -
  have "(1000 :: u64) div 50 = 20" by code_simp
  then show ?thesis
    by (simp add: run_server_def example_os_def bind_listener_def handle_client_def open_shell_def spawn_send_task_def
        session_start_def Let_def)
qed

text \<open>
  A server whose address is taken falls back to a free port of the same address and announces
  the port it really got; it fails to start only when that fails too.
\<close>
theorem busy_port_falls_back:
  assumes "os_bind os addr = Inl e" "os_bind os (addr\<lparr>port := 0\<rparr>) = Inr l" "os_local_addr os l = Inr bound"
  shows "fst (run_server V os now addr fps kbps st shell) =
    [connect_line (port bound) (generate_session_key (since_epoch os) (process_id os)) (process_id os)]"
  using assms by (simp add: run_server_def bind_listener_def Let_def split: sum.splits)

theorem busy_port_falls_back_witness:
  "fst (run_server line_vt100 example_os 0 \<lparr>ip = (), port = 4000\<rparr> 50 6 False None) =
     [connect_line 5000 (generate_session_key (Some 1700000000) 77) 77]"
  using busy_port_falls_back [of example_os "\<lparr>ip = (), port = 4000\<rparr>" "IoError OtherKind ''address in use''" 5000
      "\<lparr>ip = (), port = 5000\<rparr>" line_vt100 0 50 6 False None]
  by (simp add: example_os_def)

text \<open>A session whose send task has a timer that is refused never sends anything.\<close>

definition refused_inv :: "panic_strategy \<Rightarrow> event list \<Rightarrow> 'vt session \<Rightarrow> bool" where
  "refused_inv ps h s \<longleftrightarrow> wire s = [] \<and>
     (if \<exists>ok. SendTop ok \<in> set h then phase s = Finished \<and> ps = Unwind else phase s = TimerRefused)"

interpretation refused: history_invariant "session_step V gz ps kbps key"
    "spawn_send_task False (session_start V kbps t0 pty)" "refused_inv ps"
  for V :: "'vt vt100" and gz ps kbps key t0 pty
proof unfold_locales
  show "refused_inv ps [] (spawn_send_task False (session_start V kbps t0 pty))"
    by (simp add: refused_inv_def spawn_send_task_def session_start_def)
next
  fix h and s s' :: "'vt session" and e
  assume inv: "refused_inv ps h s" and step: "session_step V gz ps kbps key s e = Some s'"
  show "refused_inv ps (h @ [e]) s'"
  proof (cases e)
    case (PtyRead r)
    then show ?thesis
      using inv session_step_PtyRead [OF step [unfolded PtyRead]] by (simp add: refused_inv_def)
  next
    case (SendTop ok)
    then show ?thesis
      using inv step by (auto simp: refused_inv_def session_step_def split: if_splits)
  next
    case (Tick n ok)
    then show ?thesis
      using inv step by (auto simp: refused_inv_def session_step_def split: if_splits)
  next
    case (Received now r)
    then show ?thesis
      using inv step by (auto simp: refused_inv_def session_step_def handle_packet_fields split: if_splits)
  next
    case Disconnected
    then show ?thesis
      using inv step by (auto simp: refused_inv_def session_step_def split: if_splits)
  qed
qed

lemma frame_interval_zero:
  assumes "fps \<noteq> (0 :: u64)"
  shows "1000 div fps = 0 \<longleftrightarrow> 1000 < fps"
proof -
  have "0 < unat fps" using assms by (simp add: unat_gt_0)
  then have "unat (1000 div fps) = 0 \<longleftrightarrow> 1000 < unat fps"
    by (simp add: unat_div div_eq_0_iff)
  then show ?thesis by (simp add: word_less_nat_alt unat_eq_0)
qed

text \<open>
  C35. The frame rate must lie between 1 and 1000. With a rate of 0 the first client makes the server
  divide by zero. With a rate above 1000 the frame interval is 0 ms, of which tokio makes no timer: the
  session starts, but whatever happens in it no frame is ever sent, and as soon as its send task
  runs, the session is over, or the process is aborted when panics abort. Every rate in between
  starts a session whose send task has its timer.
\<close>
theorem frame_rate_limits:
  assumes "bind_listener (os_bind os) addr = Inr l" "os_local_addr os l = Inr bound" "os_accept os l = Inr ()"
    and "open_shell os shell = Inr pty" "\<And>ms. interval_ok os ms \<longleftrightarrow> ms \<noteq> 0"
  shows "snd (run_server V os now addr fps kbps st shell) =
      (if fps = 0 then DivideByZero
       else Served (generate_session_key (since_epoch os) (process_id os))
         (Session (serve (spawn_send_task (fps \<le> 1000) (session_start V kbps now pty)) (if st then Some stats_start else None)))) \<and>
    (\<forall>evs s. session_run V gz ps kbps key (spawn_send_task False (session_start V kbps now pty)) evs = Some s \<longrightarrow>
       wire s = [] \<and> ((\<exists>ok. SendTop ok \<in> set evs) \<longrightarrow> session_over s \<and> ps = Unwind)) \<and>
    spawn_send_task True (session_start V kbps now pty) = session_start V kbps now pty"
proof (intro conjI allI impI)
  have "(1000 div fps = 0) = (\<not> fps \<le> 1000)" if "fps \<noteq> 0"
    using frame_interval_zero [OF that] by (simp add: not_le)
  then show "snd (run_server V os now addr fps kbps st shell) =
      (if fps = 0 then DivideByZero
       else Served (generate_session_key (since_epoch os) (process_id os))
         (Session (serve (spawn_send_task (fps \<le> 1000) (session_start V kbps now pty)) (if st then Some stats_start else None))))"
    using assms by (simp add: run_server_def handle_client_def Let_def)
next
  fix evs s
  assume "session_run V gz ps kbps key (spawn_send_task False (session_start V kbps now pty)) evs = Some s"
  from refused.run_history [OF this [unfolded session_run_def]]
  have inv: "refused_inv ps evs s" .
  then show "wire s = []" by (simp add: refused_inv_def)
  assume "\<exists>ok. SendTop ok \<in> set evs"
  with inv show "session_over s" "ps = Unwind" by (simp_all add: refused_inv_def session_over_def)
qed (simp add: spawn_send_task_def session_start_def)

theorem frame_rate_limits_witness:
  "snd (run_server line_vt100 example_os 0 \<lparr>ip = (), port = 4000\<rparr> 2000 6 True None) =
     Served (generate_session_key (Some 1700000000) 77)
       (Session (serve (spawn_send_task False (session_start line_vt100 6 0 (sink []))) (Some stats_start)))"
  using frame_rate_limits [of example_os "\<lparr>ip = (), port = 4000\<rparr>" 5000 "\<lparr>ip = (), port = 5000\<rparr>" None "sink []"
      line_vt100 0 2000 6 True]
  by (simp add: example_os_def bind_listener_def open_shell_def word_le_nat_alt)

end
