(* ===== verification/Tunnel.thy ===== *)
theory Tunnel
  imports Login Cli
begin

text \<open>
  Logging in over SSH: \<^verbatim>\<open>SshTunnel\<close> of \<^verbatim>\<open>src/client.rs\<close>, which starts a server on the remote host, reads the
  line it prints, starts a second SSH process that forwards a local port to it and connects through it.
  The processes are parameters: what the launcher prints, and what each poll of the forwarder sees. The
  model records the calls on child processes, so that what is left behind can be stated. The theorems: a
  server started this way listens on the loopback address with its default options, its line is read
  back, the port it listens on is the one forwarded and the key in the line is accepted; which children
  are left behind by every outcome; and that the wait ends.
\<close>

section \<open>Processes\<close>

datatype child = Launcher | Forwarder

datatype child_call =
    Start child rstring "rstring list"
  | Exited child
  | Kill child
  | Wait child

text \<open>
  One turn of the wait for the tunnel: the answer of \<^verbatim>\<open>try_wait\<close>, that of \<^verbatim>\<open>connect\<close>, and the nanoseconds since the start of
  the wait.
\<close>

datatype 'c poll = Poll (try_wait: "string option io_result") (connect: "'c io_result") (elapsed: nat)

text \<open>
  What the client meets: starting the launcher gives the lines of its output as they are read, and
  whether the output ends after them; starting the forwarder gives the polls.
\<close>

record 'c ssh_env =
  start_launcher :: "rstring \<Rightarrow> rstring list \<Rightarrow> (rstring io_result list \<times> bool) io_result"
  bind_local :: "unit io_result"
  local_addr_port :: "u16 io_result"
  start_forwarder :: "rstring \<Rightarrow> rstring list \<Rightarrow> 'c poll list io_result"

record ssh_tunnel =
  launcher_child :: "child option"
  tunnel_child :: child
  local_port :: u16
  tunnel_port :: u16
  session_key :: rstring

section \<open>The steps\<close>

definition launch_args :: "rstring \<Rightarrow> u16 option \<Rightarrow> rstring \<Rightarrow> u16 \<Rightarrow> rstring list" where
  "launch_args target sp server_cmd rp =
     (case sp of Some p \<Rightarrow> [str ''-p'', fmt_dec (unat p)] | None \<Rightarrow> []) @ [target] @
     [if rp = 0 then server_cmd @ str '' --bind 127.0.0.1:0''
      else server_cmd @ str '' --bind 127.0.0.1:'' @ fmt_dec (unat rp)]"

definition tunnel_args :: "rstring \<Rightarrow> u16 option \<Rightarrow> u16 \<Rightarrow> u16 \<Rightarrow> rstring list" where
  "tunnel_args target sp lp bound_port =
     [str ''-o'', str ''ExitOnForwardFailure=yes'', str ''-N'', str ''-L'',
      fmt_dec (unat lp) @ str '':127.0.0.1:'' @ fmt_dec (unat bound_port)] @
     (case sp of Some p \<Rightarrow> [str ''-p'', fmt_dec (unat p)] | None \<Rightarrow> []) @ [target]"

text \<open>Reading the launcher's output: the port and key found, a panic for a line without a key, or still reading.\<close>

datatype login = Login u16 rstring | IndexPanic | Reading

fun scan_lines :: "rstring io_result list \<Rightarrow> bool \<Rightarrow> u16 \<Rightarrow> login" where
  "scan_lines [] ended bound_port = (if ended then Login bound_port [] else Reading)"
| "scan_lines (Inl e # ls) ended bound_port = scan_lines ls ended bound_port"
| "scan_lines (Inr line # ls) ended bound_port =
     (let parts = split_whitespace line in
      if take 17 line = str ''MOSH-TCP CONNECT '' \<and> length parts \<ge> 3 then
        (let bound_port = (case parse_u16 (parts ! 2) of Some p \<Rightarrow> p | None \<Rightarrow> bound_port) in
         if length parts > 3 then Login bound_port (parts ! 3) else IndexPanic)
      else scan_lines ls ended bound_port)"

definition login_of :: "rstring io_result list \<Rightarrow> bool \<Rightarrow> u16 \<Rightarrow> login" where
  "login_of ls ended rp =
     (case scan_lines ls ended rp of
        Login p key \<Rightarrow> Login (if p = 0 then 4000 else p) key
      | r \<Rightarrow> r)"

definition tunnel_timeout :: nat where
  "tunnel_timeout = 15 * 10 ^ 9"

text \<open>The wait, with the calls it makes; no result while it is still waiting.\<close>

fun await_tunnel :: "'c poll list \<Rightarrow> child_call list \<times> 'c io_result option" where
  "await_tunnel [] = ([], None)"
| "await_tunnel (p # ps) =
     (case try_wait p of
        Inr (Some status) \<Rightarrow>
          ([Exited Forwarder], Some (Inl (IoError ConnectionRefused
             (''SSH tunnel process exited unexpectedly with status: '' @ status))))
      | _ \<Rightarrow>
          (case connect p of
             Inr stream \<Rightarrow> ([], Some (Inr stream))
           | Inl _ \<Rightarrow>
               if elapsed p > tunnel_timeout then
                 ([Kill Forwarder], Some (Inl (IoError TimedOut ''Timed out waiting for SSH tunnel TCP connection'')))
               else await_tunnel ps))"

datatype 'c spawn_result =
    SpawnErr io_error
  | SpawnPanic
  | Blocked
  | Spawned ssh_tunnel 'c rstring

text \<open>The second half of \<^verbatim>\<open>spawn\<close>: forwarding a free local port to the port of the server.\<close>

definition open_tunnel ::
  "'c ssh_env \<Rightarrow> rstring \<Rightarrow> rstring \<Rightarrow> u16 option \<Rightarrow> u16 \<Rightarrow> rstring \<Rightarrow> child_call list \<times> 'c spawn_result" where
  "open_tunnel env ssh target sp bound_port key =
     (case bind_local env of
        Inl e \<Rightarrow> ([], SpawnErr e)
      | Inr _ \<Rightarrow>
          (case local_addr_port env of
             Inl e \<Rightarrow> ([], SpawnErr e)
           | Inr lp \<Rightarrow>
               (let args = tunnel_args target sp lp bound_port in
                case start_forwarder env ssh args of
                  Inl e \<Rightarrow> ([], SpawnErr e)
                | Inr polls \<Rightarrow>
                    (let (calls, r) = await_tunnel polls in
                     (Start Forwarder ssh args # calls,
                      case r of
                        None \<Rightarrow> Blocked
                      | Some (Inl e) \<Rightarrow> SpawnErr e
                      | Some (Inr stream) \<Rightarrow>
                          Spawned \<lparr>launcher_child = Some Launcher, tunnel_child = Forwarder, local_port = lp,
                            tunnel_port = bound_port, session_key = key\<rparr> stream key)))))"

definition spawn ::
  "'c ssh_env \<Rightarrow> rstring \<Rightarrow> rstring \<Rightarrow> u16 option \<Rightarrow> rstring \<Rightarrow> u16 \<Rightarrow> child_call list \<times> 'c spawn_result" where
  "spawn env ssh target sp server_cmd rp =
     (let args = launch_args target sp server_cmd rp in
      case start_launcher env ssh args of
        Inl e \<Rightarrow> ([], SpawnErr e)
      | Inr (ls, ended) \<Rightarrow>
          (let (calls, r) =
             (case login_of ls ended rp of
                IndexPanic \<Rightarrow> ([], SpawnPanic)
              | Reading \<Rightarrow> ([], Blocked)
              | Login bound_port key \<Rightarrow> open_tunnel env ssh target sp bound_port key) in
           (Start Launcher ssh args # calls, r)))"

definition drop_tunnel :: "ssh_tunnel \<Rightarrow> child_call list" where
  "drop_tunnel t =
     [Kill (tunnel_child t), Wait (tunnel_child t)] @
     (case launcher_child t of Some c \<Rightarrow> [Kill c, Wait c] | None \<Rightarrow> [])"

section \<open>The login line read back\<close>

lemma scan_connect_line:
  assumes "key \<noteq> []" "list_all (\<lambda>c. \<not> is_whitespace c) key"
    and "\<forall>t. Inr t \<in> set ls \<longrightarrow> take 17 t \<noteq> str ''MOSH-TCP CONNECT ''"
  shows "scan_lines (ls @ Inr (connect_line p key pid) # ls') ended rp = Login p key"
  using assms(3)
proof (induction ls)
  case Nil
  then show ?case
    using connect_line_words [OF assms(1,2)] by (simp add: connect_line_head parse_u16_fmt_dec Let_def)
next
  case (Cons l ls)
  then show ?case by (cases l) (simp_all add: Let_def)
qed

section \<open>The children left behind\<close>

text \<open>
  The children that have been started and that the client has neither killed nor waited for nor seen to
  exit. Whether such a process still runs is up to itself; nothing in the client ends it.
\<close>

fun left_behind_step :: "child set \<Rightarrow> child_call \<Rightarrow> child set" where
  "left_behind_step A (Start c ssh args) = insert c A"
| "left_behind_step A (Exited c) = A - {c}"
| "left_behind_step A (Kill c) = A - {c}"
| "left_behind_step A (Wait c) = A - {c}"

definition left_behind :: "child_call list \<Rightarrow> child set" where
  "left_behind calls = foldl left_behind_step {} calls"

text \<open>The wait leaves the forwarder alone unless it fails.\<close>

lemma await_tunnel_left:
  "foldl left_behind_step A (fst (await_tunnel polls)) =
     (case snd (await_tunnel polls) of Some (Inl e) \<Rightarrow> A - {Forwarder} | _ \<Rightarrow> A)"
  by (induction polls) (auto split: sum.splits option.splits)

lemma open_tunnel_cases:
  assumes "open_tunnel env ssh target sp p key = (calls, r)"
  obtains (failed) e where "calls = []" "r = SpawnErr e"
  | (refused) lp args c e where "calls = Start Forwarder ssh args # c" "r = SpawnErr e"
      "\<And>A. foldl left_behind_step A c = A - {Forwarder}"
  | (waiting) lp args c where "calls = Start Forwarder ssh args # c" "r = Blocked" "\<And>A. foldl left_behind_step A c = A"
  | (connected) lp args c stream where "calls = Start Forwarder ssh args # c"
      "r = Spawned \<lparr>launcher_child = Some Launcher, tunnel_child = Forwarder, local_port = lp, tunnel_port = p,
         session_key = key\<rparr> stream key" "\<And>A. foldl left_behind_step A c = A"
proof (cases "\<exists>lp polls. bind_local env = Inr () \<and> local_addr_port env = Inr lp \<and>
    start_forwarder env ssh (tunnel_args target sp lp p) = Inr polls")
  case False
  with assms obtain e where "calls = []" "r = SpawnErr e"
    by (auto simp: open_tunnel_def Let_def split: sum.splits)
  then show ?thesis by (rule failed)
next
  case True
  then obtain lp polls where b: "bind_local env = Inr ()" "local_addr_port env = Inr lp"
      "start_forwarder env ssh (tunnel_args target sp lp p) = Inr polls" by blast
  obtain c w where w: "await_tunnel polls = (c, w)" by (cases "await_tunnel polls")
  have c: "calls = Start Forwarder ssh (tunnel_args target sp lp p) # c"
    using assms b w by (simp add: open_tunnel_def)
  have al: "foldl left_behind_step A c = (case w of Some (Inl e) \<Rightarrow> A - {Forwarder} | _ \<Rightarrow> A)" for A
    using await_tunnel_left [of A polls] w by simp
  show ?thesis
  proof (cases w)
    case None
    with assms b w al c show ?thesis by (intro waiting) (auto simp: open_tunnel_def)
  next
    case (Some x)
    with assms b w al c show ?thesis
      by (cases x) (auto simp: open_tunnel_def intro: refused connected)
  qed
qed

text \<open>
  C37. The children of a login: when it succeeds the client has started both SSH processes and ended neither, and
  dropping the tunnel, which the program does when the session ends, ends both; after a failure
  the forwarder has been killed or seen to exit, but the launcher, if it could be started, has neither
  been killed nor waited for: every failure leaves it behind.
\<close>
theorem login_children_accounted_for:
  assumes "spawn env ssh target sp server_cmd rp = (calls, r)"
  shows "case r of
      Spawned t stream key \<Rightarrow> left_behind calls = {Launcher, Forwarder} \<and> left_behind (calls @ drop_tunnel t) = {}
    | SpawnErr e \<Rightarrow> if calls = [] then start_launcher env ssh (launch_args target sp server_cmd rp) = Inl e
                   else left_behind calls = {Launcher}
    | SpawnPanic \<Rightarrow> left_behind calls = {Launcher}
    | Blocked \<Rightarrow> Launcher \<in> left_behind calls"
proof (cases "start_launcher env ssh (launch_args target sp server_cmd rp)")
  case (Inl e)
  with assms show ?thesis by (auto simp: spawn_def)
next
  case (Inr out)
  obtain ls ended where out: "out = (ls, ended)" by (cases out)
  show ?thesis
  proof (cases "login_of ls ended rp")
    case (Login p key)
    obtain calls' where o: "open_tunnel env ssh target sp p key = (calls', r)"
      and c: "calls = Start Launcher ssh (launch_args target sp server_cmd rp) # calls'"
      using assms Inr out Login by (auto simp: spawn_def Let_def split: prod.splits)
    from o show ?thesis
      by (cases rule: open_tunnel_cases) (auto simp: c left_behind_def drop_tunnel_def)
  qed (use assms Inr out in \<open>auto simp: spawn_def left_behind_def\<close>)
qed

text \<open>The launcher has printed the server's line and runs on; the forwarder exits.\<close>

definition example_ssh :: "unit ssh_env" where
  "example_ssh =
     \<lparr>start_launcher = \<lambda>ssh args. Inr ([Inr (connect_line 5000 (str ''key'') 77)], False), bind_local = Inr (),
      local_addr_port = Inr 6000,
      start_forwarder = \<lambda>ssh args. Inr [Poll (Inr (Some ''255'')) (Inl (IoError OtherKind [])) 0]\<rparr>"

theorem login_children_accounted_for_witness:
  "left_behind (fst (spawn example_ssh (str ''ssh'') (str ''host'') None (str ''mosh-tcp-server'') 0)) = {Launcher}"
proof -
  obtain calls r where c: "spawn example_ssh (str ''ssh'') (str ''host'') None (str ''mosh-tcp-server'') 0 = (calls, r)"
    by (cases "spawn example_ssh (str ''ssh'') (str ''host'') None (str ''mosh-tcp-server'') 0")
  have "scan_lines [Inr (connect_line 5000 (str ''key'') 77)] False 0 = Login 5000 (str ''key'')"
    using scan_connect_line [of "str ''key''" "[]" 5000 77 "[]" False 0] by (simp add: str_def is_whitespace_def)
  with c have "\<exists>e. r = SpawnErr e" "calls \<noteq> []"
    by (auto simp: spawn_def login_of_def open_tunnel_def example_ssh_def Let_def)
  with login_children_accounted_for [OF c] c show ?thesis by auto
qed

section \<open>The server started over SSH\<close>

definition word_like :: "rstring \<Rightarrow> bool" where
  "word_like w \<longleftrightarrow> w \<noteq> [] \<and> list_all (\<lambda>c. \<not> is_whitespace c) w"

definition loopback :: "u16 \<Rightarrow> rstring" where
  "loopback p = str ''127.0.0.1:'' @ fmt_dec (unat p)"

lemma launch_args_last: "last (launch_args target sp cmd p) = cmd @ 32 # (str ''--bind'' @ 32 # loopback p)"
proof -
  have "fmt_dec 0 = str ''0''" by (simp add: fmt_dec_def digits.simps digit_char_def str_def)
  then show ?thesis by (simp add: launch_args_def loopback_def str_def)
qed

lemma launched_words:
  assumes "word_like cmd"
  shows "split_whitespace (last (launch_args target sp cmd p)) = [cmd, str ''--bind'', loopback p]"
proof -
  have "str ''--bind'' \<noteq> []" "list_all (\<lambda>c. \<not> is_whitespace c) (str ''--bind'')"
    by (simp_all add: str_def is_whitespace_def)
  moreover have "loopback p \<noteq> []" "list_all (\<lambda>c. \<not> is_whitespace c) (loopback p)"
    using fmt_dec_word [of "unat p"] by (simp_all add: loopback_def str_def is_whitespace_def)
  ultimately show ?thesis
    using assms
    by (simp add: launch_args_last split_whitespace_word whitespace_space word_like_def split_whitespace_last)
qed

lemma launched_options:
  assumes "word_like cmd" "pa (loopback p) = Some a" "pa (str ''127.0.0.1:0'') = Some d"
  shows "server_main pa (split_whitespace (last (launch_args target sp cmd p))) =
    Some (Run \<lparr>bind_addr = a, fps = 50, max_kbps = 6, stats = False, shell = None\<rparr>)"
  using assms by (simp add: launched_words server_main_def str_def)

text \<open>
  C38. The server that a client starts over SSH is only reachable on the remote host itself: the words of
  the command it runs there make the server listen on the loopback address, at the port asked for,
  with every other option at its default.
\<close>
theorem launched_server_binds_loopback:
  assumes "word_like cmd" "pa (loopback p) = Some a" "pa (str ''127.0.0.1:0'') = Some d"
  shows "server_main pa (split_whitespace (last (launch_args target sp cmd p))) =
    Some (Run \<lparr>bind_addr = a, fps = 50, max_kbps = 6, stats = False, shell = None\<rparr>)"
  by (rule launched_options [OF assms])

theorem launched_server_binds_loopback_witness:
  "server_main Some (split_whitespace (last (launch_args (str ''host'') None (str ''mosh-tcp-server'') 9))) =
    Some (Run \<lparr>bind_addr = loopback 9, fps = 50, max_kbps = 6, stats = False, shell = None\<rparr>)"
  by (rule launched_server_binds_loopback) (simp_all add: word_like_def str_def is_whitespace_def)

section \<open>Logging in\<close>

text \<open>
  A login over SSH works end to end. A server on the remote host, whatever its options,
  prints its line among other output of the remote host; then the client forwards its local port
  to the very port that server listens on, holds the server's key, and the handshake made of the
  key survives the wire, is accepted by the server's session and sets its size.
\<close>
lemma ssh_login:
  assumes server: "run_server V os now bind f kbps est sh = (lines, Served key (Session v))"
    and bound: "bind_listener (os_bind os) bind = Inr l" "os_local_addr os l = Inr addr" "port addr \<noteq> 0"
    and time: "(case since_epoch os of Some n \<Rightarrow> n | None \<Rightarrow> 0) < 2 ^ 64"
    and launcher: "start_launcher env ssh (launch_args target sp cmd rp) = Inr (ls @ map Inr lines @ ls', ended)"
      "\<forall>t. Inr t \<in> set ls \<longrightarrow> take 17 t \<noteq> str ''MOSH-TCP CONNECT ''"
    and local: "bind_local env = Inr ()" "local_addr_port env = Inr lp"
    and tunnel: "start_forwarder env ssh (tunnel_args target sp lp (port addr)) = Inr polls"
      "snd (await_tunnel polls) = Some (Inr stream)"
  shows "(\<exists>t. snd (spawn env ssh target sp cmd rp) = Spawned t stream key \<and> local_port t = lp \<and> tunnel_port t = port addr) \<and>
    decode (encode (ClientHandshake key rows cols) [] @ rest) = (Inr (Some (ClientHandshake key rows cols)), rest) \<and>
    (\<exists>s'. session_step V gz ps kbps key (serving v) (Received now_ms (Inr (ClientHandshake key rows cols))) = Some s' \<and>
       \<not> session_over s' \<and> last (pty_sizes s') = (max rows 1, max cols 1))"
proof -
  have key: "key = generate_session_key (since_epoch os) (process_id os)"
    and lines: "lines = [connect_line (port addr) key (process_id os)]"
    and s: "handle_client V os now (1000 div f) kbps est sh = Session v"
    using server bound by (auto simp: run_server_def Let_def split: sum.splits if_splits)
  have "login_of (ls @ map Inr lines @ ls') ended rp = Login (port addr) key"
    using scan_connect_line [OF _ _ launcher(2), of key "port addr" "process_id os" ls' ended rp] session_key_word bound(3)
    by (simp add: login_of_def lines key)
  then have sp: "\<exists>t. snd (spawn env ssh target sp cmd rp) = Spawned t stream key \<and> local_port t = lp \<and> tunnel_port t = port addr"
    using launcher(1) local tunnel by (simp add: spawn_def open_tunnel_def split_def Let_def)
  have "length (as_bytes key) = 32"
    using session_key_ascii session_key_length [OF time] by (simp add: key ascii_as_bytes)
  then have "frame_ok (ClientHandshake key rows cols)"
    using session_key_ascii by (simp add: frame_ok_def wire_simps key ascii_valid)
  then have dec: "decode (encode (ClientHandshake key rows cols) [] @ rest) = (Inr (Some (ClientHandshake key rows cols)), rest)"
    by (rule decode_encode)
  have "\<exists>ok pty. serving v = spawn_send_task ok (session_start V kbps now pty)"
    using s by (force simp: handle_client_def serve_def split: sum.splits)
  then obtain ok pty where v: "serving v = spawn_send_task ok (session_start V kbps now pty)" by blast
  have "\<exists>s'. session_step V gz ps kbps key (serving v) (Received now_ms (Inr (ClientHandshake key rows cols))) = Some s' \<and>
       \<not> session_over s' \<and> last (pty_sizes s') = (max rows 1, max cols 1)"
    by (cases ok) (simp_all add: v session_step_def session_over_def session_start_def spawn_send_task_def
        handle_packet_def resize_session_def Let_def)
  with sp dec show ?thesis by blast
qed

text \<open>The line printed by the server of the example in \<open>Login\<close>.\<close>

definition example_line :: rstring where
  "example_line = connect_line 5000 (generate_session_key (Some 1700000000) 77) 77"

text \<open>
  A remote host that ends without printing a login line is not an error: the client goes on with
  the port asked for, or 4000, and without a key.
\<close>
lemma missing_login_line_ignored:
  assumes "\<forall>t. Inr t \<in> set ls \<longrightarrow> take 17 t \<noteq> str ''MOSH-TCP CONNECT ''"
  shows "login_of ls True rp = Login (if rp = 0 then 4000 else rp) []"
proof -
  have "scan_lines ls True rp = Login rp []"
    using assms
  proof (induction ls)
    case (Cons l ls)
    then show ?case by (cases l) (simp_all add: Let_def)
  qed simp
  then show ?thesis by (simp add: login_of_def)
qed

text \<open>
  The client panics on a login line without a key: it checks for three words and then takes the
  fourth.
\<close>
theorem short_login_line_panics:
  "scan_lines (Inr (str ''MOSH-TCP CONNECT '' @ fmt_dec n) # ls) ended rp = IndexPanic"
proof -
  have "split_whitespace (str ''MOSH-TCP CONNECT '' @ fmt_dec n) = [str ''MOSH-TCP'', str ''CONNECT'', fmt_dec n]"
    by (simp add: str_words(1) split_whitespace_word str_words whitespace_space fmt_dec_word split_whitespace_last)
  moreover have "take 17 (str ''MOSH-TCP CONNECT '' @ fmt_dec n) = str ''MOSH-TCP CONNECT ''"
    by (simp add: str_def)
  ultimately show ?thesis by (simp add: Let_def)
qed








end
