(* ===== verification/Programs.thy ===== *)
theory Programs
  imports Client_Session Tunnel
begin

text \<open>
  The two programs from their command lines to the running session: \<^verbatim>\<open>main\<close> of \<^verbatim>\<open>bin/mosh_tcp_server.rs\<close> and
  of \<^verbatim>\<open>bin/mosh_tcp_client.rs\<close>. The theorem: a client started with a host name alone starts a server
  there, connects to the port that server really got, and its handshake is accepted.
\<close>

section \<open>The server program\<close>

datatype 'vt server_exit =
    ServerUsage
  | ServerPanic
  | ServerRan "rstring list" "'vt server_outcome"

definition server_program ::
  "'vt vt100 \<Rightarrow> ('ip, 'l, 'p) os \<Rightarrow> int \<Rightarrow> (rstring \<Rightarrow> 'ip socket_addr option) \<Rightarrow> rstring list \<Rightarrow> 'vt server_exit" where
  "server_program V os now pa args =
     (case server_main pa args of
        None \<Rightarrow> ServerPanic
      | Some Usage \<Rightarrow> ServerUsage
      | Some (Run a) \<Rightarrow>
          (let (lines, r) = run_server V os now (bind_addr a) (fps a) (max_kbps a) (stats a) (shell a) in
           ServerRan lines r))"

section \<open>The client program\<close>

text \<open>
  How far the client gets: with a session it holds its tunnel, if any, which is dropped when the
  program ends. A connection gives both directions of the socket.
\<close>

datatype 'vt client_exit =
    ClientUsage
  | ClientErr io_error
  | ClientPanic
  | ClientBlocked
  | ClientRuns "ssh_tunnel option" "'vt client"

definition client_program ::
  "'vt client_env \<Rightarrow> (writer \<times> reader) ssh_env \<Rightarrow> ('a \<Rightarrow> (writer \<times> reader) io_result) \<Rightarrow> (rstring \<Rightarrow> 'a option)
     \<Rightarrow> (u16 \<times> u16) option \<Rightarrow> (u16 \<times> u16) option \<Rightarrow> writer \<Rightarrow> rstring list \<Rightarrow> child_call list \<times> 'vt client_exit" where
  "client_program E env conn pa sz sz2 out args =
     (case client_main pa args of
        PrintUsage \<Rightarrow> ([], ClientUsage)
      | BadDefault \<Rightarrow> ([], ClientPanic)
      | ConnectTo addr pr \<Rightarrow>
          ([], case run_client E conn addr pr sz sz2 out of Inl e \<Rightarrow> ClientErr e | Inr c \<Rightarrow> ClientRuns None c)
      | SshTo ssh target sp cmd rp pr \<Rightarrow>
          (let (calls, r) = spawn env ssh target sp cmd rp in
           (calls,
            case r of
              SpawnErr e \<Rightarrow> ClientErr e
            | SpawnPanic \<Rightarrow> ClientPanic
            | Blocked \<Rightarrow> ClientBlocked
            | Spawned t stream key \<Rightarrow>
                ClientRuns (Some t) (client_start E pr key sz sz2 out (fst stream) (snd stream)))))"

lemma client_main_host:
  assumes "target \<noteq> []" "hd target \<noteq> 45"
  shows "client_main pa [prog, target] = SshTo (str ''ssh'') target None (str ''mosh-tcp-server'') 0 False"
proof -
  have "target \<noteq> 45 # t" for t using assms(2) by auto
  then show ?thesis
    using assms by (simp add: client_main_def client_defaults_def str_def)
qed

section \<open>Logging in with a host name\<close>

text \<open>
  C14. \<^verbatim>\<open>mosh-tcp-client host\<close> works: if the command that the client sends to the host runs a server there that
  gets to a session, and the line this server prints is the first such line of the client's SSH
  process, and the forwarder comes up, then the client runs without prediction through a tunnel to
  the port of that server; the first packet on its socket is the handshake, and the server's session accepts it
  and takes over the size of the client's terminal.
\<close>
theorem ssh_client_meets_its_server:
  assumes target: "target \<noteq> []" "hd target \<noteq> 45"
    and remote: "server_program V os now pa (split_whitespace (last (launch_args target None (str ''mosh-tcp-server'') 0))) =
      ServerRan lines (Served key (Session v))"
    and bound: "pa (str ''127.0.0.1:0'') = Some a" "bind_listener (os_bind os) a = Inr l" "os_local_addr os l = Inr addr"
      "port addr \<noteq> 0"
    and time: "(case since_epoch os of Some n \<Rightarrow> n | None \<Rightarrow> 0) < 2 ^ 64"
    and launcher: "start_launcher env (str ''ssh'') (launch_args target None (str ''mosh-tcp-server'') 0) =
        Inr (ls @ map Inr lines @ ls', ended)"
      "\<forall>t. Inr t \<in> set ls \<longrightarrow> take 17 t \<noteq> str ''MOSH-TCP CONNECT ''"
    and local: "bind_local env = Inr ()" "local_addr_port env = Inr lp"
    and tunnel: "start_forwarder env (str ''ssh'') (tunnel_args target None lp (port addr)) = Inr polls"
      "snd (await_tunnel polls) = Some (Inr (sink [], rd))"
  shows "\<exists>t c rows cols s'.
    snd (client_program E env conn pa' sz sz2 out [prog, target]) = ClientRuns (Some t) c \<and> tunnel_port t = port addr \<and>
    size_or_default sz = (cols, rows) \<and>
    decode (wr_out (socket_out c)) = (Inr (Some (ClientHandshake key rows cols)), []) \<and>
    session_step V gz ps 6 key (serving v) (Received now_ms (Inr (ClientHandshake key rows cols))) = Some s' \<and>
    \<not> session_over s' \<and> last (pty_sizes s') = (max rows 1, max cols 1)"
proof -
  let ?cmd = "str ''mosh-tcp-server''"
  have w: "word_like ?cmd" by (simp add: word_like_def str_def is_whitespace_def)
  have b: "loopback 0 = str ''127.0.0.1:0''"
    by (simp add: loopback_def fmt_dec_def digits.simps digit_char_def str_def)
  have server: "run_server V os now a 50 6 False None = (lines, Served key (Session v))"
    using remote launched_options [OF w, of pa 0 a a target None] bound(1)
    by (auto simp: server_program_def b split: prod.splits)
  obtain cols rows where sz: "size_or_default sz = (cols, rows)" by (cases "size_or_default sz")
  note login = ssh_login [OF server bound(2-4) time launcher local tunnel, of rows cols "[]" gz ps now_ms]
  from login obtain t where t: "snd (spawn env (str ''ssh'') target None ?cmd 0) = Spawned t (sink [], rd) key"
      "tunnel_port t = port addr" by blast
  from login obtain s' where s': "session_step V gz ps 6 key (serving v) (Received now_ms (Inr (ClientHandshake key rows cols))) = Some s'"
      "\<not> session_over s'" "last (pty_sizes s') = (max rows 1, max cols 1)" by blast
  let ?c = "client_start E False key sz sz2 out (sink []) rd"
  have "snd (client_program E env conn pa' sz sz2 out [prog, target]) = ClientRuns (Some t) ?c"
    using t(1) by (simp add: client_program_def client_main_host [OF target] split_def)
  moreover have "decode (wr_out (socket_out ?c)) = (Inr (Some (ClientHandshake key rows cols)), [])"
    using login by (simp add: client_start_def sz write_packet_sink)
  ultimately show ?thesis using t(2) sz s' by blast
qed

definition example_socket_env :: "(writer \<times> reader) ssh_env" where
  "example_socket_env =
     \<lparr>start_launcher = \<lambda>ssh args. Inr ([Inl (IoError InvalidData []), Inr (str ''Welcome''), Inr example_line], False),
      bind_local = Inr (), local_addr_port = Inr 6000,
      start_forwarder = \<lambda>ssh args. Inr [Poll (Inr None) (Inl (IoError ConnectionRefused [])) 0, Poll (Inr None) (Inr (sink [], [])) 100]\<rparr>"

lemma example_server_program:
  "server_program line_vt100 example_os 0 (\<lambda>s. Some \<lparr>ip = (), port = 4000\<rparr>)
      (split_whitespace (last (launch_args (str ''host'') None (str ''mosh-tcp-server'') 0))) =
    ServerRan [example_line] (Served (generate_session_key (Some 1700000000) 77)
      (Session (serve (session_start line_vt100 6 0 (sink [])) None)))"
proof -
  have "word_like (str ''mosh-tcp-server'')" by (simp add: word_like_def str_def is_whitespace_def)
  then show ?thesis
    using launched_options [of "str ''mosh-tcp-server''" "\<lambda>s. Some \<lparr>ip = (), port = 4000\<rparr>" 0]
    by (simp add: server_program_def example_server example_line_def)
qed

theorem ssh_client_meets_its_server_witness:
  "\<exists>t c. snd (client_program example_env example_socket_env (\<lambda>a. Inl (IoError OtherKind [])) (\<lambda>s. None :: unit option)
      None None (sink []) [str ''mosh-tcp-client'', str ''host'']) = ClientRuns (Some t) c \<and> tunnel_port t = 5000 \<and>
    decode (wr_out (socket_out c)) = (Inr (Some (ClientHandshake (generate_session_key (Some 1700000000) 77) 24 80)), [])"
proof -
  let ?ls = "[Inl (IoError InvalidData []), Inr (str ''Welcome'')]"
  let ?polls = "[Poll (Inr None) (Inl (IoError ConnectionRefused [])) 0, Poll (Inr None) (Inr (sink [], [])) 100]"
  let ?addr = "\<lparr>ip = (), port = 5000 :: u16\<rparr>"
  have h: "str ''host'' \<noteq> []" "hd (str ''host'') \<noteq> 45" by (simp_all add: str_def)
  have b: "(\<lambda>s. Some \<lparr>ip = (), port = 4000\<rparr>) (str ''127.0.0.1:0'') = Some \<lparr>ip = (), port = 4000 :: u16\<rparr>"
    "bind_listener (os_bind example_os) \<lparr>ip = (), port = 4000\<rparr> = Inr 5000"
    "os_local_addr example_os 5000 = Inr ?addr" "port ?addr \<noteq> 0"
    "(case since_epoch example_os of Some n \<Rightarrow> n | None \<Rightarrow> 0) < 2 ^ 64"
    by (simp_all add: example_os_def bind_listener_def)
  have l: "start_launcher example_socket_env (str ''ssh'') (launch_args (str ''host'') None (str ''mosh-tcp-server'') 0) =
      Inr (?ls @ map Inr [example_line] @ [], False)"
    "\<forall>t. Inr t \<in> set ?ls \<longrightarrow> take 17 t \<noteq> str ''MOSH-TCP CONNECT ''"
    "bind_local example_socket_env = Inr ()" "local_addr_port example_socket_env = Inr 6000"
    "start_forwarder example_socket_env (str ''ssh'') (tunnel_args (str ''host'') None 6000 (port ?addr)) = Inr ?polls"
    "snd (await_tunnel ?polls) = Some (Inr (sink [], []))"
    by (simp_all add: example_socket_env_def str_def tunnel_timeout_def)
  have d: "size_or_default None = (80, 24)" by (simp add: size_or_default_def)
  from ssh_client_meets_its_server [OF h example_server_program b l,
      of example_env "\<lambda>a. Inl (IoError OtherKind [])" "\<lambda>s. None :: unit option" None None "sink []" "str ''mosh-tcp-client''" run_gz Unwind 0]
  show ?thesis by (auto simp: d)
qed

end
