(* ===== verification/Keys.thy ===== *)
theory Keys
  imports AnsiStrip
begin

text \<open>
  The client's helpers of \<^verbatim>\<open>src/client.rs\<close> for terminal events: the encoding of mouse and key events as
  bytes, and \<^verbatim>\<open>ResponseFilter\<close>, which removes answers of the terminal to queries from the input.
  The event types are those of \<^verbatim>\<open>crossterm\<close>, with all its six modifiers, of which the sources test three.
  Arithmetic on coordinates wraps at 16 bits. The theorems: what of a mouse event its encoding tells,
  characters round-trip through UTF-8, the filter only deletes, and the defects found.
\<close>

section \<open>Mouse events\<close>

datatype mouse_button = LeftButton | MiddleButton | RightButton

datatype mouse_event_kind =
    Down mouse_button
  | Up mouse_button
  | Drag mouse_button
  | Moved
  | ScrollUp
  | ScrollDown
  | ScrollLeft
  | ScrollRight

record key_modifiers =
  shift :: bool
  control :: bool
  alt :: bool
  super :: bool
  hyper :: bool
  meta :: bool

record mouse_event =
  kind :: mouse_event_kind
  column :: u16
  line :: u16
  modifiers :: key_modifiers

fun base_button :: "mouse_event_kind \<Rightarrow> nat \<times> bool" where
  "base_button (Down LeftButton) = (0, False)"
| "base_button (Down MiddleButton) = (1, False)"
| "base_button (Down RightButton) = (2, False)"
| "base_button (Up LeftButton) = (0, True)"
| "base_button (Up MiddleButton) = (1, True)"
| "base_button (Up RightButton) = (2, True)"
| "base_button (Drag LeftButton) = (32, False)"
| "base_button (Drag MiddleButton) = (33, False)"
| "base_button (Drag RightButton) = (34, False)"
| "base_button Moved = (35, False)"
| "base_button ScrollUp = (64, False)"
| "base_button ScrollDown = (65, False)"
| "base_button ScrollLeft = (66, False)"
| "base_button ScrollRight = (67, False)"

text \<open>No modifier pressed, for closed examples.\<close>

definition no_modifiers :: key_modifiers where
  "no_modifiers =
     \<lparr>shift = False, control = False, alt = False, super = False, hyper = False, meta = False\<rparr>"

definition modifier_bits :: "key_modifiers \<Rightarrow> nat" where
  "modifier_bits m = (if shift m then 4 else 0) + (if alt m then 8 else 0) + (if control m then 16 else 0)"

definition mouse_event_to_bytes :: "mouse_event \<Rightarrow> bytes" where
  "mouse_event_to_bytes mouse =
     (let col = column mouse + 1; row = line mouse + 1;
          (button, is_release) = base_button (kind mouse);
          button_code = button + modifier_bits (modifiers mouse);
          final_char = (if is_release then str ''m'' else str ''M'') in
      as_bytes (27 # str ''[<'' @ fmt_dec button_code @ str '';'' @ fmt_dec (unat col) @ str '';''
        @ fmt_dec (unat row) @ final_char))"

section \<open>Key events\<close>

datatype key_code =
    Char rchar
  | Enter | Backspace | Tab | Esc
  | UpKey | DownKey | RightKey | LeftKey | Home | EndKey
  | PageUp | PageDown | Insert | Delete
  | F nat
  | OtherKey

definition to_ascii_lowercase :: "u8 \<Rightarrow> u8" where
  "to_ascii_lowercase b = (if 65 \<le> b \<and> b \<le> 90 then b + 32 else b)"

definition key_event_to_bytes :: "key_code \<Rightarrow> key_modifiers \<Rightarrow> bytes" where
  "key_event_to_bytes code mods =
     (case code of
        Char c \<Rightarrow>
          if control mods then
            (let ascii = to_ascii_lowercase (byte_of c) in
             if 97 \<le> ascii \<and> ascii \<le> 122 then [ascii - 97 + 1] else [])
          else if alt mods then 27 # encode_utf8 c
          else encode_utf8 c
      | Enter \<Rightarrow> [13]
      | Backspace \<Rightarrow> [127]
      | Tab \<Rightarrow> [9]
      | Esc \<Rightarrow> [27]
      | UpKey \<Rightarrow> [27, 91, 65]
      | DownKey \<Rightarrow> [27, 91, 66]
      | RightKey \<Rightarrow> [27, 91, 67]
      | LeftKey \<Rightarrow> [27, 91, 68]
      | Home \<Rightarrow> [27, 91, 72]
      | EndKey \<Rightarrow> [27, 91, 70]
      | PageUp \<Rightarrow> [27, 91, 53, 126]
      | PageDown \<Rightarrow> [27, 91, 54, 126]
      | Insert \<Rightarrow> [27, 91, 50, 126]
      | Delete \<Rightarrow> [27, 91, 51, 126]
      | F n \<Rightarrow>
          if n = 1 then [27, 79, 80] else if n = 2 then [27, 79, 81]
          else if n = 3 then [27, 79, 82] else if n = 4 then [27, 79, 83]
          else if n = 5 then [27, 91, 49, 53, 126] else if n = 6 then [27, 91, 49, 57, 126]
          else if n = 7 then [27, 91, 49, 58, 126] else if n = 8 then [27, 91, 49, 59, 126]
          else if n = 9 then [27, 91, 50, 48, 126] else if n = 10 then [27, 91, 50, 49, 126]
          else if n = 11 then [27, 91, 50, 51, 126] else if n = 12 then [27, 91, 50, 52, 126]
          else []
      | OtherKey \<Rightarrow> [])"

section \<open>Filtering terminal responses\<close>

fun position :: "('a \<Rightarrow> bool) \<Rightarrow> 'a list \<Rightarrow> nat option" where
  "position P [] = None"
| "position P (x # xs) = (if P x then Some 0 else map_option Suc (position P xs))"

definition is_ascii_digit :: "u8 \<Rightarrow> bool" where
  "is_ascii_digit b \<longleftrightarrow> 48 \<le> b \<and> b \<le> 57"

text \<open>
  What to do at the head of a slice: skip a response of that many bytes, wait for the end of one, or
  let a byte through.
\<close>

datatype verdict = Skip nat | Wait | Pass

definition da_len :: "bytes \<Rightarrow> nat option" where
  "da_len sl =
     (if starts_with sl (bytes_of ''0;'') \<or> starts_with sl (esc # bytes_of ''[?'') then
        (case position (\<lambda>b. b = 99) sl of
           Some c_pos \<Rightarrow>
             if list_all (\<lambda>b. is_ascii_digit b \<or> b = 59 \<or> b = 99 \<or> b = 27 \<or> b = 91 \<or> b = 63) (take (c_pos + 1) sl)
             then Some (c_pos + 1) else None
         | None \<Rightarrow> None)
      else None)"

definition cpr_len :: "bytes \<Rightarrow> nat option" where
  "cpr_len sl =
     (if starts_with sl (esc # bytes_of ''['') then
        (case position (\<lambda>b. b = 82) sl of
           Some r_pos \<Rightarrow>
             if list_all (\<lambda>b. is_ascii_digit b \<or> b = 59 \<or> b = 82 \<or> b = 27 \<or> b = 91) (take (r_pos + 1) sl)
             then Some (r_pos + 1) else None
         | None \<Rightarrow> None)
      else None)"

definition response_at :: "bytes \<Rightarrow> verdict" where
  "response_at sl =
     (if starts_with sl (bytes_of '']10;rgb:'') \<or> starts_with sl (bytes_of '']11;rgb:'') then
        (case position (\<lambda>b. b = 92 \<or> b = 27 \<or> b = 13 \<or> b = 10) sl of
           Some fin \<Rightarrow> Skip (fin + 1)
         | None \<Rightarrow> Wait)
      else
        (case da_len sl of
           Some n \<Rightarrow> Skip n
         | None \<Rightarrow> (case cpr_len sl of Some n \<Rightarrow> Skip n | None \<Rightarrow> Pass)))"

lemma response_at_pos: "response_at sl = Skip n \<Longrightarrow> 0 < n"
  by (auto simp: response_at_def da_len_def cpr_len_def split: if_splits option.splits)

function filter_loop :: "bytes \<Rightarrow> bytes \<times> bytes" where
  "filter_loop [] = ([], [])"
| "filter_loop (b # rest) =
     (case response_at (b # rest) of
        Skip n \<Rightarrow> filter_loop (drop n (b # rest))
      | Wait \<Rightarrow> ([], b # rest)
      | Pass \<Rightarrow> (let (clean, held) = filter_loop rest in (b # clean, held)))"
  by pat_completeness auto
termination
  by (relation "measure length") (auto dest: response_at_pos)

text \<open>The method: the buffered bytes and the new ones; the clean bytes and the new buffer.\<close>

definition response_filter :: "bytes \<Rightarrow> bytes \<Rightarrow> bytes \<times> bytes" where
  "response_filter buffer data = filter_loop (buffer @ data)"

declare filter_loop.simps(2) [simp del]

lemma filter_loop_subseq: "filter_loop bs = (clean, held) \<Longrightarrow> subseq (clean @ held) bs"
proof (induction bs arbitrary: clean held rule: filter_loop.induct)
  case (2 b rest)
  show ?case
  proof (cases "response_at (b # rest)")
    case (Skip n)
    with 2 have "subseq (clean @ held) (drop n (b # rest))"
      by (simp add: filter_loop.simps(2))
    then show ?thesis
      by (rule subseq_order.trans) (rule suffix_imp_subseq [OF suffix_drop])
  next
    case Wait
    with 2 show ?thesis by (simp add: filter_loop.simps(2))
  next
    case Pass
    obtain c h where f: "filter_loop rest = (c, h)" by (cases "filter_loop rest")
    with Pass 2 show ?thesis by (auto simp: filter_loop.simps(2))
  qed
qed simp

interpretation responses: byte_filter response_filter "\<lambda>buffer. buffer"
  by unfold_locales (simp add: response_filter_def filter_loop_subseq)

section \<open>Properties\<close>

text \<open>
  Over any sequence of chunks the response filter only deletes: what it let through followed by
  what it holds back is a subsequence of the input, so nothing is invented, duplicated or reordered.
\<close>
theorem response_filter_only_deletes:
  assumes "run_filter response_filter [] chunks = (out, buffer)"
  shows "subseq (out @ buffer) (concat chunks)"
  using responses.run_only_deletes [OF assms] by simp

theorem response_filter_only_deletes_witness:
  "subseq (fst (run_filter response_filter [] [[104, 105], esc # bytes_of ''[24;80R'']) @
      snd (run_filter response_filter [] [[104, 105], esc # bytes_of ''[24;80R'']))
    ([104, 105] @ esc # bytes_of ''[24;80R'')"
  using response_filter_only_deletes [of "[[104, 105], esc # bytes_of ''[24;80R'']"] by (metis concat.simps append_Nil2 prod.collapse)

lemma starts_with_Cons: "starts_with (b # bs) (x # xs) \<longleftrightarrow> b = x \<and> starts_with bs xs"
  by (auto simp: starts_with_def)

lemma filter_loop_plain:
  "list_all (\<lambda>b. b \<noteq> 93 \<and> b \<noteq> 48 \<and> b \<noteq> esc) bs \<Longrightarrow> filter_loop bs = (bs, [])"
proof (induction bs)
  case (Cons b bs)
  then have "response_at (b # bs) = Pass"
    by (simp add: response_at_def da_len_def cpr_len_def bytes_of_def starts_with_Cons)
  with Cons show ?case by (simp add: filter_loop.simps(2))
qed simp

text \<open>
  Input without a closing bracket, the digit 0 or ESC, such as any text in a non-Latin
  script, passes the response filter unchanged and at once.
\<close>
theorem response_filter_passes_plain_input:
  assumes "list_all (\<lambda>b. b \<noteq> 93 \<and> b \<noteq> 48 \<and> b \<noteq> esc) data"
  shows "response_filter [] data = (data, [])"
  using filter_loop_plain [OF assms] by (simp add: response_filter_def)

theorem response_filter_passes_plain_input_witness:
  "response_filter [] [0xC3, 0xB8] = ([0xC3, 0xB8], [])"
  by (rule response_filter_passes_plain_input) simp

text \<open>
  The response filter eats typed text and leaks part of a response: the five characters \<^verbatim>\<open>0;12c\<close> typed
  by the user disappear, and of a colour response that ends in ESC backslash the backslash is let
  through as input.
\<close>
theorem response_filter_defects:
  "response_filter [] (bytes_of ''0;12c'') = ([], []) \<and>
   response_filter [] (bytes_of '']11;rgb:0/0/0'' @ [esc, 92]) = ([92], [])"
  by (simp add: response_filter_def filter_loop.simps(2) response_at_def da_len_def cpr_len_def bytes_of_def
      starts_with_def is_ascii_digit_def word_le_nat_alt)

text \<open>
  A character key sends the UTF-8 encoding of its character, preceded by ESC with Alt: decoding
  gives the character back, for every Unicode scalar value.
\<close>
theorem character_keys_roundtrip:
  assumes "is_scalar c" "\<not> control m"
  shows "from_utf8_lossy (key_event_to_bytes (Char c) m) = (if alt m then [27, c] else [c])"
proof -
  have c: "from_utf8_lossy (as_bytes [c]) = [c]"
    by (rule from_utf8_lossy_as_bytes) (simp add: valid_string_def assms)
  have "from_utf8_lossy (as_bytes [27, c]) = [27, c]"
  proof (rule from_utf8_lossy_as_bytes)
    have "is_scalar 27" by (simp add: is_scalar_def)
    with assms show "valid_string [27, c]" by (simp add: valid_string_def)
  qed
  moreover have "as_bytes [27, c] = 27 # encode_utf8 c" "as_bytes [c] = encode_utf8 c"
    by (simp_all add: as_bytes_def encode_utf8_def [of 27])
  ultimately show ?thesis
    using c assms(2) by (simp add: key_event_to_bytes_def)
qed

theorem character_keys_roundtrip_witness:
  "from_utf8_lossy (key_event_to_bytes (Char 0x1F600) (no_modifiers\<lparr>alt := True\<rparr>)) = [27, 0x1F600]"
  using character_keys_roundtrip [of "0x1F600" "(no_modifiers\<lparr>alt := True\<rparr>)"]
  by (simp add: is_scalar_def no_modifiers_def)

text \<open>
  Function keys 6, 7 and 8 are misencoded: F6 sends the sequence that terminals use for F8
  (\<^verbatim>\<open>19~\<close>) and F7 and F8 send parameters that are not numbers; and Ctrl with a character outside ASCII
  is truncated to one byte, so that Ctrl with U+0161 sends Ctrl-A.
\<close>
theorem key_encoding_defects:
  "key_event_to_bytes (F 6) m = esc # bytes_of ''[19~'' \<and> key_event_to_bytes (F 7) m = esc # bytes_of ''[1:~'' \<and>
   key_event_to_bytes (F 8) m = esc # bytes_of ''[1;~'' \<and>
   key_event_to_bytes (Char 0x161) (no_modifiers\<lparr>control := True\<rparr>) = [1]"
proof -
  have "byte_of 0x161 = (0x61 :: u8)" by (simp add: byte_of_def)
  then show ?thesis
    by (simp add: key_event_to_bytes_def bytes_of_def to_ascii_lowercase_def Let_def word_le_nat_alt)
qed

section \<open>Mouse events are encoded without loss\<close>

lemma separated_inject:
  "c \<notin> set xs \<Longrightarrow> c \<notin> set xs' \<Longrightarrow> xs @ c # ys = xs' @ c # ys' \<Longrightarrow> xs = xs' \<and> ys = ys'"
proof (induction xs arbitrary: xs')
  case Nil
  then show ?case by (cases xs') auto
next
  case (Cons x xs)
  then show ?case by (cases xs') auto
qed

lemma as_bytes_inject: "valid_string s \<Longrightarrow> valid_string t \<Longrightarrow> as_bytes s = as_bytes t \<Longrightarrow> s = t"
  by (metis from_utf8_lossy_as_bytes)

lemma fmt_dec_inject: "fmt_dec n = fmt_dec m \<longleftrightarrow> n = m"
  by (metis dec_value_fmt_dec)

lemma fmt_dec_not_sep: "59 \<notin> set (fmt_dec n)"
  using fmt_dec_digits [of n] by (auto simp: list_all_iff is_dec_digit_def)

lemma fmt_dec_valid: "valid_string (fmt_dec n)"
  using fmt_dec_digits [of n] by (auto simp: valid_string_def list_all_iff is_dec_digit_def is_scalar_def)

lemma button_code_parts:
  "fst (base_button k) = 32 * (fst (base_button k) div 32) + fst (base_button k) mod 4"
  by (cases k rule: base_button.cases) simp_all

lemma modifier_bits_parts: "\<exists>x < 8. modifier_bits m = 4 * x"
  by (cases "shift m"; cases "alt m"; cases "control m") (simp_all add: modifier_bits_def)

lemma button_code_inject:
  assumes "fst (base_button k) + modifier_bits m = fst (base_button k') + modifier_bits m'"
  shows "fst (base_button k) = fst (base_button k') \<and> modifier_bits m = modifier_bits m'"
proof -
  obtain x x' where x: "x < 8" "modifier_bits m = 4 * x" "x' < 8" "modifier_bits m' = 4 * x'"
    using modifier_bits_parts [of m] modifier_bits_parts [of m'] by blast
  let ?q = "fst (base_button k) div 32" and ?r = "fst (base_button k) mod 4"
  let ?q' = "fst (base_button k') div 32" and ?r' = "fst (base_button k') mod 4"
  have eq: "32 * ?q + ?r + 4 * x = 32 * ?q' + ?r' + 4 * x'"
    using assms button_code_parts [of k] button_code_parts [of k'] x by linarith
  have d: "(32 * q + r + 4 * y) div 4 mod 8 = y" if "r < 4" "y < 8" for q r y :: nat
  proof -
    have "32 * q + r + 4 * y = r + 4 * (8 * q + y)" by simp
    also have "(r + 4 * (8 * q + y)) div 4 = 8 * q + y"
      using that(1) by simp
    finally show ?thesis using that(2) by simp
  qed
  have r: "?r < 4" "?r' < 4" by simp_all
  have "x = x'"
    using d [OF r(1) x(1), of ?q] d [OF r(2) x(3), of ?q'] unfolding eq by (rule trans [OF sym])
  with assms x show ?thesis by simp
qed

lemma modifier_bits_inject:
  "modifier_bits m = modifier_bits m' \<longleftrightarrow> shift m = shift m' \<and> alt m = alt m' \<and> control m = control m'"
  by (auto simp: modifier_bits_def split: if_splits)

lemma base_button_inject: "base_button k = base_button k' \<Longrightarrow> k = k'"
  by (cases k rule: base_button.cases; cases k' rule: base_button.cases) simp_all

text \<open>
  C39. What of a mouse event its encoding tells: two events have the same bytes if and only if they have the same
  kind, the same position and the same of the modifiers Shift, Alt and Control; the other modifiers
  are not encoded.
\<close>
theorem mouse_encoding_determines_event:
  "mouse_event_to_bytes e = mouse_event_to_bytes e' \<longleftrightarrow>
     kind e = kind e' \<and> column e = column e' \<and> line e = line e' \<and> shift (modifiers e) = shift (modifiers e') \<and>
     alt (modifiers e) = alt (modifiers e') \<and> control (modifiers e) = control (modifiers e')"
proof
  assume "kind e = kind e' \<and> column e = column e' \<and> line e = line e' \<and> shift (modifiers e) = shift (modifiers e') \<and>
     alt (modifiers e) = alt (modifiers e') \<and> control (modifiers e) = control (modifiers e')"
  then show "mouse_event_to_bytes e = mouse_event_to_bytes e'"
    by (simp add: mouse_event_to_bytes_def modifier_bits_def)
next
  assume eq: "mouse_event_to_bytes e = mouse_event_to_bytes e'"
  define body where "body = (\<lambda>e :: mouse_event. fmt_dec (fst (base_button (kind e)) + modifier_bits (modifiers e))
    @ 59 # fmt_dec (unat (column e + 1)) @ 59 # fmt_dec (unat (line e + 1))
    @ [if snd (base_button (kind e)) then 109 else 77])"
  have b: "mouse_event_to_bytes e = as_bytes (27 # 91 # 60 # body e)" for e
    by (simp add: mouse_event_to_bytes_def body_def str_def Let_def split: prod.splits)
  have v: "valid_string (27 # 91 # 60 # body e)" for e
    using fmt_dec_valid by (simp add: body_def valid_string_def is_scalar_def)
  have "body e = body e'"
    using as_bytes_inject [OF v v, of e e'] eq by (simp add: b)
  then have 1: "fmt_dec (fst (base_button (kind e)) + modifier_bits (modifiers e)) =
        fmt_dec (fst (base_button (kind e')) + modifier_bits (modifiers e'))"
    and r1: "fmt_dec (unat (column e + 1)) @ 59 # fmt_dec (unat (line e + 1)) @ [if snd (base_button (kind e)) then 109 else 77] =
        fmt_dec (unat (column e' + 1)) @ 59 # fmt_dec (unat (line e' + 1)) @ [if snd (base_button (kind e')) then 109 else 77]"
    unfolding body_def by (rule separated_inject [OF fmt_dec_not_sep fmt_dec_not_sep, THEN conjunct1],
        rule separated_inject [OF fmt_dec_not_sep fmt_dec_not_sep, THEN conjunct2])
  note 2 = separated_inject [OF fmt_dec_not_sep fmt_dec_not_sep r1]
  have "column e + 1 = column e' + 1" "line e + 1 = line e' + 1"
    using 2 by (auto simp: fmt_dec_inject word_unat_eq_iff)
  moreover have "snd (base_button (kind e)) = snd (base_button (kind e'))"
    using 2 by (auto split: if_splits)
  moreover have "fst (base_button (kind e)) = fst (base_button (kind e'))"
      "modifier_bits (modifiers e) = modifier_bits (modifiers e')"
    using button_code_inject [of "kind e" "modifiers e" "kind e'" "modifiers e'"] 1
    by (auto simp: fmt_dec_inject)
  ultimately show "kind e = kind e' \<and> column e = column e' \<and> line e = line e' \<and> shift (modifiers e) = shift (modifiers e') \<and>
     alt (modifiers e) = alt (modifiers e') \<and> control (modifiers e) = control (modifiers e')"
    using base_button_inject [of "kind e" "kind e'"] by (simp add: prod_eq_iff modifier_bits_inject)
qed

end
