(* ===== verification/Spec2Isabelle.thy ===== *)
theory Spec2Isabelle
  imports AnsiSplit AnsiStrip Bandwidth Screen Programs Keys
begin

text \<open>
  A verification of mosh-tcp, a terminal server and client that keep a shell usable over slow TCP
  connections. The repository is \<^verbatim>\<open>src/\<close>, its Rust code \<^verbatim>\<open>src/src/\<close>.

  \<^bold>\<open>The program.\<close> A server (\<^verbatim>\<open>server.rs\<close>, started by \<^verbatim>\<open>bin/mosh_tcp_server.rs\<close>) runs a shell in a PTY, emulates its
  screen and sends its output as numbered, possibly compressed frames, paced by a timer and limited by a
  token bucket; when too much output piles up it throws it away and redraws the emulated
  screen. A client (\<^verbatim>\<open>client.rs\<close>, started by \<^verbatim>\<open>bin/mosh_tcp_client.rs\<close>) starts the server over SSH or connects
  directly, sends what is typed and prints the frames, optionally echoing keys before the server does
  (\<^verbatim>\<open>predictive.rs\<close>). Both speak the packets of \<^verbatim>\<open>protocol.rs\<close>; output is cut where \<^verbatim>\<open>ansi.rs\<close> allows it.

  \<^bold>\<open>Theories, in the order of their imports.\<close>
  \<^item> \<open>Prelude\<close>: machine types, big-endian fields, and the interfaces shared by the components: \<open>fixed_width\<close>
    (integer fields), \<open>step_invariant\<close> and \<open>history_invariant\<close> (invariants of event-driven components, the
    latter relating a state to all events before it), \<open>byte_filter\<close> (filters that only delete).
  \<^item> \<open>Rust_Std\<close>, \<open>Rust_Io\<close>, \<open>F64\<close>: what the sources use of the language and its library: I/O errors, strings
    and UTF-8, number formatting and parsing, \<^verbatim>\<open>read_exact\<close> and \<^verbatim>\<open>write_all\<close>, and doubles with
    rounding to nearest even (interface \<open>rounding\<close>).
  \<^item> \<open>Protocol\<close>, \<open>Codec\<close>: \<^verbatim>\<open>Packet\<close> and \<^verbatim>\<open>PacketCodec\<close> of \<^verbatim>\<open>protocol.rs\<close>, with the interface \<open>framing\<close> that a
    transport relies on: round trips, refusal of truncated packets, reassembly under any chunking.
  \<^item> \<open>Terminal_Stream\<close>: what terminal programs write, as a grammar of characters and escape sequences that
    owes nothing to the code. \<open>Ansi\<close>, \<open>AnsiSplit\<close>, \<open>AnsiStrip\<close>: \<^verbatim>\<open>ansi.rs\<close>. The split-point search, which on the
    elements it knows returns exactly the best cut up to one character, and what it does to the elements
    it does not know; the query stripper, which removes exactly the queries of a stream and does not depend
    on chunking.
  \<^item> \<open>Vt100\<close>, \<open>Predictive\<close>: the emulator as a parameter, and every operation of \<^verbatim>\<open>LocalPredictor\<close>: its
    invariant under any calls, what bursts, frames and the alternate screen do, glyphs against predictions.
  \<^item> \<open>Server\<close>: one session of \<^verbatim>\<open>handle_client\<close>: state shared by the PTY reader thread, the send task and
    the packet loop, one event per critical section, sessions as sequences of events in any order.
    \<open>Session\<close>: delivery, numbering, telemetry, input, and the refinement of an abstract byte pipe.
    \<open>Screen\<close>: sizes and the emulated screen, key, panics, overflow and starvation. \<open>Bandwidth\<close>: the accounting of the token bucket.
    \<open>Stats\<close>: the statistics task, and a session together with it.
  \<^item> \<open>Client\<close>, \<open>Client_Session\<close>: \<^verbatim>\<open>write_packet\<close>, \<^verbatim>\<open>read_packet\<close> and the three loops of
    \<^verbatim>\<open>run_client_stream_handshake\<close> as events in any order; what is shown, that the receiver makes progress, and
    what is sent.
  \<^item> \<open>Login\<close>: \<^verbatim>\<open>run_server\<close> and the set-up of \<^verbatim>\<open>handle_client\<close>. \<open>Cli\<close>: both argument loops. \<open>Tunnel\<close>:
    \<^verbatim>\<open>SshTunnel\<close> with the child processes it starts and leaves. \<open>Programs\<close>: both \<^verbatim>\<open>main\<close> functions, from the
    command line to the running session. \<open>Keys\<close>: encoding of key and mouse events and \<^verbatim>\<open>ResponseFilter\<close>.
  \<^item> this theory: the properties that span client and server, from the shell to the terminal and from the
    keyboard to the shell.

  \<^bold>\<open>Parameters.\<close> Code outside the repository is an argument of the definitions that use it: gzip (flate2) as a
    pair of functions, the hypothesis being that the decoder inverts the encoder; the vt100 emulator as a
    record of its calls, which may panic; the styling bytes of crossterm; sockets, PTY, child processes and
    tokio's timer; the parser of socket addresses. Every property with such a hypothesis has a witness with a
    concrete instance.

  \<^bold>\<open>Concurrency.\<close> Threads and tasks interleave at the granularity of their critical sections and of the
  points where they wait. A task whose handle is dropped goes on, one whose future is dropped ends. A run of a
  server or client is a list of events in any order; what the environment decides (bytes read, clock,
  success of sends, how streams are cut) is in the events or in the readers. An event a task is not ready
  for leaves the state alone. No theorem assumes a schedule, except where it names one to show that it leads
  to a result. The granularity has limits: a burst of keystrokes is handled in one event, although the print
  of a frame, which is outside the predictor's lock, could fall inside it; the statistics task reads its
  counters as one snapshot, although each is loaded by itself. Reads of the client's socket can time out
  anywhere in the model; the theorems on what the client shows are for sockets that do not time out, and the
  loss that a timeout inside a frame causes is a theorem of its own.

  \<^bold>\<open>Panics.\<close> The binaries can be built to unwind or to abort on a panic; the strategy is a parameter of
  the server's and the client's steps. Modelled are the panics of the emulator's \<^verbatim>\<open>process\<close> and
  \<^verbatim>\<open>contents_formatted\<close>, which the sources guard, and that of a timer of 0 ms in the send task; creating an emulator
  and asking for its size or cursor do not panic in the model.

  \<^bold>\<open>Bounds.\<close> No fuel is used: all loops are structural or have a measure. Integers have the width of the
  source and wrap as in a release build (a debug build panics instead where noted: the cursor column in
  \<^verbatim>\<open>handle_keystroke\<close>, the coordinates of mouse events and redraws, \<^verbatim>\<open>max_kbps * 1024\<close>). Doubles have no exponent
  limits; the values that occur are far from them. Sizes of \<open>2 ^ 31\<close> or \<open>2 ^ 64\<close> bytes in hypotheses are the
  limits of the length fields and of the telemetry counters.

  \<^bold>\<open>Not modelled.\<close> Raw mode and bracketed paste of the terminal (\<^verbatim>\<open>RawModeGuard\<close>), failures of \<^verbatim>\<open>try_clone\<close> and
  \<^verbatim>\<open>set_read_timeout\<close> on the client's socket, messages on standard error, usage texts, the unit tests in the sources and the tests, scripts
  and C and C++ clients of the repository.
\<close>

section \<open>From the shell to the terminal\<close>

text \<open>
  C1. Output end to end: what the shell writes reaches the user's terminal complete and in
  order. A server session in which no send fails and nothing is reported dropped puts frames on the
  wire; a client without prediction, reading them from a socket that cuts the stream anywhere,
  interleaved with typing and sending in any way, has written a prefix of the shell's output to its
  terminal; and from any point at which it runs, one turn of its receiver per frame is enough for all
  of the output to be there, except what the server still buffers. The reads of the client's socket do not
  time out (\<open>flows\<close>).
\<close>
theorem shell_output_reaches_terminal:
  assumes gzip: "\<And>d c. gz d = Some c \<Longrightarrow> gunzip_of E c = Inr d"
    and server: "session_run V gz ps kbps key (session_start V kbps t0 pty) sevs = Some s"
    and sends: "\<forall>e \<in> set sevs. \<not> send_fails e"
    and size: "length (pty_stream sevs) < 2 ^ 31"
    and dropped: "bytes_dropped (telemetry s) = 0"
    and socket: "flows rd" "pending rd = concat (map (\<lambda>p. encode p []) (wire s))"
    and client: "client_run E (client_start E False ckey sz sz2 (sink []) so rd) cevs = Some c"
  shows "prefix (wr_out (stdout c)) (pty_stream sevs) \<and>
    (\<forall>c'. running c \<and> client_run E c (concat (replicate (length (wire s)) receiver_block)) = Some c' \<longrightarrow>
       wr_out (stdout c') @ pty_buffer (state s) = pty_stream sevs)"
proof -
  have all: "screen_bytes (gunzip_of E) (wire s) @ pty_buffer (state s) = pty_stream sevs"
    using delivered_bytes [OF gzip server sends _ dropped] size by simp
  have "list_all frame_ok (wire s)"
    by (rule session_frames_ok [OF server sends dropped size])
  then have c: "carries rd (wire s)" using socket by (simp add: carries_def)
  have "prefix (wr_out (stdout c)) (pty_stream sevs)"
    using client_frames [OF c client] by (metis all prefix_prefix)
  moreover have "wr_out (stdout c') @ pty_buffer (state s) = pty_stream sevs"
    if "running c" "client_run E c (concat (replicate (length (wire s)) receiver_block)) = Some c'" for c'
    using client_frames_all [OF c client that] all by simp
  ultimately show ?thesis by blast
qed

theorem shell_output_reaches_terminal_witness:
  "\<exists>c c'. client_run example_env (client_start example_env False [] None None (sink []) (sink [])
        [Chunk (concat (map (\<lambda>p. encode p []) (wire example_run)))]) [SizeTurn None, SenderTop] = Some c \<and>
     client_run example_env c receiver_block = Some c' \<and> wr_out (stdout c') = [104, 105]"
proof -
  let ?rd = "[Chunk (concat (map (\<lambda>p. encode p []) (wire example_run)))]"
  let ?sevs = "[PtyRead (Chunk [104, 105]), SendTop True, Tick 20000000 True]"
  let ?c = "client_start example_env False [] None None (sink []) (sink []) ?rd"
  have g: "\<And>d c. run_gz d = Some c \<Longrightarrow> gunzip_of example_env c = Inr d"
    using run_gzip by (simp add: example_env_def)
  have f: "flows ?rd" by (simp add: example_run_def encode_def Let_def)
  have p: "pty_stream ?sevs = [104, 105]" by (simp add: pty_stream_def)
  have u: "panics example_env = Unwind" by (simp add: example_env_def)
  obtain c where c: "client_run example_env ?c [SizeTurn None, SenderTop] = Some c"
    using client_run_unwind [OF u] by blast
  then have "running c"
    by (auto simp: client_run_def client_step_def size_turn_def check_size_def sender_top_def client_start_def
        split: prod.splits)
  moreover obtain c' where c': "client_run example_env c receiver_block = Some c'"
    using client_run_unwind [OF u] by blast
  moreover have "length (wire example_run) = 1" "pty_buffer (state example_run) = []"
    by (simp_all add: example_run_def)
  ultimately have "wr_out (stdout c') = pty_stream ?sevs"
    using shell_output_reaches_terminal [OF g example_run _ _ _ f _ c] by (simp add: p) (simp add: example_run_def)
  with c c' p show ?thesis by auto
qed

section \<open>From the keyboard to the shell\<close>

lemma typed_received: "concat (map typed evs) = inputs (received evs)"
proof (induction evs)
  case (Cons e evs)
  have "typed e = inputs (received_packet e)"
    by (cases e rule: typed.cases) (simp_all add: inputs_def)
  with Cons show ?case by (simp add: received_def)
qed (simp add: received_def)

lemma member_inputs: "ClientInput d \<in> set ps \<Longrightarrow> length d \<le> length (inputs ps)"
  by (induction ps) (auto simp: inputs_def)

lemma inputs_prefix: "prefix ps qs \<Longrightarrow> prefix (inputs ps) (inputs qs)"
  by (auto simp: prefix_def)

lemma inputs_handshake: "inputs (handshake_of key sz # ps) = inputs ps"
  by (simp add: inputs_def handshake_of_def split: prod.splits)

text \<open>
  C2. Input end to end: what the user types reaches the shell in order. Whatever the client's loops
  do, however the network cuts and delays the client's bytes and whenever the server's codec and
  its other tasks run, the bytes written to the PTY are a prefix of the bytes typed; once the client
  has sent and the server has decoded everything they are all of them.
\<close>
theorem keystrokes_reach_shell:
  assumes client: "client_run E (client_start E pr key sz sz2 so (sink []) rd) cevs = Some c"
    and key: "frame_ok (handshake_of key sz)" and size: "length (stdin_stream cevs) < 2 ^ 31"
    and net: "prefix (concat cs) (wr_out (socket_out c))" "deliver decode [] cs ps buf"
    and server: "session_run V gz st kbps skey (session_start V kbps t0 (sink [])) sevs = Some s"
      "\<not> session_over s" "received sevs = ps"
  shows "prefix (wr_out (pty_input s)) (stdin_stream cevs) \<and>
    (input_open c \<and> running c \<and> channel c = [] \<and> concat cs = wr_out (socket_out c) \<and> fst (decode buf) = Inr None \<longrightarrow>
       wr_out (pty_input s) = stdin_stream cevs)"
proof -
  obtain sent where w: "wr_out (socket_out c) = encode (handshake_of key sz) [] @ concat (map (\<lambda>p. encode p []) sent)"
    and pre: "prefix (inputs (sent @ channel c)) (stdin_stream cevs)"
    and all: "input_open c \<and> running c \<longrightarrow> inputs (sent @ channel c) = stdin_stream cevs"
    and shape: "list_all (\<lambda>p. (\<exists>d. p = ClientInput d) \<or> (\<exists>r c. p = ClientResize r c)) sent"
    using client_typing [OF client] by blast
  let ?qs = "handshake_of key sz # sent"
  have stream: "wr_out (socket_out c) = concat (map (\<lambda>p. encode p []) ?qs)" by (simp add: w)
  have "frame_ok p" if p: "p \<in> set sent" for p
  proof -
    have "length d < 2 ^ 31" if "p = ClientInput d" for d
    proof -
      have "length d \<le> length (inputs (sent @ channel c))"
        using member_inputs [of d "sent @ channel c"] p that by auto
      also have "\<dots> \<le> length (stdin_stream cevs)" using pre by (rule prefix_length_le)
      finally show ?thesis using size by simp
    qed
    with shape p show ?thesis
      by (auto simp: list_all_iff frame_ok_def wire_simps)
  qed
  with key have ok: "list_all frame_ok ?qs" by (simp add: list_all_iff)
  have out: "wr_out (pty_input s) = inputs ps"
    using session_typed [OF server(1,2)] server(3) by (simp add: typed_received)
  have "prefix ps ?qs"
    using codec.deliver_prefix [OF net(2) ok] net(1) stream by simp
  then have "prefix (inputs ps) (inputs ?qs)" by (rule inputs_prefix)
  then have "prefix (inputs ps) (stdin_stream cevs)"
    using pre by (simp add: inputs_handshake) (meson prefix_order.trans prefixI)
  moreover have "inputs ps = stdin_stream cevs"
    if "input_open c \<and> running c" "channel c = []" "concat cs = wr_out (socket_out c)" "fst (decode buf) = Inr None"
  proof -
    have "ps = ?qs"
      using codec.deliver_complete [OF net(2) ok] that(3,4) stream by simp
    then show ?thesis using all that(1,2) by (simp add: inputs_handshake)
  qed
  ultimately show ?thesis unfolding out by blast
qed

text \<open>A chunk typed into an idle client goes out in one turn of the input loop and one of the sender.\<close>

lemma typed_chunk_sent:
  assumes "socket_out c = sink o1" "input_open c" "running c" "\<not> at_read c" "sender_open c" "\<not> at_recv c" "channel c = []"
    and "d \<noteq> []" "17 \<notin> set d"
  shows "\<exists>c'. client_run E c [SizeTurn None, InputTurn clock (Chunk d), SenderTop, SenderTurn] = Some c' \<and>
    socket_out c' = sink (o1 @ encode (ClientInput d) [])"
proof -
  obtain e p out where k: "handle_keystroke (emulator E) (styling E) clock (predictor c) (stdout c) d = (e, p, out)"
    by (cases "handle_keystroke (emulator E) (styling E) clock (predictor c) (stdout c) d")
  let ?c1 = "c\<lparr>at_read := True\<rparr>"
  let ?c2 = "?c1\<lparr>at_read := False, predictor := p, stdout := out, channel := [ClientInput d]\<rparr>"
  have "size_turn E None c = ?c1" using assms by (simp add: size_turn_def check_size_def)
  moreover have "input_turn E clock (Chunk d) ?c1 = ?c2"
    using assms k by (simp add: input_turn_def channel_send_def Let_def)
  moreover have "sender_top ?c2 = ?c2\<lparr>at_recv := True\<rparr>" using assms by (simp add: sender_top_def)
  moreover have "socket_out (sender_turn (?c2\<lparr>at_recv := True\<rparr>)) = sink (o1 @ encode (ClientInput d) [])"
    using assms by (simp add: sender_turn_def write_packet_sink encode_append [of "ClientInput d" o1])
  ultimately show ?thesis
    by (simp add: client_run_def client_step_def)
qed

theorem keystrokes_reach_shell_witness:
  "\<exists>c s. client_run example_env (client_start example_env True [] None None (sink []) (sink []) [])
        [SizeTurn None, InputTurn (\<lambda>i. i) (Chunk [108, 115]), SenderTop, SenderTurn] = Some c \<and>
     session_run line_vt100 run_gz Unwind 8 [] (session_start line_vt100 8 0 (sink []))
        [Received 0 (Inr (ClientHandshake [] 24 80)), Received 0 (Inr (ClientInput [108, 115]))] = Some s \<and>
     prefix (wr_out (pty_input s)) [108, 115]"
proof -
  let ?cevs = "[SizeTurn None, InputTurn (\<lambda>i. i) (Chunk [108, 115]), SenderTop, SenderTurn]"
  let ?ps = "[ClientHandshake [] 24 80, ClientInput [108, 115]]"
  let ?sevs = "[Received 0 (Inr (ClientHandshake [] 24 80)), Received 0 (Inr (ClientInput [108, 115]))]"
  let ?c = "client_start example_env True [] None None (sink []) (sink []) []"
  have hs: "handshake_of [] None = ClientHandshake [] 24 80"
    by (simp add: handshake_of_def size_or_default_def)
  have "panics example_env = Unwind" by (simp add: example_env_def)
  then obtain c where c: "client_run example_env ?c ?cevs = Some c" using client_run_unwind by blast
  have "socket_out ?c = sink (encode (ClientHandshake [] 24 80) [])"
    by (simp add: client_start_def size_or_default_def write_packet_sink)
  moreover have "input_open ?c" "running ?c" "\<not> at_read ?c" "sender_open ?c" "\<not> at_recv ?c" "channel ?c = []"
    by (simp_all add: client_start_def size_or_default_def)
  ultimately have "socket_out c = sink (concat (map (\<lambda>p. encode p []) ?ps))"
    using typed_chunk_sent [of ?c "encode (ClientHandshake [] 24 80) []" "[108, 115]" example_env "\<lambda>i. i"] c by simp
  then have w: "wr_out (socket_out c) = concat (map (\<lambda>p. encode p []) ?ps)" by simp
  have ok: "list_all frame_ok ?ps" by (simp add: frame_ok_def wire_simps valid_string_def as_bytes_def)
  have d: "deliver decode [] [wr_out (socket_out c)] ?ps []"
    by (rule codec.deliver_exists [OF ok]) (simp only: w concat.simps append_Nil2)
  obtain s where s: "session_run line_vt100 run_gz Unwind 8 [] (session_start line_vt100 8 0 (sink [])) ?sevs = Some s"
      "\<not> session_over s"
    by (simp add: session_run_def session_step_def session_start_def session_over_def handle_packet_def
        resize_session_def Let_def)
  have "prefix (wr_out (pty_input s)) (stdin_stream ?cevs)"
    using keystrokes_reach_shell [OF c _ _ _ d s] ok by (simp add: hs stdin_stream_def typed_after_def received_def)
  with c s(1) show ?thesis by (auto simp: stdin_stream_def typed_after_def)
qed

end
